(* ===== verification/Go_Prelude.thy ===== *)
theory Go_Prelude
  imports Complex_Main
    "HOL-Library.AList" "HOL-Library.List_Lexorder" "HOL-Library.Char_ord"
    "HOL-Library.Sublist" "HOL-Library.Multiset" "HOL-Library.Word"
begin

text \<open>
  What the components of the collector share: Go strings as byte sequences with the operations
  of package \<^verbatim>\<open>strings\<close> the source calls, decimal and hexadecimal formatting, Go maps as
  association lists with distinct keys, and the loop over the entries of a map.

  A Go string is a sequence of bytes and an Isabelle \<^typ>\<open>char\<close> is a byte, so \<^typ>\<open>string\<close> is
  the type of Go strings and \<^const>\<open>length\<close> is Go's \<^verbatim>\<open>len\<close>. The order on strings is the one
  of \<^verbatim>\<open>HOL-Library.List_Lexorder\<close> over \<^verbatim>\<open>Char_ord\<close>: byte-wise lexicographic, a proper prefix
  first, as \<^verbatim>\<open>bytes.Compare\<close> and \<^verbatim>\<open>sort.Strings\<close> order.
\<close>

named_theorems gomap_simps \<open>lookups after the updates of a Go map\<close>
named_theorems gomap_intros \<open>operations that keep the keys of a Go map distinct\<close>
named_theorems str_simps \<open>string operations of the standard library\<close>

section \<open>Strings\<close>

subsection \<open>Prefixes, cutting, splitting\<close>

definition HasPrefix :: "string \<Rightarrow> string \<Rightarrow> bool" where
  "HasPrefix s p = (take (length p) s = p)"

definition CutPrefix :: "string \<Rightarrow> string \<Rightarrow> string option" where
  "CutPrefix s p = (if HasPrefix s p then Some (drop (length p) s) else None)"

text \<open>\<^verbatim>\<open>strings.Cut\<close> at a one-byte separator: the part before, the part after, and whether it occurs.\<close>

definition Cut :: "string \<Rightarrow> char \<Rightarrow> string \<times> string \<times> bool" where
  "Cut s c =
     (if c \<in> set s then (takeWhile (\<lambda>x. x \<noteq> c) s, tl (dropWhile (\<lambda>x. x \<noteq> c) s), True)
      else (s, [], False))"

fun Split :: "string \<Rightarrow> char \<Rightarrow> string list" where
  "Split [] c = [[]]"
| "Split (x # xs) c =
     (if x = c then [] # Split xs c
      else (case Split xs c of [] \<Rightarrow> [[x]] | p # ps \<Rightarrow> (x # p) # ps))"

fun Join :: "string list \<Rightarrow> string \<Rightarrow> string" where
  "Join [] sep = []"
| "Join [x] sep = x"
| "Join (x # y # xs) sep = x @ sep @ Join (y # xs) sep"

fun Contains :: "string \<Rightarrow> string \<Rightarrow> bool" where
  "Contains [] sub = (sub = [])"
| "Contains (x # xs) sub = (HasPrefix (x # xs) sub \<or> Contains xs sub)"

text \<open>\<^verbatim>\<open>host[:strings.LastIndex(host, c)]\<close> when \<open>c\<close> occurs, as \<^verbatim>\<open>NewEmailNotifier\<close> uses it.\<close>

definition before_last :: "string \<Rightarrow> char \<Rightarrow> string option" where
  "before_last s c =
     (if c \<in> set s then Some (rev (tl (dropWhile (\<lambda>x. x \<noteq> c) (rev s)))) else None)"

definition TrimRight :: "string \<Rightarrow> char \<Rightarrow> string" where
  "TrimRight s c = rev (dropWhile (\<lambda>x. x = c) (rev s))"

subsection \<open>White space and case\<close>

text \<open>
  \<^verbatim>\<open>strings.TrimSpace\<close> removes the runes \<^verbatim>\<open>unicode.IsSpace\<close> accepts from both ends. The list holds
  the UTF-8 encodings of these runes. No encoding is a proper prefix or suffix of another and each
  begins with its only lead byte, so stripping one of these byte strings at an end is what decoding
  the first or the last rune and testing it does, on invalid UTF-8 too.
\<close>

definition utf8_spaces :: "string list" where
  "utf8_spaces =
     [[CHR 0x09], [CHR 0x0A], [CHR 0x0B], [CHR 0x0C], [CHR 0x0D], [CHR 0x20],
      [CHR 0xC2, CHR 0x85], [CHR 0xC2, CHR 0xA0],
      [CHR 0xE1, CHR 0x9A, CHR 0x80],
      [CHR 0xE2, CHR 0x80, CHR 0x80], [CHR 0xE2, CHR 0x80, CHR 0x81],
      [CHR 0xE2, CHR 0x80, CHR 0x82], [CHR 0xE2, CHR 0x80, CHR 0x83],
      [CHR 0xE2, CHR 0x80, CHR 0x84], [CHR 0xE2, CHR 0x80, CHR 0x85],
      [CHR 0xE2, CHR 0x80, CHR 0x86], [CHR 0xE2, CHR 0x80, CHR 0x87],
      [CHR 0xE2, CHR 0x80, CHR 0x88], [CHR 0xE2, CHR 0x80, CHR 0x89],
      [CHR 0xE2, CHR 0x80, CHR 0x8A],
      [CHR 0xE2, CHR 0x80, CHR 0xA8], [CHR 0xE2, CHR 0x80, CHR 0xA9],
      [CHR 0xE2, CHR 0x80, CHR 0xAF], [CHR 0xE2, CHR 0x81, CHR 0x9F],
      [CHR 0xE3, CHR 0x80, CHR 0x80]]"

definition space_at :: "string list \<Rightarrow> string \<Rightarrow> nat" where
  "space_at encs s = (case find (HasPrefix s) encs of None \<Rightarrow> 0 | Some e \<Rightarrow> length e)"

function strip_left :: "string list \<Rightarrow> string \<Rightarrow> string" where
  "strip_left encs s =
     (let n = space_at encs s in if n = 0 \<or> s = [] then s else strip_left encs (drop n s))"
  by pat_completeness auto
termination
  by (relation "measure (\<lambda>(encs, s). length s)") auto

declare strip_left.simps [simp del]

definition TrimSpace :: "string \<Rightarrow> string" where
  "TrimSpace s = rev (strip_left (map rev utf8_spaces) (rev (strip_left utf8_spaces s)))"

text \<open>
  \<^verbatim>\<open>strings.ToLower\<close>. Of the runes beyond ASCII only U+0130 and U+212A have an ASCII lower case
  (\<^verbatim>\<open>i\<close> and \<^verbatim>\<open>k\<close>). The others are mapped to runes beyond ASCII; they are kept here, since every
  caller in the source compares the result with ASCII literals only.
\<close>

definition lower_byte :: "char \<Rightarrow> char" where
  "lower_byte c = (if 65 \<le> (of_char c :: nat) \<and> (of_char c :: nat) \<le> 90 then char_of ((of_char c :: nat) + 32) else c)"

fun ToLower :: "string \<Rightarrow> string" where
  "ToLower (a # b # c # s) =
     (if a = CHR 0xC4 \<and> b = CHR 0xB0 then CHR ''i'' # ToLower (c # s)
      else if a = CHR 0xE2 \<and> b = CHR 0x84 \<and> c = CHR 0xAA then CHR ''k'' # ToLower s
      else lower_byte a # ToLower (b # c # s))"
| "ToLower [a, b] = (if a = CHR 0xC4 \<and> b = CHR 0xB0 then [CHR ''i''] else [lower_byte a, lower_byte b])"
| "ToLower [a] = [lower_byte a]"
| "ToLower [] = []"

subsection \<open>Numbers as text\<close>

text \<open>\<^verbatim>\<open>%d\<close> of a number that is not negative and of any integer, and \<^verbatim>\<open>%0wd\<close> with zero padding.\<close>

definition digit_char :: "int \<Rightarrow> char" where
  "digit_char d = char_of (48 + nat d)"

function fmt_dec :: "int \<Rightarrow> string" where
  "fmt_dec n = (if n < 10 then [digit_char n] else fmt_dec (n div 10) @ [digit_char (n mod 10)])"
  by pat_completeness auto
termination
  by (relation "measure nat") auto

declare fmt_dec.simps [simp del]

definition fmt_int :: "int \<Rightarrow> string" where
  "fmt_int i = (if i < 0 then CHR ''-'' # fmt_dec (- i) else fmt_dec i)"

definition pad0 :: "nat \<Rightarrow> int \<Rightarrow> string" where
  "pad0 w n = replicate (w - length (fmt_dec n)) (CHR ''0'') @ fmt_dec n"

definition is_digit :: "char \<Rightarrow> bool" where
  "is_digit c = (48 \<le> (of_char c :: nat) \<and> (of_char c :: nat) \<le> 57)"

definition digit_val :: "char \<Rightarrow> int" where
  "digit_val c = int ((of_char c :: nat) - 48)"

definition int64_min :: int where "int64_min = - (2 ^ 63)"
definition int64_max :: int where "int64_max = 2 ^ 63 - 1"

definition dec_value :: "string \<Rightarrow> int" where
  "dec_value s = foldl (\<lambda>a c. 10 * a + digit_val c) 0 s"

text \<open>
  \<^verbatim>\<open>strconv.Atoi\<close> on a 64-bit platform: an optional sign, at least one decimal digit, nothing else;
  a syntax error and a value out of range both return an error (\<^const>\<open>None\<close>).
\<close>

definition Atoi :: "string \<Rightarrow> int option" where
  "Atoi s =
     (let neg = (s \<noteq> [] \<and> hd s = CHR ''-'');
          body = (if s \<noteq> [] \<and> (hd s = CHR ''-'' \<or> hd s = CHR ''+'') then tl s else s);
          v = (if neg then - dec_value body else dec_value body)
      in if body = [] \<or> \<not> list_all is_digit body then None
         else if v < int64_min \<or> v > int64_max then None
         else Some v)"

definition hex_digit :: "nat \<Rightarrow> char" where
  "hex_digit n = (if n < 10 then char_of (48 + n) else char_of (87 + n))"

text \<open>\<^verbatim>\<open>hex.EncodeToString\<close>: two lower-case digits per byte.\<close>

definition hex_encode :: "string \<Rightarrow> string" where
  "hex_encode s = concat (map (\<lambda>c. [hex_digit ((of_char c :: nat) div 16), hex_digit ((of_char c :: nat) mod 16)]) s)"

subsection \<open>Runes\<close>

text \<open>
  \<^verbatim>\<open>for _, r := range s\<close> decodes UTF-8. \<^term>\<open>rune_at\<close> is the decoder of Go's language definition:
  the first rune and its width, U+FFFD and width 1 where the bytes are no valid encoding.
\<close>

definition cont_byte :: "nat \<Rightarrow> bool" where
  "cont_byte b = (0x80 \<le> b \<and> b \<le> 0xBF)"

fun rune_at :: "nat list \<Rightarrow> nat \<times> nat" where
  "rune_at [] = (0xFFFD, 0)"
| "rune_at (b0 # bs) =
     (if b0 < 0x80 then (b0, 1)
      else if 0xC2 \<le> b0 \<and> b0 \<le> 0xDF then
        (case bs of b1 # _ \<Rightarrow>
           if cont_byte b1 then ((b0 - 0xC0) * 64 + (b1 - 0x80), 2) else (0xFFFD, 1)
         | _ \<Rightarrow> (0xFFFD, 1))
      else if 0xE0 \<le> b0 \<and> b0 \<le> 0xEF then
        (case bs of b1 # b2 # _ \<Rightarrow>
           if (if b0 = 0xE0 then 0xA0 else 0x80) \<le> b1 \<and> b1 \<le> (if b0 = 0xED then 0x9F else 0xBF)
              \<and> cont_byte b2
           then ((b0 - 0xE0) * 4096 + (b1 - 0x80) * 64 + (b2 - 0x80), 3) else (0xFFFD, 1)
         | _ \<Rightarrow> (0xFFFD, 1))
      else if 0xF0 \<le> b0 \<and> b0 \<le> 0xF4 then
        (case bs of b1 # b2 # b3 # _ \<Rightarrow>
           if (if b0 = 0xF0 then 0x90 else 0x80) \<le> b1 \<and> b1 \<le> (if b0 = 0xF4 then 0x8F else 0xBF)
              \<and> cont_byte b2 \<and> cont_byte b3
           then ((b0 - 0xF0) * 262144 + (b1 - 0x80) * 4096 + (b2 - 0x80) * 64 + (b3 - 0x80), 4)
           else (0xFFFD, 1)
         | _ \<Rightarrow> (0xFFFD, 1))
      else (0xFFFD, 1))"

function runes :: "nat list \<Rightarrow> nat list" where
  "runes bs = (if bs = [] then [] else fst (rune_at bs) # runes (drop (max 1 (snd (rune_at bs))) bs))"
  by pat_completeness auto
termination
  by (relation "measure length") auto

declare runes.simps [simp del]

section \<open>Maps\<close>

text \<open>
  A Go map is an association list with distinct keys. The order of the list stands for the order in
  which one \<^verbatim>\<open>range\<close> over the map happens to visit the entries; Go leaves that order open, so what is
  proved of a result that depends on it is stated up to permutation.
\<close>

type_synonym ('k, 'v) gomap = "('k \<times> 'v) list"

definition gm_wf :: "('k, 'v) gomap \<Rightarrow> bool" where
  "gm_wf m = distinct (map fst m)"

abbreviation gm_get :: "('k, 'v) gomap \<Rightarrow> 'k \<Rightarrow> 'v option" where
  "gm_get m k \<equiv> map_of m k"

abbreviation gm_put :: "'k \<Rightarrow> 'v \<Rightarrow> ('k, 'v) gomap \<Rightarrow> ('k, 'v) gomap" where
  "gm_put k v m \<equiv> AList.update k v m"

abbreviation gm_del :: "'k \<Rightarrow> ('k, 'v) gomap \<Rightarrow> ('k, 'v) gomap" where
  "gm_del k m \<equiv> AList.delete k m"

text \<open>
  \<^verbatim>\<open>for id, n := range m { ... }\<close> with a body that changes the map. An entry the body deletes before
  the loop reaches it is not visited, as the language requires.
\<close>

definition gm_range :: "('k \<Rightarrow> 'v \<Rightarrow> ('k, 'v) gomap \<Rightarrow> ('k, 'v) gomap) \<Rightarrow> ('k, 'v) gomap \<Rightarrow> ('k, 'v) gomap" where
  "gm_range body m =
     fold (\<lambda>id acc. case gm_get acc id of None \<Rightarrow> acc | Some n \<Rightarrow> body id n acc) (map fst m) m"

text \<open>\<^verbatim>\<open>m[k]++\<close> on a map of counters: a missing key counts as zero.\<close>

definition gm_incr :: "'k \<Rightarrow> ('k, int) gomap \<Rightarrow> ('k, int) gomap" where
  "gm_incr k m = gm_put k ((case gm_get m k of None \<Rightarrow> 0 | Some n \<Rightarrow> n) + 1) m"

definition gm_count :: "('k, int) gomap \<Rightarrow> 'k \<Rightarrow> int" where
  "gm_count m k = (case gm_get m k of None \<Rightarrow> 0 | Some n \<Rightarrow> n)"

section \<open>Facts on strings\<close>

lemma HasPrefix_append [simp, str_simps]: "HasPrefix (p @ s) p"
  by (simp add: HasPrefix_def)

lemma HasPrefix_Nil [simp, str_simps]: "HasPrefix s []"
  by (simp add: HasPrefix_def)

lemma HasPrefix_Cons_Cons [simp, str_simps]:
  "HasPrefix (x # s) (y # p) = (x = y \<and> HasPrefix s p)"
  by (auto simp: HasPrefix_def)

lemma HasPrefix_Nil_Cons [simp, str_simps]: "\<not> HasPrefix [] (y # p)"
  by (simp add: HasPrefix_def)

lemma HasPrefixE: "HasPrefix s p \<Longrightarrow> (\<And>r. s = p @ r \<Longrightarrow> P) \<Longrightarrow> P"
  unfolding HasPrefix_def by (metis append_take_drop_id)

lemma HasPrefix_iff: "HasPrefix s p \<longleftrightarrow> (\<exists>r. s = p @ r)"
  by (auto elim: HasPrefixE)

lemma CutPrefix_Some: "CutPrefix s p = Some r \<longleftrightarrow> s = p @ r"
  by (auto simp: CutPrefix_def elim: HasPrefixE)

lemma CutPrefix_None: "CutPrefix s p = None \<longleftrightarrow> \<not> HasPrefix s p"
  by (simp add: CutPrefix_def)

lemma Split_nonempty [simp]: "Split s c \<noteq> []"
  by (cases s) (auto split: list.splits)

lemma Split_no_sep: "c \<notin> set s \<Longrightarrow> Split s c = [s]"
  by (induction s) auto

lemma Split_parts: "p \<in> set (Split s c) \<Longrightarrow> set p \<subseteq> set s - {c}"
  by (induction s arbitrary: p) (fastforce split: if_splits list.splits)+

lemma Join_Split: "Join (Split s c) [c] = s"
proof (induction s)
  case Nil
  show ?case by simp
next
  case (Cons x xs)
  obtain p ps where sp: "Split xs c = p # ps"
    using Split_nonempty by (cases "Split xs c") auto
  with Cons show ?case by (cases ps) auto
qed

lemma takeWhile_sep [str_simps]: "c \<notin> set ys \<Longrightarrow> takeWhile (\<lambda>x. x \<noteq> c) (ys @ c # zs) = ys"
  by (induction ys) auto

lemma dropWhile_sep [str_simps]: "c \<notin> set ys \<Longrightarrow> dropWhile (\<lambda>x. x \<noteq> c) (ys @ c # zs) = c # zs"
  by (induction ys) auto

lemma Cut_found:
  "Cut s c = (a, b, True) \<Longrightarrow> s = a @ c # b \<and> c \<notin> set a"
proof -
  assume "Cut s c = (a, b, True)"
  then have c: "c \<in> set s" and a: "a = takeWhile (\<lambda>x. x \<noteq> c) s"
    and b: "b = tl (dropWhile (\<lambda>x. x \<noteq> c) s)"
    by (auto simp: Cut_def split: if_splits)
  obtain ys zs where s: "s = ys @ c # zs" and ys: "c \<notin> set ys"
    using split_list_first [OF c] by blast
  have "a = ys" "b = zs"
    using a b s ys by (auto simp: str_simps)
  with s ys show ?thesis by simp
qed

lemma Cut_not_found: "Cut s c = (a, b, False) \<Longrightarrow> c \<notin> set s \<and> a = s"
  by (auto simp: Cut_def split: if_splits)

text \<open>A separator that does not occur on the right can be found from the right.\<close>

lemma append_sep_right_inject:
  assumes "xs @ c # ys = us @ c # vs" and "c \<notin> set ys" and "c \<notin> set vs"
  shows "xs = us \<and> ys = vs"
proof -
  from assms(1) have "rev (xs @ c # ys) = rev (us @ c # vs)" by (rule arg_cong)
  then have eq: "rev ys @ c # rev xs = rev vs @ c # rev us" by simp
  have c: "c \<notin> set (rev ys)" "c \<notin> set (rev vs)" using assms(2,3) by auto
  have "rev ys = rev vs"
    using takeWhile_sep [OF c(1), of "rev xs"] takeWhile_sep [OF c(2), of "rev us"] eq by metis
  with eq show ?thesis by simp
qed

lemma string_less_append_same [simp, str_simps]:
  fixes s :: "'a::linorder list"
  shows "(s @ a < s @ b) = (a < b)"
  by (induction s) auto

lemma fmt_dec_nonempty [simp]: "fmt_dec n \<noteq> []"
  by (subst fmt_dec.simps) simp

lemma digit_char_digit:
  "0 \<le> d \<Longrightarrow> d < 10 \<Longrightarrow> is_digit (digit_char d) \<and> digit_val (digit_char d) = d"
  by (simp add: is_digit_def digit_val_def digit_char_def)

lemma fmt_dec_digits: "0 \<le> n \<Longrightarrow> list_all is_digit (fmt_dec n)"
proof (induction n rule: fmt_dec.induct)
  case (1 n)
  then show ?case
    by (cases "n < 10") (auto simp: fmt_dec.simps [of n] digit_char_digit)
qed

lemma dec_value_snoc: "dec_value (s @ [c]) = 10 * dec_value s + digit_val c"
  by (simp add: dec_value_def)

lemma dec_value_fmt_dec: "0 \<le> n \<Longrightarrow> dec_value (fmt_dec n) = n"
proof (induction n rule: fmt_dec.induct)
  case (1 n)
  show ?case
  proof (cases "n < 10")
    case True
    with 1 show ?thesis by (simp add: fmt_dec.simps [of n] dec_value_def digit_char_digit)
  next
    case False
    then have "dec_value (fmt_dec n) = 10 * (n div 10) + n mod 10"
      using 1 by (simp add: fmt_dec.simps [of n] dec_value_snoc digit_char_digit)
    then show ?thesis by simp
  qed
qed

lemma fmt_dec_inject: "0 \<le> m \<Longrightarrow> 0 \<le> n \<Longrightarrow> fmt_dec m = fmt_dec n \<longleftrightarrow> m = n"
  using dec_value_fmt_dec by metis

lemma fmt_dec_hd_digit: "0 \<le> n \<Longrightarrow> is_digit (hd (fmt_dec n))"
  using fmt_dec_digits [of n] by (cases "fmt_dec n") auto

lemma Atoi_fmt_int:
  assumes "int64_min \<le> i" and "i \<le> int64_max"
  shows "Atoi (fmt_int i) = Some i"
proof (cases "i < 0")
  case True
  then show ?thesis using assms fmt_dec_digits [of "- i"]
    by (simp add: Atoi_def fmt_int_def dec_value_fmt_dec Let_def)
next
  case False
  have h: "hd (fmt_dec i) \<noteq> CHR ''-''" "hd (fmt_dec i) \<noteq> CHR ''+''"
    using fmt_dec_hd_digit [of i] False by (auto simp: is_digit_def)
  with False show ?thesis using assms fmt_dec_digits [of i]
    by (simp add: Atoi_def fmt_int_def dec_value_fmt_dec Let_def)
qed

lemma Atoi_range: "Atoi s = Some v \<Longrightarrow> int64_min \<le> v \<and> v \<le> int64_max"
  by (auto simp: Atoi_def Let_def split: if_splits)

section \<open>Facts on runes\<close>

lemma rune_at_ascii [simp]: "b < 0x80 \<Longrightarrow> rune_at (b # bs) = (b, 1)"
  by simp

lemma rune_at_non_ascii: "\<not> b < 0x80 \<Longrightarrow> 0x80 \<le> fst (rune_at (b # bs))"
proof -
  assume b: "\<not> b < 0x80"
  consider "b < 0xC2" | "0xC2 \<le> b" "b \<le> 0xDF" | "b = 0xE0" | "0xE1 \<le> b" "b \<le> 0xEF"
    | "b = 0xF0" | "0xF1 \<le> b" "b \<le> 0xF4" | "0xF4 < b"
    by linarith
  then show ?thesis
  proof cases
    case 2
    then have "2 \<le> b - 0xC0" by simp
    then show ?thesis using b 2 by (auto split: list.split)
  next
    case 3
    then show ?thesis by (auto split: list.split)
  next
    case 4
    then have "1 \<le> b - 0xE0" by simp
    then show ?thesis using b 4 by (auto split: list.split)
  next
    case 5
    then show ?thesis by (auto split: list.split)
  next
    case 6
    then have "1 \<le> b - 0xF0" by simp
    then show ?thesis using b 6 by (auto split: list.split)
  qed (use b in simp_all)
qed

declare rune_at.simps [simp del]

text \<open>The first rune takes up a byte at least; a valid one depends on its own bytes only.\<close>

lemma rune_at_width: "0 < snd (rune_at (b # bs))"
  by (auto simp: rune_at.simps split: list.split)

lemma rune_at_prefix:
  assumes "rune_at bs = (r, w)" and "bs \<noteq> []" and "\<not> (r = 0xFFFD \<and> w = 1)"
  shows "rune_at (take w bs @ x) = (r, w)" and "w \<le> length bs"
proof -
  obtain b0 rest where "bs = b0 # rest" using assms(2) by (cases bs) auto
  then have "rune_at (take w bs @ x) = (r, w) \<and> w \<le> length bs"
    using assms by (auto simp: rune_at.simps split: list.splits if_splits)
  then show "rune_at (take w bs @ x) = (r, w)" and "w \<le> length bs" by auto
qed

text \<open>
  Whether every rune of a string lies in an interval of ASCII can be read off its bytes: a byte
  beyond ASCII never decodes to an ASCII rune.
\<close>

lemma runes_ascii_range:
  assumes "hi < 0x80"
  shows "(\<forall>r \<in> set (runes bs). lo \<le> r \<and> r \<le> hi) \<longleftrightarrow> (\<forall>b \<in> set bs. lo \<le> b \<and> b \<le> hi)"
proof (induction bs rule: runes.induct)
  case (1 bs)
  show ?case
  proof (cases bs)
    case Nil
    then show ?thesis by (simp add: runes.simps)
  next
    case (Cons b rest)
    show ?thesis
    proof (cases "b < 0x80")
      case True
      then show ?thesis using 1 Cons by (simp add: runes.simps [of "b # rest"])
    next
      case False
      then have "\<not> fst (rune_at (b # rest)) \<le> hi"
        using rune_at_non_ascii [of b rest] assms by linarith
      moreover from False have "\<not> b \<le> hi" using assms by linarith
      ultimately show ?thesis using Cons by (simp add: runes.simps [of "b # rest"])
    qed
  qed
qed

section \<open>Facts on maps\<close>

lemma gm_get_put [simp, gomap_simps]: "gm_get (gm_put k v m) j = (if j = k then Some v else gm_get m j)"
  by (simp add: update_conv')

lemma gm_get_del [simp, gomap_simps]: "gm_get (gm_del k m) j = (if j = k then None else gm_get m j)"
  by (simp add: delete_conv')

lemma gm_wf_Nil [simp, gomap_intros]: "gm_wf []"
  by (simp add: gm_wf_def)

lemma gm_wf_put [simp, gomap_intros]: "gm_wf m \<Longrightarrow> gm_wf (gm_put k v m)"
  by (simp add: gm_wf_def distinct_update)

lemma gm_wf_del [simp, gomap_intros]: "gm_wf m \<Longrightarrow> gm_wf (gm_del k m)"
  by (simp add: gm_wf_def distinct_delete)

lemma gm_wf_incr [simp, gomap_intros]: "gm_wf m \<Longrightarrow> gm_wf (gm_incr k m)"
  by (simp add: gm_incr_def)

lemma gm_count_incr [simp, gomap_simps]: "gm_count (gm_incr k m) j = gm_count m j + (if j = k then 1 else 0)"
  by (simp add: gm_count_def gm_incr_def)

lemma gm_get_in_set: "gm_wf m \<Longrightarrow> (k, v) \<in> set m \<longleftrightarrow> gm_get m k = Some v"
  by (simp add: gm_wf_def)

text \<open>
  A loop whose body changes only the entry it visits is a pointwise update of the map: \<open>f\<close> gives
  the new value of the entry, or nothing when the body deletes it.
\<close>

lemma gm_range_fold:
  assumes body: "\<And>k v m j. gm_get m k = Some v \<Longrightarrow> gm_get (body k v m) j = (if j = k then f k v else gm_get m j)"
    and "distinct ks"
  shows "gm_get (fold (\<lambda>id acc. case gm_get acc id of None \<Rightarrow> acc | Some n \<Rightarrow> body id n acc) ks m) j =
    (if j \<in> set ks then Option.bind (gm_get m j) (f j) else gm_get m j)"
  using assms(2)
proof (induction ks arbitrary: m)
  case Nil
  show ?case by simp
next
  case (Cons k ks)
  then show ?case
    by (cases "gm_get m k") (auto simp: body)
qed

lemma gm_range_present:
  assumes "\<And>k v m j. gm_get m k = Some v \<Longrightarrow> gm_get (body k v m) j = (if j = k then f k v else gm_get m j)"
    and "gm_wf m"
  shows "gm_get (gm_range body m) j = Option.bind (gm_get m j) (f j)"
proof -
  have "gm_get m j = None" if "j \<notin> set (map fst m)"
    using that by (simp add: map_of_eq_None_iff)
  then show ?thesis
    using gm_range_fold [of body f "map fst m" m j] assms by (auto simp: gm_range_def gm_wf_def)
qed

lemma gm_range_pointwise:
  assumes "\<And>k v m j. gm_get (body k v m) j = (if j = k then f k v else gm_get m j)"
    and "gm_wf m"
  shows "gm_get (gm_range body m) j = Option.bind (gm_get m j) (f j)"
  using assms by (intro gm_range_present) auto

lemma gm_range_wf:
  assumes "\<And>k v m. gm_wf m \<Longrightarrow> gm_wf (body k v m)" and "gm_wf m"
  shows "gm_wf (gm_range body m)"
proof -
  have "gm_wf (fold (\<lambda>id acc. case gm_get acc id of None \<Rightarrow> acc | Some n \<Rightarrow> body id n acc) ks m)" for ks
    using assms(2) by (induction ks arbitrary: m) (auto simp: assms(1) split: option.splits)
  then show ?thesis by (simp add: gm_range_def)
qed

text \<open>Grouping a list by a key, over distinct keys that cover it, loses and repeats nothing.\<close>

lemma mset_concat_filter_aux:
  "distinct gs \<Longrightarrow>
    mset (concat (map (\<lambda>g. filter (\<lambda>x. f x = g) xs) gs)) = filter_mset (\<lambda>x. f x \<in> set gs) (mset xs)"
proof (induction gs)
  case (Cons g gs)
  have "filter_mset (\<lambda>x. f x \<in> set (g # gs)) M =
      filter_mset (\<lambda>x. f x = g) M + filter_mset (\<lambda>x. f x \<in> set gs) M" for M
    using Cons.prems by (induction M) auto
  with Cons show ?case by simp
qed simp

lemma mset_concat_filter:
  assumes "distinct gs" and "\<forall>x \<in> set xs. f x \<in> set gs"
  shows "mset (concat (map (\<lambda>g. filter (\<lambda>x. f x = g) xs) gs)) = mset xs"
proof -
  have "filter_mset (\<lambda>x. f x \<in> set gs) (mset xs) = mset xs"
    using assms(2) by (simp add: filter_mset_eq_conv)
  with mset_concat_filter_aux [OF assms(1), of f xs] show ?thesis by simp
qed

lemma sorted_le_last: "sorted xs \<Longrightarrow> x \<in> set xs \<Longrightarrow> x \<le> last (xs :: 'a::linorder list)"
  by (induction xs) auto

lemma length_filter_disjoint:
  assumes "\<And>x. R x = (P x \<or> Q x)" and "\<And>x. \<not> (P x \<and> Q x)"
  shows "length (filter R xs) = length (filter P xs) + length (filter Q xs)"
  using assms(2) by (induction xs) (auto simp: assms(1))

lemma filter_distinct_key:
  "distinct (map f xs) \<Longrightarrow> x \<in> set xs \<Longrightarrow> filter (\<lambda>y. f y = f x) xs = [x]"
  by (induction xs) (auto simp: filter_empty_conv image_iff)

lemma find_in_set: "find P xs = Some x \<Longrightarrow> x \<in> set xs \<and> P x"
  by (induction xs) (auto split: if_splits)

text \<open>A list is determined by its elements and a strict order it is sorted by.\<close>

lemma sorted_wrt_unique_set:
  assumes "sorted_wrt R xs" and "sorted_wrt R ys" and "set xs = set ys"
    and irr: "\<And>x. \<not> R x x" and asym: "\<And>x y. R x y \<Longrightarrow> \<not> R y x"
  shows "xs = ys"
  using assms(1-3)
proof (induction xs arbitrary: ys)
  case (Cons x xs)
  then obtain y ys' where ys: "ys = y # ys'" by (cases ys) auto
  have "x = y"
  proof (rule ccontr)
    assume "x \<noteq> y"
    then have "R y x" "R x y" using Cons.prems ys by auto
    with asym show False by blast
  qed
  moreover have "x \<notin> set xs" "y \<notin> set ys'" using Cons.prems ys irr by auto
  ultimately have "set xs = set ys'" using Cons.prems(3) ys by auto
  with Cons ys \<open>x = y\<close> show ?case by simp
qed simp

section \<open>Components as state machines\<close>

text \<open>
  Every component below takes its lock for a whole operation, so a run of the component is a sequence
  of operations. The locale is the contract the components share: an invariant that the start states
  satisfy and every operation keeps holds in every reachable state.
\<close>

locale invariant_system =
  fixes start :: "'s \<Rightarrow> bool"
    and step :: "'s \<Rightarrow> 's \<Rightarrow> bool"
    and inv :: "'s \<Rightarrow> bool"
  assumes inv_start: "start s \<Longrightarrow> inv s"
    and inv_step: "inv s \<Longrightarrow> step s t \<Longrightarrow> inv t"
begin

lemma inv_steps: "step\<^sup>*\<^sup>* s t \<Longrightarrow> inv s \<Longrightarrow> inv t"
  by (induction rule: rtranclp_induct) (auto intro: inv_step)

lemma inv_reachable: "start s \<Longrightarrow> step\<^sup>*\<^sup>* s t \<Longrightarrow> inv t"
  by (rule inv_steps) (auto intro: inv_start)

end

end
