(* ===== verification/Go_Time.thy ===== *)
theory Go_Time
  imports Go_Prelude
begin

text \<open>
  Instants and durations of package \<^verbatim>\<open>time\<close>. A \<^verbatim>\<open>time.Time\<close> is the number of nanoseconds since the
  zero \<^verbatim>\<open>Time\<close> (1 January of year 1, UTC), so \<^verbatim>\<open>IsZero\<close> is the test for \<open>0\<close>; every clock reading of
  the source is an argument of the definition that reads the clock. A \<^verbatim>\<open>time.Duration\<close> is an
  \<^verbatim>\<open>int64\<close> count of nanoseconds, kept as an integer with the saturation of \<^verbatim>\<open>Time.Sub\<close> and the
  wrap-around of the unary minus written out. The two layouts the source prints, \<^verbatim>\<open>time.RFC3339\<close> and
  \<^verbatim>\<open>time.RFC3339Nano\<close>, are defined for instants in UTC.
\<close>

type_synonym time = int
type_synonym duration = int

section \<open>Arithmetic\<close>

definition nsec :: duration where "nsec = 1"
definition microsecond :: duration where "microsecond = 1000"
definition millisecond :: duration where "millisecond = 1000000"
definition second :: duration where "second = 1000000000"
definition minute :: duration where "minute = 60 * second"
definition hour :: duration where "hour = 60 * minute"

definition valid_duration :: "duration \<Rightarrow> bool" where
  "valid_duration d = (int64_min \<le> d \<and> d \<le> int64_max)"

text \<open>\<^verbatim>\<open>-d\<close> on \<^verbatim>\<open>int64\<close>, \<^verbatim>\<open>t.Sub(u)\<close> (saturating) and \<^verbatim>\<open>t.Add(d)\<close>.\<close>

definition dur_neg :: "duration \<Rightarrow> duration" where
  "dur_neg d = (if d = int64_min then int64_min else - d)"

definition time_sub :: "time \<Rightarrow> time \<Rightarrow> duration" where
  "time_sub t u = max int64_min (min int64_max (t - u))"

definition time_add :: "time \<Rightarrow> duration \<Rightarrow> time" where
  "time_add t d = t + d"

definition zero_time :: time where "zero_time = 0"

text \<open>\<^verbatim>\<open>time.Unix(0, ns)\<close>: the Unix epoch is 62135596800 seconds after the zero \<^verbatim>\<open>Time\<close>.\<close>

definition time_unix0 :: "int \<Rightarrow> time" where
  "time_unix0 ns = 62135596800 * second + ns"

text \<open>Go's integer division truncates towards zero.\<close>

definition trunc_div :: "int \<Rightarrow> int \<Rightarrow> int" where
  "trunc_div a b = (if a < 0 then - ((- a) div b) else a div b)"

lemmas duration_units = second_def minute_def hour_def millisecond_def microsecond_def nsec_def

section \<open>Calendar\<close>

definition is_leap :: "int \<Rightarrow> bool" where
  "is_leap y = (y mod 4 = 0 \<and> (y mod 100 \<noteq> 0 \<or> y mod 400 = 0))"

text \<open>The year and the zero-based day of that year, of a count of days since 1 January of year 1.\<close>

definition year_yday :: "int \<Rightarrow> int \<times> int" where
  "year_yday d =
     (let n400 = d div 146097; d400 = d mod 146097;
          n100 = min 3 (d400 div 36524); d100 = d400 - n100 * 36524;
          n4 = d100 div 1461; d4 = d100 mod 1461;
          n1 = min 3 (d4 div 365); yd = d4 - n1 * 365
      in (400 * n400 + 100 * n100 + 4 * n4 + n1 + 1, yd))"

definition month_lengths :: "int \<Rightarrow> int list" where
  "month_lengths y = [31, if is_leap y then 29 else 28, 31, 30, 31, 30, 31, 31, 30, 31, 30, 31]"

fun month_day :: "int \<Rightarrow> int list \<Rightarrow> int \<Rightarrow> int \<times> int" where
  "month_day m [] yd = (m, yd + 1)"
| "month_day m (l # ls) yd = (if yd < l then (m, yd + 1) else month_day (m + 1) ls (yd - l))"

definition pad :: "nat \<Rightarrow> int \<Rightarrow> string" where
  "pad w i = (if i < 0 then CHR ''-'' # pad0 w (- i) else pad0 w i)"

definition date_str :: "int \<Rightarrow> string" where
  "date_str d =
     (case year_yday d of (y, yd) \<Rightarrow> case month_day 1 (month_lengths y) yd of (m, day) \<Rightarrow>
        pad 4 y @ ''-'' @ pad 2 m @ ''-'' @ pad 2 day)"

definition clock_str :: "int \<Rightarrow> string" where
  "clock_str s = pad 2 (s div 3600) @ '':'' @ pad 2 (s div 60 mod 60) @ '':'' @ pad 2 (s mod 60)"

text \<open>The date and the time of day, in seconds since the zero \<^verbatim>\<open>Time\<close>.\<close>

definition stamp_str :: "int \<Rightarrow> string" where
  "stamp_str s = date_str (s div 86400) @ ''T'' @ clock_str (s mod 86400)"

definition strip_zeros :: "string \<Rightarrow> string" where
  "strip_zeros s = TrimRight s (CHR ''0'')"

definition frac_str :: "nat \<Rightarrow> int \<Rightarrow> string" where
  "frac_str w n = (let f = strip_zeros (pad w n) in if f = [] then [] else CHR ''.'' # f)"

definition format_RFC3339 :: "time \<Rightarrow> string" where
  "format_RFC3339 t = stamp_str (t div second) @ ''Z''"

definition format_RFC3339Nano :: "time \<Rightarrow> string" where
  "format_RFC3339Nano t = stamp_str (t div second) @ frac_str 9 (t mod second) @ ''Z''"

text \<open>The instants whose year has at most four digits, in seconds since the zero \<^verbatim>\<open>Time\<close>.\<close>

definition year_9999_end :: int where "year_9999_end = 3652059 * 86400"

text \<open>\<^verbatim>\<open>Duration.String\<close>: a unit per magnitude, the fraction without trailing zeros.\<close>

definition duration_string :: "duration \<Rightarrow> string" where
  "duration_string d =
     (let u = \<bar>d\<bar>; sign = (if d < 0 then ''-'' else [])
      in if u = 0 then ''0s''
         else if u < microsecond then sign @ fmt_int u @ ''ns''
         else if u < millisecond then
           sign @ fmt_int (u div microsecond) @ frac_str 3 (u mod microsecond) @ [CHR 0xC2, CHR 0xB5, CHR ''s'']
         else if u < second then
           sign @ fmt_int (u div millisecond) @ frac_str 6 (u mod millisecond) @ ''ms''
         else
           sign @ (if hour \<le> u then fmt_int (u div hour) @ ''h'' else [])
                @ (if minute \<le> u then fmt_int (u div minute mod 60) @ ''m'' else [])
                @ fmt_int (u div second mod 60) @ frac_str 9 (u mod second) @ ''s'')"

section \<open>Facts on durations\<close>

lemma time_sub_bounds: "valid_duration (time_sub t u)"
  by (auto simp: valid_duration_def time_sub_def int64_min_def int64_max_def)

lemma time_sub_exact: "valid_duration (t - u) \<Longrightarrow> time_sub t u = t - u"
  by (simp add: valid_duration_def time_sub_def)

text \<open>Saturation changes no comparison with a duration strictly inside the range.\<close>

lemma time_sub_less:
  "valid_duration d \<Longrightarrow> int64_min < d \<Longrightarrow> time_sub t u < d \<longleftrightarrow> t - u < d"
  by (auto simp: valid_duration_def time_sub_def min_def max_def)

lemma time_sub_greater:
  "valid_duration d \<Longrightarrow> d < int64_max \<Longrightarrow> d < time_sub t u \<longleftrightarrow> d < t - u"
  by (auto simp: valid_duration_def time_sub_def min_def max_def)

lemma dur_neg_eq: "int64_min < d \<Longrightarrow> dur_neg d = - d"
  by (simp add: dur_neg_def)

lemma time_add_dur_neg: "int64_min < d \<Longrightarrow> time_add t (dur_neg d) = t - d"
  by (simp add: time_add_def dur_neg_eq)

section \<open>Order of the printed instants\<close>

text \<open>
  Zero-padded fields compare as numbers, so the printed date and time of day compare as the instants
  do, to the second. Below the second they do not: \<^verbatim>\<open>RFC3339Nano\<close> drops trailing zeros of the
  fraction.
\<close>

lemma less_append_same_length:
  fixes xs ys :: "'a::linorder list"
  assumes "length xs = length ys" and "xs < ys"
  shows "xs @ a < ys @ b"
  using assms by (induction xs ys rule: list_induct2) auto

lemma lex_append:
  fixes xs ys :: "'a::linorder list"
  assumes "length xs = length ys" and "xs < ys \<or> xs = ys \<and> a < b"
  shows "xs @ a < ys @ b"
  using assms less_append_same_length by auto

lemma dec_value_Cons: "dec_value (c # s) = digit_val c * 10 ^ length s + dec_value s"
proof (induction s rule: rev_induct)
  case Nil
  show ?case by (simp add: dec_value_def)
next
  case (snoc x xs)
  have "dec_value (c # xs @ [x]) = 10 * dec_value (c # xs) + digit_val x"
    using dec_value_snoc [of "c # xs" x] by simp
  with snoc show ?case by (simp add: dec_value_snoc algebra_simps)
qed

lemma dec_value_Nil [simp]: "dec_value [] = 0"
  by (simp add: dec_value_def)

lemma digit_val_range: "is_digit c \<Longrightarrow> 0 \<le> digit_val c \<and> digit_val c \<le> 9"
  by (auto simp: is_digit_def digit_val_def)

lemma digit_val_less: "is_digit c \<Longrightarrow> is_digit d \<Longrightarrow> digit_val c < digit_val d \<Longrightarrow> c < d"
  by (auto simp: is_digit_def digit_val_def less_char_def)

lemma digit_val_inject: "is_digit c \<Longrightarrow> is_digit d \<Longrightarrow> digit_val c = digit_val d \<Longrightarrow> c = d"
  by (auto simp: is_digit_def digit_val_def)

lemma dec_value_range: "list_all is_digit s \<Longrightarrow> 0 \<le> dec_value s \<and> dec_value s < 10 ^ length s"
proof (induction s)
  case Nil
  show ?case by simp
next
  case (Cons c s)
  then have "digit_val c * 10 ^ length s \<le> 9 * 10 ^ length s"
    using digit_val_range [of c] by (intro mult_right_mono) auto
  moreover have "0 \<le> digit_val c * 10 ^ length s"
    using Cons digit_val_range [of c] by (intro mult_nonneg_nonneg) auto
  moreover have "0 \<le> dec_value s" "dec_value s < 10 ^ length s" using Cons by simp_all
  ultimately have "0 \<le> digit_val c * 10 ^ length s + dec_value s"
    "digit_val c * 10 ^ length s + dec_value s < 10 * 10 ^ length s" by linarith+
  then show ?case by (simp add: dec_value_Cons)
qed

lemma digits_less:
  assumes "length xs = length ys" "list_all is_digit xs" "list_all is_digit ys"
    and "dec_value xs < dec_value ys"
  shows "xs < ys"
  using assms
proof (induction xs ys rule: list_induct2)
  case Nil
  then show ?case by simp
next
  case (Cons x xs y ys)
  have r: "0 \<le> dec_value xs" "dec_value ys < 10 ^ length xs"
    using dec_value_range [of xs] dec_value_range [of ys] Cons by auto
  have "\<not> digit_val y < digit_val x"
  proof
    assume "digit_val y < digit_val x"
    then have "(digit_val y + 1) * 10 ^ length xs \<le> digit_val x * 10 ^ length xs"
      by (intro mult_right_mono) auto
    with r Cons show False by (simp add: dec_value_Cons algebra_simps)
  qed
  then consider "digit_val x < digit_val y" | "digit_val x = digit_val y" by linarith
  then show ?case
  proof cases
    case 1
    then show ?thesis using Cons digit_val_less by auto
  next
    case 2
    then show ?thesis using Cons digit_val_inject by (auto simp: dec_value_Cons)
  qed
qed

lemma fmt_dec_length: "0 \<le> n \<Longrightarrow> n < 10 ^ Suc w \<Longrightarrow> length (fmt_dec n) \<le> Suc w"
proof (induction w arbitrary: n)
  case 0
  then show ?case by (simp add: fmt_dec.simps)
next
  case (Suc w)
  show ?case
  proof (cases "n < 10")
    case True
    then show ?thesis by (simp add: fmt_dec.simps)
  next
    case False
    moreover have "n div 10 < 10 ^ Suc w" using Suc.prems by auto
    ultimately show ?thesis using Suc.IH [of "n div 10"] by (simp add: fmt_dec.simps [of n])
  qed
qed

lemma pad0_facts:
  assumes "0 \<le> n" and "n < 10 ^ w" and "0 < w"
  shows "length (pad0 w n) = w" and "list_all is_digit (pad0 w n)" and "dec_value (pad0 w n) = n"
proof -
  have len: "length (fmt_dec n) \<le> w"
    using fmt_dec_length [of n "w - 1"] assms by (cases w) auto
  then show "length (pad0 w n) = w" by (simp add: pad0_def)
  have d0: "is_digit (CHR ''0'')" "digit_val (CHR ''0'') = 0"
    by (simp_all add: is_digit_def digit_val_def)
  show "list_all is_digit (pad0 w n)"
    using fmt_dec_digits [OF assms(1)] d0 by (auto simp: pad0_def list_all_iff)
  have "dec_value (replicate k (CHR ''0'') @ s) = dec_value s" for k s
    by (induction k) (auto simp: dec_value_Cons d0)
  then show "dec_value (pad0 w n) = n"
    using dec_value_fmt_dec [OF assms(1)] by (simp add: pad0_def)
qed

lemma pad_length: "0 \<le> n \<Longrightarrow> n < 10 ^ w \<Longrightarrow> 0 < w \<Longrightarrow> length (pad w n) = w"
  by (simp add: pad_def pad0_facts)

lemma pad_less: "0 \<le> m \<Longrightarrow> m < n \<Longrightarrow> n < 10 ^ w \<Longrightarrow> 0 < w \<Longrightarrow> pad w m < pad w n"
  using pad0_facts [of m w] pad0_facts [of n w] by (auto simp: pad_def intro!: digits_less)

text \<open>Three zero-padded fields with a separator compare as the triple of numbers does.\<close>

lemma padded_fields_less:
  assumes "0 \<le> a" "a' < 10 ^ w" "0 < w" "0 \<le> b" "b < 10 ^ 2" "0 \<le> b'" "b' < 10 ^ 2" "0 \<le> c" "c' < 10 ^ 2"
    and lex: "a < a' \<or> a = a' \<and> (b < b' \<or> b = b' \<and> c < c')"
  shows "pad w a @ sep @ pad 2 b @ sep @ pad 2 c < pad w a' @ sep @ pad 2 b' @ sep @ pad 2 c'"
  using lex
proof (elim disjE conjE)
  assume "a < a'"
  then show ?thesis using assms by (intro lex_append) (simp_all add: pad_length pad_less)
next
  assume "a = a'" "b < b'"
  then have "pad 2 b @ sep @ pad 2 c < pad 2 b' @ sep @ pad 2 c'"
    using assms by (intro lex_append) (simp_all add: pad_length pad_less)
  with \<open>a = a'\<close> show ?thesis by simp
next
  assume "a = a'" "b = b'" "c < c'"
  then show ?thesis using assms by (simp add: pad_less)
qed

lemma div_mod_lex:
  fixes x y a :: int
  assumes "x < y" "0 < a"
  shows "x div a < y div a \<or> x div a = y div a \<and> x mod a < y mod a"
proof -
  have "x div a \<le> y div a" using assms by (simp add: zdiv_mono1)
  moreover have "x mod a < y mod a" if "x div a = y div a"
    using that assms(1) by (metis add_less_cancel_left mult_div_mod_eq)
  ultimately show ?thesis by linarith
qed

text \<open>The nested periods of the calendar: each quotient is bounded, so the year is a positional number.\<close>

lemma year_yday_parts:
  obtains n400 n100 n4 n1 yd where
    "year_yday d = (400 * n400 + 100 * n100 + 4 * n4 + n1 + 1, yd)"
    "n400 = d div 146097" "0 \<le> n100" "n100 \<le> 3" "0 \<le> n4" "n4 \<le> 24" "0 \<le> n1" "n1 \<le> 3"
    "0 \<le> yd" "yd \<le> 365"
    "d mod 146097 = 36524 * n100 + 1461 * n4 + 365 * n1 + yd"
    "36524 * n100 + 1461 * n4 + 365 * n1 + yd < 146097"
    "n100 < 3 \<longrightarrow> 1461 * n4 + 365 * n1 + yd < 36524" "n1 < 3 \<longrightarrow> yd < 365"
proof -
  define d400 n100 where "d400 = d mod 146097" and "n100 = min 3 (d400 div 36524)"
  define d100 n4 where "d100 = d400 - n100 * 36524" and "n4 = d100 div 1461"
  define d4 n1 where "d4 = d100 mod 1461" and "n1 = min 3 (d4 div 365)"
  define yd where "yd = d4 - n1 * 365"
  have b400: "0 \<le> d400" "d400 < 146097" by (simp_all add: d400_def)
  have b100: "0 \<le> n100" "n100 \<le> 3" "0 \<le> d100" "d100 \<le> 36524" "n100 < 3 \<longrightarrow> d100 < 36524"
    using b400 by (auto simp: n100_def d100_def min_def)
  have b4: "0 \<le> n4" "n4 \<le> 24" "0 \<le> d4" "d4 < 1461" "d100 = 1461 * n4 + d4"
    using b100 by (auto simp: n4_def d4_def)
  have b1: "0 \<le> n1" "n1 \<le> 3" "0 \<le> yd" "yd \<le> 365" "n1 < 3 \<longrightarrow> yd < 365"
    using b4 by (auto simp: n1_def yd_def min_def)
  have "year_yday d = (400 * (d div 146097) + 100 * n100 + 4 * n4 + n1 + 1, yd)"
    by (simp only: year_yday_def Let_def d400_def n100_def d100_def n4_def d4_def n1_def yd_def)
  then show thesis
  proof (rule that [OF _ refl])
    show "d mod 146097 = 36524 * n100 + 1461 * n4 + 365 * n1 + yd"
      using b4 by (simp add: d400_def [symmetric] yd_def d100_def algebra_simps)
    show "36524 * n100 + 1461 * n4 + 365 * n1 + yd < 146097"
      using b4 b400 by (simp add: yd_def d100_def)
    show "n100 < 3 \<longrightarrow> 1461 * n4 + 365 * n1 + yd < 36524"
      using b4 b100 by (simp add: yd_def)
  qed (use b100 b4 b1 in auto)
qed

lemma year_yday_mono:
  assumes "d < e" and "year_yday d = (y, yd)" and "year_yday e = (z, zd)"
  shows "y < z \<or> y = z \<and> yd < zd"
proof -
  obtain a b c f g where D: "year_yday d = (400 * a + 100 * b + 4 * c + f + 1, g)"
    "a = d div 146097" "0 \<le> b" "b \<le> 3" "0 \<le> c" "c \<le> 24" "0 \<le> f" "f \<le> 3" "0 \<le> g" "g \<le> 365"
    "d mod 146097 = 36524 * b + 1461 * c + 365 * f + g"
    "36524 * b + 1461 * c + 365 * f + g < 146097"
    "b < 3 \<longrightarrow> 1461 * c + 365 * f + g < 36524" "f < 3 \<longrightarrow> g < 365"
    by (rule year_yday_parts [of d]) blast
  obtain a' b' c' f' g' where E: "year_yday e = (400 * a' + 100 * b' + 4 * c' + f' + 1, g')"
    "a' = e div 146097" "0 \<le> b'" "b' \<le> 3" "0 \<le> c'" "c' \<le> 24" "0 \<le> f'" "f' \<le> 3" "0 \<le> g'" "g' \<le> 365"
    "e mod 146097 = 36524 * b' + 1461 * c' + 365 * f' + g'"
    "36524 * b' + 1461 * c' + 365 * f' + g' < 146097"
    "b' < 3 \<longrightarrow> 1461 * c' + 365 * f' + g' < 36524" "f' < 3 \<longrightarrow> g' < 365"
    by (rule year_yday_parts [of e]) blast
  have lex: "a < a' \<or> a = a' \<and> 36524 * b + 1461 * c + 365 * f + g < 36524 * b' + 1461 * c' + 365 * f' + g'"
    using div_mod_lex [OF assms(1), of 146097] D(2,11) E(2,11) by auto
  have b: "b \<le> b'" if "a = a'"
  proof (rule ccontr)
    assume "\<not> b \<le> b'"
    then have "b' + 1 \<le> b" "1461 * c' + 365 * f' + g' < 36524" using D(4) E(13) by linarith+
    with lex that D(3-9) show False by linarith
  qed
  have c: "c \<le> c'" if "a = a'" "b = b'"
  proof (rule ccontr)
    assume "\<not> c \<le> c'"
    then have "c' + 1 \<le> c" by simp
    moreover have "365 * f' + g' \<le> 1460" using E(8,10,14) by linarith
    ultimately show False using lex that D(7,9) by linarith
  qed
  have f: "f \<le> f'" if "a = a'" "b = b'" "c = c'"
  proof (rule ccontr)
    assume "\<not> f \<le> f'"
    then have "f' + 1 \<le> f" "g' < 365" using D(8) E(14) by linarith+
    with lex that D(9) show False by linarith
  qed
  consider "a < a'" | "a = a'" "b < b'" | "a = a'" "b = b'" "c < c'"
    | "a = a'" "b = b'" "c = c'" "f < f'" | "a = a'" "b = b'" "c = c'" "f = f'" "g < g'"
    using lex b c f unfolding le_less by auto
  then show ?thesis using D(1,3-8) E(1,3-8) assms(2,3) by cases auto
qed


lemma month_day_mono:
  assumes "yd < zd" and "month_day m ls yd = (a, b)" and "month_day m ls zd = (c, e)"
  shows "a < c \<or> a = c \<and> b < e"
proof -
  have ge: "month_day m ls x = (p, q) \<Longrightarrow> m \<le> p" for m ls x p q
    by (induction m ls x rule: month_day.induct) (auto split: if_splits)
  from assms show ?thesis
  proof (induction m ls yd arbitrary: zd rule: month_day.induct)
    case (1 m yd)
    then show ?case by auto
  next
    case (2 m l ls yd)
    consider "yd < l" "zd < l" | "yd < l" "\<not> zd < l" | "\<not> yd < l" "\<not> zd < l"
      using "2.prems"(1) by linarith
    then show ?case
    proof cases
      case 2
      then show ?thesis using "2.prems" ge [of "m + 1" ls "zd - l"] by auto
    next
      case 3
      then show ?thesis using "2.prems" "2.IH" [of "zd - l"] by auto
    qed (use "2.prems" in auto)
  qed
qed

lemma month_day_bounds:
  assumes "month_day m ls yd = (a, b)" and "0 \<le> yd"
    and "\<forall>l \<in> set ls. l \<le> 31" and "yd < sum_list ls + 31"
  shows "m \<le> a \<and> a \<le> m + int (length ls) \<and> 1 \<le> b \<and> b \<le> 31"
  using assms
  by (induction m ls yd rule: month_day.induct) (auto split: if_splits)

lemma date_parts:
  assumes "0 \<le> d" and "d < 3652059"
  obtains y m day where "date_str d = pad 4 y @ ''-'' @ pad 2 m @ ''-'' @ pad 2 day"
    "fst (year_yday d) = y" "month_day 1 (month_lengths y) (snd (year_yday d)) = (m, day)"
    "0 \<le> y" "y < 10 ^ 4" "0 \<le> m" "m < 10 ^ 2" "0 \<le> day" "day < 10 ^ 2"
proof -
  obtain y yd where y: "year_yday d = (y, yd)" by (cases "year_yday d")
  obtain m day where m: "month_day 1 (month_lengths y) yd = (m, day)"
    by (cases "month_day 1 (month_lengths y) yd")
  obtain n400 n100 n4 n1 g where q: "year_yday d = (400 * n400 + 100 * n100 + 4 * n4 + n1 + 1, g)"
    and p0: "n400 = d div 146097" "0 \<le> n100" "n100 \<le> 3" "0 \<le> n4" "n4 \<le> 24" "0 \<le> n1" "n1 \<le> 3"
    "0 \<le> g" "g \<le> 365" "d mod 146097 = 36524 * n100 + 1461 * n4 + 365 * n1 + g"
    by (rule year_yday_parts [of d]) blast
  have g: "g = yd" and yy: "y = 400 * n400 + 100 * n100 + 4 * n4 + n1 + 1" using y q by simp_all
  note p = yy p0 [unfolded g]
  have n400: "0 \<le> n400" "n400 \<le> 24" using assms p(2) by auto
  have last: "n400 = 24 \<Longrightarrow> 36524 * n100 + 1461 * n4 + 365 * n1 + yd < 145731"
    using assms p(2,11) by (simp add: minus_mult_div_eq_mod [symmetric])
  have "y < 10 ^ 4"
  proof (cases "n400 = 24")
    case True
    have "\<not> (n100 = 3 \<and> n4 = 24 \<and> n1 = 3)" using last [OF True] p(9) by auto
    then have "100 * n100 + 4 * n4 + n1 < 399" using p(3-8) by linarith
    with True show ?thesis using p(1) by simp
  next
    case False
    then show ?thesis using n400 p by simp
  qed
  moreover have "1 \<le> m \<and> m \<le> 13 \<and> 1 \<le> day \<and> day \<le> 31"
    using month_day_bounds [OF m] p(9,10) by (auto simp: month_lengths_def)
  ultimately show thesis
    using that [of y m day] y m n400 p by (auto simp: date_str_def)
qed


lemma date_str_length: "0 \<le> d \<Longrightarrow> d < 3652059 \<Longrightarrow> length (date_str d) = 10"
  by (erule (1) date_parts) (simp add: pad_length)

lemma date_str_less:
  assumes "0 \<le> d" and "d < e" and "e < 3652059"
  shows "date_str d < date_str e"
proof -
  obtain y m day where D: "date_str d = pad 4 y @ ''-'' @ pad 2 m @ ''-'' @ pad 2 day"
    "fst (year_yday d) = y" "month_day 1 (month_lengths y) (snd (year_yday d)) = (m, day)"
    and Db: "0 \<le> y" "y < 10 ^ 4" "0 \<le> m" "m < 10 ^ 2" "0 \<le> day" "day < 10 ^ 2"
    by (rule date_parts [of d]) (use assms in auto)
  obtain z n day' where E: "date_str e = pad 4 z @ ''-'' @ pad 2 n @ ''-'' @ pad 2 day'"
    "fst (year_yday e) = z" "month_day 1 (month_lengths z) (snd (year_yday e)) = (n, day')"
    and Eb: "0 \<le> z" "z < 10 ^ 4" "0 \<le> n" "n < 10 ^ 2" "0 \<le> day'" "day' < 10 ^ 2"
    by (rule date_parts [of e]) (use assms in auto)
  have "y < z \<or> y = z \<and> snd (year_yday d) < snd (year_yday e)"
    using year_yday_mono [OF assms(2), of y _ z] D(2) E(2) by (cases "year_yday d"; cases "year_yday e") auto
  then have "y < z \<or> y = z \<and> (m < n \<or> m = n \<and> day < day')"
    using month_day_mono D(3) E(3) by blast
  then show ?thesis
    unfolding D(1) E(1) using Db Eb by (intro padded_fields_less) auto
qed

lemma clock_str_facts:
  assumes "0 \<le> s" and "s < 86400"
  shows "length (clock_str s) = 8" and "s < t \<Longrightarrow> t < 86400 \<Longrightarrow> clock_str s < clock_str t"
proof -
  have b: "0 \<le> x div 3600 \<and> x div 3600 < 100 \<and> 0 \<le> x div 60 mod 60 \<and> x div 60 mod 60 < 100 \<and>
      0 \<le> x mod 60 \<and> x mod 60 < 100" if "0 \<le> x" "x < 86400" for x :: int
    using that pos_mod_bound [of 60 x] pos_mod_bound [of 60 "x div 60"] by auto
  show "length (clock_str s) = 8"
    using b [OF assms] by (simp add: clock_str_def pad_length)
  assume st: "s < t" "t < 86400"
  have bs: "0 \<le> s div 3600 \<and> s div 3600 < 100 \<and> 0 \<le> s div 60 mod 60 \<and> s div 60 mod 60 < 100 \<and>
      0 \<le> s mod 60 \<and> s mod 60 < 100" using b assms by blast
  have bt: "0 \<le> t div 3600 \<and> t div 3600 < 100 \<and> 0 \<le> t div 60 mod 60 \<and> t div 60 mod 60 < 100 \<and>
      0 \<le> t mod 60 \<and> t mod 60 < 100" using b assms st by auto
  have hh: "x div 3600 = x div 60 div 60" for x :: int by (simp add: zdiv_zmult2_eq)
  have "s div 60 < t div 60 \<or> s div 60 = t div 60 \<and> s mod 60 < t mod 60"
    by (rule div_mod_lex) (use st in auto)
  moreover have "s div 60 div 60 < t div 60 div 60 \<or>
      s div 60 div 60 = t div 60 div 60 \<and> s div 60 mod 60 < t div 60 mod 60" if "s div 60 < t div 60"
    by (rule div_mod_lex) (use that in auto)
  ultimately have "s div 3600 < t div 3600 \<or> s div 3600 = t div 3600 \<and>
      (s div 60 mod 60 < t div 60 mod 60 \<or> s div 60 mod 60 = t div 60 mod 60 \<and> s mod 60 < t mod 60)"
    unfolding hh by presburger
  then show "clock_str s < clock_str t"
    unfolding clock_str_def using bs bt by (intro padded_fields_less) auto
qed

lemma stamp_str_less:
  assumes "0 \<le> s" and "s < t" and "t < year_9999_end"
  shows "stamp_str s @ x < stamp_str t @ y"
proof -
  have day: "0 \<le> x div 86400 \<and> x div 86400 < 3652059" if "0 \<le> x" "x < year_9999_end" for x
    using that unfolding year_9999_end_def by linarith
  have ds: "0 \<le> s div 86400" "s div 86400 < 3652059" and dt: "0 \<le> t div 86400" "t div 86400 < 3652059"
    using day assms by auto
  have cs: "0 \<le> s mod 86400" "s mod 86400 < 86400" and ct: "0 \<le> t mod 86400" "t mod 86400 < 86400"
    by auto
  have len: "length (date_str (s div 86400)) = length (date_str (t div 86400))"
    using ds dt by (simp add: date_str_length)
  have "s div 86400 < t div 86400 \<or> s div 86400 = t div 86400 \<and> s mod 86400 < t mod 86400"
    by (rule div_mod_lex) (use assms in auto)
  then show ?thesis
  proof
    assume "s div 86400 < t div 86400"
    then show ?thesis using ds dt len by (simp add: stamp_str_def lex_append date_str_less)
  next
    assume "s div 86400 = t div 86400 \<and> s mod 86400 < t mod 86400"
    then show ?thesis using cs ct
      by (simp add: stamp_str_def clock_str_facts less_append_same_length)
  qed
qed

lemma format_RFC3339Nano_less:
  assumes "0 \<le> t" and "t div second < u div second" and "u div second < year_9999_end"
  shows "format_RFC3339Nano t @ x < format_RFC3339Nano u @ y"
  unfolding format_RFC3339Nano_def append_assoc
  by (rule stamp_str_less) (use assms in \<open>auto simp: second_def\<close>)

text \<open>A printed instant of a four-digit year begins with a digit.\<close>

lemma pad_digits: "0 \<le> n \<Longrightarrow> n < 10 ^ w \<Longrightarrow> 0 < w \<Longrightarrow> list_all is_digit (pad w n)"
  by (simp add: pad_def pad0_facts)

lemma format_RFC3339Nano_hd:
  assumes "0 \<le> t" and "t div second < year_9999_end"
  obtains d rest where "format_RFC3339Nano t = d # rest" and "is_digit d"
proof -
  have "0 \<le> t div second div 86400" "t div second div 86400 < 3652059"
    using assms by (auto simp: year_9999_end_def second_def)
  then obtain y z where D: "date_str (t div second div 86400) = pad 4 y @ z" "0 \<le> y" "y < 10 ^ 4"
    by (rule date_parts) auto
  moreover obtain d ds where "pad 4 y = d # ds" "is_digit d"
    using pad_digits [of y 4] pad_length [of y 4] D by (cases "pad 4 y") auto
  ultimately show thesis using that by (simp add: format_RFC3339Nano_def stamp_str_def)
qed

text \<open>The fraction is left out of a whole second and present otherwise.\<close>

lemma dec_value_zeros: "\<forall>c \<in> set s. c = CHR ''0'' \<Longrightarrow> dec_value s = 0"
  by (induction s) (auto simp: dec_value_Cons digit_val_def)

lemma strip_zeros_Nil: "strip_zeros s = [] \<longleftrightarrow> (\<forall>c \<in> set s. c = CHR ''0'')"
  by (auto simp: strip_zeros_def TrimRight_def)

lemma frac_str_0: "frac_str 9 0 = []"
  by (simp add: frac_str_def pad_def pad0_def fmt_dec.simps [of 0] digit_char_def strip_zeros_Nil char_of_eq_iff)

lemma frac_str_pos:
  assumes "0 < n" and "n < 10 ^ 9"
  shows "\<exists>s. frac_str 9 n = CHR ''.'' # s"
proof -
  have "dec_value (pad 9 n) = n" using pad0_facts(3) [of n 9] assms by (simp add: pad_def)
  then have "strip_zeros (pad 9 n) \<noteq> []" using dec_value_zeros [of "pad 9 n"] assms strip_zeros_Nil by auto
  then show ?thesis by (simp add: frac_str_def Let_def)
qed

lemma format_RFC3339Nano_whole_second:
  assumes "0 < f" and "f < second"
  shows "format_RFC3339Nano (s * second + f) @ x < format_RFC3339Nano (s * second) @ y"
proof -
  obtain g where g: "frac_str 9 f = CHR ''.'' # g" using frac_str_pos [of f] assms by (auto simp: second_def)
  have "(s * second + f) div second = s" "(s * second + f) mod second = f"
    using assms by (simp_all add: second_def)
  then show ?thesis
    by (simp add: format_RFC3339Nano_def g frac_str_0 second_def less_char_def)
qed

text \<open>The only letter \<^verbatim>\<open>Z\<close> of a printed instant is its last character, so what follows an instant can be told from it.\<close>

lemma pad_no_Z: "CHR ''Z'' \<notin> set (pad w i)"
proof -
  have "CHR ''Z'' \<notin> set (fmt_dec n)" if "0 \<le> n" for n
    using fmt_dec_digits [OF that] by (auto simp: list_all_iff is_digit_def)
  then show ?thesis by (auto simp: pad_def pad0_def)
qed

lemma stamp_frac_no_Z: "CHR ''Z'' \<notin> set (stamp_str s @ frac_str w n)"
  using pad_no_Z
  by (auto simp: stamp_str_def date_str_def clock_str_def frac_str_def strip_zeros_def TrimRight_def Let_def
      dest!: set_dropWhileD split: prod.splits)

lemma split_first:
  "c \<notin> set xs \<Longrightarrow> c \<notin> set xs' \<Longrightarrow> xs @ c # ys = xs' @ c # ys' \<Longrightarrow> xs = xs' \<and> ys = ys'"
  by (induction xs arbitrary: xs') (auto simp: Cons_eq_append_conv append_eq_Cons_conv)

lemma format_RFC3339Nano_inject:
  assumes "format_RFC3339Nano t @ r = format_RFC3339Nano t' @ r'"
  shows "format_RFC3339Nano t = format_RFC3339Nano t'" and "r = r'"
proof -
  let ?p = "\<lambda>t. stamp_str (t div second) @ frac_str 9 (t mod second)"
  have "?p t @ CHR ''Z'' # r = ?p t' @ CHR ''Z'' # r'" using assms by (simp add: format_RFC3339Nano_def)
  from split_first [OF stamp_frac_no_Z stamp_frac_no_Z this]
  show "format_RFC3339Nano t = format_RFC3339Nano t'" "r = r'" by (simp_all add: format_RFC3339Nano_def)
qed

end
