(* ===== verification/Go_Json.thy ===== *)
theory Go_Json
  imports Go_Time
begin

text \<open>
  JSON documents as package \<^verbatim>\<open>encoding/json\<close> reads and writes them. A document is a tree; its text is
  not modelled. Numbers are integers: the only numbers the collector writes are the 32-bit protobuf
  fields of an event payload. A string that is the text of an instant is a leaf of its own, since
  \<^verbatim>\<open>Time.MarshalJSON\<close> and \<^verbatim>\<open>Time.UnmarshalJSON\<close> are inverse to each other on the instants of the four-digit
  years. The members of an object are kept in the order written, and a struct tag \<^verbatim>\<open>omitempty\<close> is the absence
  of the member.

  \<^verbatim>\<open>json.Marshal\<close> replaces every byte of a string that is no UTF-8 by U+FFFD (\<open>coerce_utf8\<close>). Strings that are
  UTF-8 are encoded and decoded as they are: what comes from protobuf messages and from YAML, which admit no
  other text, and hexadecimal digits. The node id of a token comes from the command line instead and may be any
  bytes; its encoder applies the replacement. The region names given on the command line are taken to be UTF-8.
\<close>

datatype json =
    JNull
  | JBool bool
  | JNum int
  | JStr string
  | JTime time
  | JArr "json list"
  | JObj "(string \<times> json) list"

text \<open>
  What becomes of a string when it is encoded and decoded again: a valid encoding of a rune is kept, any other
  byte becomes the encoding of U+FFFD.
\<close>

function coerce_utf8 :: "string \<Rightarrow> string" where
  "coerce_utf8 s =
     (if s = [] then []
      else case rune_at (map of_char s) of (r, w) \<Rightarrow>
        (if r = 0xFFFD \<and> w = 1 then [CHR 0xEF, CHR 0xBF, CHR 0xBD] else take w s) @ coerce_utf8 (drop (max 1 w) s))"
  by pat_completeness auto
termination
  by (relation "measure length") auto

declare coerce_utf8.simps [simp del]

text \<open>The instants \<^verbatim>\<open>Time.MarshalJSON\<close> accepts: year 0 has 366 days.\<close>

definition json_time_ok :: "time \<Rightarrow> bool" where
  "json_time_ok t = (- (366 * 86400 * second) \<le> t \<and> t < year_9999_end * second)"

text \<open>A slice: an element that cannot be encoded makes the whole document fail.\<close>

definition marshal_slice :: "('a \<Rightarrow> json option) \<Rightarrow> 'a list \<Rightarrow> json option" where
  "marshal_slice enc xs = map_option JArr (those (map enc xs))"

text \<open>
  Decoding the members of an object into a field. A member belongs to the field whose name it has when letter
  case is ignored (under the simple case folding of Unicode, where the Kelvin sign folds to \<^verbatim>\<open>k\<close> and the long s
  to \<^verbatim>\<open>s\<close>); of several the last one counts. A missing member leaves the zero value, \<^verbatim>\<open>null\<close> leaves a string and
  an instant as they are, and a wrong kind is an error.
\<close>

definition upper_byte :: "char \<Rightarrow> char" where
  "upper_byte c = (if 97 \<le> (of_char c :: nat) \<and> (of_char c :: nat) \<le> 122 then char_of ((of_char c :: nat) - 32) else c)"

fun fold_name :: "string \<Rightarrow> string" where
  "fold_name [] = []"
| "fold_name (c # s) =
     (if take 3 (c # s) = [CHR 0xE2, CHR 0x84, CHR 0xAA] then CHR ''K'' # fold_name (drop 2 s)
      else if take 2 (c # s) = [CHR 0xC5, CHR 0xBF] then CHR ''S'' # fold_name (drop 1 s)
      else upper_byte c # fold_name s)"

definition members_of :: "(string \<times> json) list \<Rightarrow> string \<Rightarrow> json list" where
  "members_of ms k = map snd (filter (\<lambda>(k', _). fold_name k' = fold_name k) ms)"

definition get_string :: "(string \<times> json) list \<Rightarrow> string \<Rightarrow> string option" where
  "get_string ms k =
     fold (\<lambda>v r. case (r, v) of
             (Some s, JNull) \<Rightarrow> Some s
           | (Some _, JStr s) \<Rightarrow> Some s
           | (Some _, JTime t) \<Rightarrow> Some (format_RFC3339Nano t)
           | _ \<Rightarrow> None) (members_of ms k) (Some [])"

definition get_time :: "(string \<times> json) list \<Rightarrow> string \<Rightarrow> time option" where
  "get_time ms k =
     fold (\<lambda>v r. case (r, v) of
             (Some t, JNull) \<Rightarrow> Some t
           | (Some _, JTime t) \<Rightarrow> Some t
           | _ \<Rightarrow> None) (members_of ms k) (Some zero_time)"

text \<open>A \<^verbatim>\<open>*time.Time\<close> field: \<^verbatim>\<open>null\<close> is the nil pointer.\<close>

definition get_time_ptr :: "(string \<times> json) list \<Rightarrow> string \<Rightarrow> time option option" where
  "get_time_ptr ms k =
     fold (\<lambda>v r. case (r, v) of
             (Some _, JNull) \<Rightarrow> Some None
           | (Some _, JTime t) \<Rightarrow> Some (Some t)
           | _ \<Rightarrow> None) (members_of ms k) (Some None)"

text \<open>A \<^verbatim>\<open>json.RawMessage\<close> field keeps the document; the nil message is written as \<^verbatim>\<open>null\<close>.\<close>

definition get_raw :: "(string \<times> json) list \<Rightarrow> string \<Rightarrow> json" where
  "get_raw ms k = fold (\<lambda>v _. v) (members_of ms k) JNull"

text \<open>
  Members of the protobuf structs, whose tags are \<^verbatim>\<open>json:"name,omitempty"\<close>: the zero number and the
  empty string are left out.
\<close>

definition omit_num :: "string \<Rightarrow> int \<Rightarrow> (string \<times> json) list" where
  "omit_num k n = (if n = 0 then [] else [(k, JNum n)])"

definition omit_str :: "string \<Rightarrow> string \<Rightarrow> (string \<times> json) list" where
  "omit_str k s = (if s = [] then [] else [(k, JStr s)])"

text \<open>
  \<^verbatim>\<open>fmt.Sprintf("%v", v)\<close> of a decoded value: \<^verbatim>\<open>nil\<close>, a boolean, a number, a string, a slice in
  brackets, a map with its keys sorted. An instant was decoded as the string it was written as.

  A number was decoded as a \<^verbatim>\<open>float64\<close>, and \<^verbatim>\<open>%v\<close> of a \<^verbatim>\<open>float64\<close> is \<^verbatim>\<open>%g\<close> with the shortest digits: an
  integer of at most six digits prints plainly, a longer one as a mantissa without trailing zeros and
  an exponent of at least two digits (\<^verbatim>\<open>1234567\<close> is \<^verbatim>\<open>1.234567e+06\<close>). The integers here are below
  \<open>2 ^ 53\<close>, where the shortest digits are the digits of the integer.
\<close>

definition fmt_exp :: "int \<Rightarrow> string" where
  "fmt_exp n =
     (let ds = fmt_dec n; rest = TrimRight (tl ds) (CHR ''0'')
      in [hd ds] @ (if rest = [] then [] else CHR ''.'' # rest) @ ''e+'' @ pad0 2 (int (length ds) - 1))"

definition fmt_g :: "int \<Rightarrow> string" where
  "fmt_g n = (if n < 0 then ''-'' else []) @ (if \<bar>n\<bar> < 10 ^ 6 then fmt_dec \<bar>n\<bar> else fmt_exp \<bar>n\<bar>)"

fun insort_pair :: "string \<times> string \<Rightarrow> (string \<times> string) list \<Rightarrow> (string \<times> string) list" where
  "insort_pair p [] = [p]"
| "insort_pair p (q # qs) = (if fst p \<le> fst q then p # q # qs else q # insort_pair p qs)"

fun sprintf_v :: "json \<Rightarrow> string" where
  "sprintf_v JNull = ''<nil>''"
| "sprintf_v (JBool b) = (if b then ''true'' else ''false'')"
| "sprintf_v (JNum n) = fmt_g n"
| "sprintf_v (JStr s) = s"
| "sprintf_v (JTime t) = format_RFC3339Nano t"
| "sprintf_v (JArr xs) = ''['' @ Join (map sprintf_v xs) '' '' @ '']''"
| "sprintf_v (JObj ms) =
     ''map['' @ Join (map (\<lambda>(k, s). k @ '':'' @ s)
       (foldr insort_pair (map (\<lambda>(k, v). (k, sprintf_v v)) ms) [])) '' '' @ '']''"

text \<open>
  The replacement of bytes that are no UTF-8 changes nothing the second time, keeps ASCII text, and neither
  makes a string empty nor an empty one other.
\<close>

lemma coerce_utf8_Nil [simp]: "coerce_utf8 [] = []"
  by (simp add: coerce_utf8.simps)

lemma coerce_utf8_bad:
  "s \<noteq> [] \<Longrightarrow> rune_at (map of_char s) = (0xFFFD, 1) \<Longrightarrow> coerce_utf8 s = [CHR 0xEF, CHR 0xBF, CHR 0xBD] @ coerce_utf8 (tl s)"
  by (subst coerce_utf8.simps) (simp add: drop_Suc)

lemma coerce_utf8_good:
  assumes "s \<noteq> []" and "rune_at (map of_char s) = (r, w)" and "\<not> (r = 0xFFFD \<and> w = 1)"
  shows "coerce_utf8 s = take w s @ coerce_utf8 (drop w s)" and "0 < w" and "w \<le> length s"
proof -
  show w: "0 < w" using assms(1,2) rune_at_width [of "of_char (hd s)" "map of_char (tl s)"] by (cases s) auto
  show "w \<le> length s" using rune_at_prefix(2) [OF assms(2) _ assms(3)] assms(1) by simp
  show "coerce_utf8 s = take w s @ coerce_utf8 (drop w s)"
    using assms w by (subst coerce_utf8.simps) (auto simp: max_def)
qed

lemma coerce_utf8_eq_Nil [simp]: "coerce_utf8 s = [] \<longleftrightarrow> s = []"
proof (cases "s = []")
  case False
  obtain r w where "rune_at (map of_char s) = (r, w)" by fastforce
  with False coerce_utf8_bad [of s] coerce_utf8_good [of s r w] show ?thesis
    by (cases "r = 0xFFFD \<and> w = 1") (auto simp del: One_nat_def)
qed simp

lemma coerce_utf8_Cons: "(of_char c :: nat) < 0x80 \<Longrightarrow> coerce_utf8 (c # s) = c # coerce_utf8 s"
  using coerce_utf8_good(1) [of "c # s" "of_char c" 1] by simp

lemma coerce_utf8_ascii: "\<forall>c \<in> set s. (of_char c :: nat) < 0x80 \<Longrightarrow> coerce_utf8 s = s"
  by (induction s) (simp_all add: coerce_utf8_Cons)

lemma coerce_utf8_idem [simp]: "coerce_utf8 (coerce_utf8 s) = coerce_utf8 s"
proof (induction s rule: coerce_utf8.induct)
  case (1 s)
  obtain r w where rw: "rune_at (map of_char s) = (r, w)" by fastforce
  consider "s = []" | "s \<noteq> []" "r = 0xFFFD \<and> w = 1" | "s \<noteq> []" "\<not> (r = 0xFFFD \<and> w = 1)" by blast
  then show ?case
  proof cases
    case 2
    let ?c = "[CHR 0xEF, CHR 0xBF, CHR 0xBD] @ coerce_utf8 (tl s)"
    have "coerce_utf8 ?c = take 3 ?c @ coerce_utf8 (drop 3 ?c)"
      by (rule coerce_utf8_good) (auto simp: rune_at.simps cont_byte_def)
    moreover have "coerce_utf8 (coerce_utf8 (tl s)) = coerce_utf8 (tl s)"
      using 1 [OF _ rw [symmetric]] 2 by (simp add: drop_Suc)
    ultimately show ?thesis using coerce_utf8_bad [of s] 2 rw by (simp add: numeral_3_eq_3)
  next
    case 3
    note g = coerce_utf8_good [OF 3(1) rw 3(2)]
    let ?c = "take w s @ coerce_utf8 (drop w s)"
    have "rune_at (map of_char ?c) = (r, w)"
      using rune_at_prefix(1) [OF rw _ 3(2)] 3(1) by (simp add: take_map)
    then have "coerce_utf8 ?c = take w ?c @ coerce_utf8 (drop w ?c)"
      using 3 g(2) by (intro coerce_utf8_good(1)) auto
    moreover have "coerce_utf8 (coerce_utf8 (drop w s)) = coerce_utf8 (drop w s)"
      using 1 [OF 3(1) rw [symmetric]] g(2) by (simp add: max_def split: if_splits)
    ultimately show ?thesis using g by simp
  qed simp
qed

text \<open>The names of the fields that are decoded, folded.\<close>

lemma fold_names:
  "fold_name ''event_id'' = ''EVENT_ID''"
  "fold_name ''node_id'' = ''NODE_ID''"
  "fold_name ''timestamp'' = ''TIMESTAMP''"
  "fold_name ''type'' = ''TYPE''"
  "fold_name ''payload'' = ''PAYLOAD''"
  "fold_name ''alert_id'' = ''ALERT_ID''"
  "fold_name ''rule_id'' = ''RULE_ID''"
  "fold_name ''message'' = ''MESSAGE''"
  "fold_name ''severity'' = ''SEVERITY''"
  "fold_name ''token_hash'' = ''TOKEN_HASH''"
  "fold_name ''issued_at'' = ''ISSUED_AT''"
  "fold_name ''revoked_at'' = ''REVOKED_AT''"
  "fold_name ''hostname'' = ''HOSTNAME''"
  "fold_name ''ip'' = ''IP''"
  "fold_name ''version'' = ''VERSION''"
  "fold_name ''region'' = ''REGION''"
  "fold_name ''registered'' = ''REGISTERED''"
  "fold_name ''last_seen'' = ''LAST_SEEN''"
  "fold_name ''status'' = ''STATUS''"
  by code_simp+

declare fold_name.simps [simp del]

lemmas decode_defs = get_string_def get_time_def get_time_ptr_def get_raw_def members_of_def fold_names

text \<open>A number of more than six digits does not print as its digits.\<close>

lemma fmt_g_small: "\<bar>n\<bar> < 10 ^ 6 \<Longrightarrow> fmt_g n = fmt_int n"
  by (simp add: fmt_g_def fmt_int_def)

lemma fmt_g_large: "10 ^ 6 \<le> n \<Longrightarrow> 0 \<le> m \<Longrightarrow> fmt_g n \<noteq> fmt_int m"
proof
  assume n: "10 ^ 6 \<le> n" "0 \<le> m" "fmt_g n = fmt_int m"
  have "CHR ''e'' \<in> set (fmt_g n)" using n(1) by (auto simp: fmt_g_def fmt_exp_def Let_def)
  then have "is_digit (CHR ''e'')" using n(2,3) fmt_dec_digits [of m] by (auto simp: fmt_int_def list_all_iff)
  then show False by (simp add: is_digit_def)
qed

end
