(* ===== verification/StoreTypes.thy ===== *)
theory StoreTypes
  imports Go_Json
begin

text \<open>
  The records package \<^verbatim>\<open>internal/store\<close> persists (\<^verbatim>\<open>Event\<close>, \<^verbatim>\<open>Alert\<close>, \<^verbatim>\<open>AgentToken\<close>), with their JSON
  form given by the struct tags. \<^verbatim>\<open>json.Marshal\<close> fails on an instant outside the years 0 to 9999;
  \<^verbatim>\<open>json.Unmarshal\<close> fails on a member of the wrong kind, leaves missing members at their zero value and
  leaves the whole record zero on \<^verbatim>\<open>null\<close>. Shown: decoding gives back what was encoded, but for the bytes of a
  token's node id that are no UTF-8.
\<close>

section \<open>Model\<close>

record Event =
  ev_EventID :: string
  ev_NodeID :: string
  ev_Timestamp :: time
  ev_Type :: string
  ev_Payload :: json

record Alert =
  al_AlertID :: string
  al_RuleID :: string
  al_NodeID :: string
  al_EventID :: string
  al_Timestamp :: time
  al_Message :: string
  al_Severity :: string

record AgentToken =
  tk_NodeID :: string
  tk_TokenHash :: string
  tk_IssuedAt :: time
  tk_RevokedAt :: "time option"

definition marshal_event :: "Event \<Rightarrow> json option" where
  "marshal_event e =
     (if json_time_ok (ev_Timestamp e) then Some (JObj
        [(''event_id'', JStr (ev_EventID e)), (''node_id'', JStr (ev_NodeID e)),
         (''timestamp'', JTime (ev_Timestamp e)), (''type'', JStr (ev_Type e)),
         (''payload'', ev_Payload e)])
      else None)"

definition event_of_members :: "(string \<times> json) list \<Rightarrow> Event option" where
  "event_of_members ms =
     (case (get_string ms ''event_id'', get_string ms ''node_id'', get_time ms ''timestamp'',
            get_string ms ''type'') of
        (Some i, Some n, Some t, Some y) \<Rightarrow>
          Some \<lparr>ev_EventID = i, ev_NodeID = n, ev_Timestamp = t, ev_Type = y,
                ev_Payload = get_raw ms ''payload''\<rparr>
      | _ \<Rightarrow> None)"

fun unmarshal_event :: "json \<Rightarrow> Event option" where
  "unmarshal_event (JObj ms) = event_of_members ms"
| "unmarshal_event JNull = event_of_members []"
| "unmarshal_event _ = None"

definition marshal_alert :: "Alert \<Rightarrow> json option" where
  "marshal_alert a =
     (if json_time_ok (al_Timestamp a) then Some (JObj
        [(''alert_id'', JStr (al_AlertID a)), (''rule_id'', JStr (al_RuleID a)),
         (''node_id'', JStr (al_NodeID a)), (''event_id'', JStr (al_EventID a)),
         (''timestamp'', JTime (al_Timestamp a)), (''message'', JStr (al_Message a)),
         (''severity'', JStr (al_Severity a))])
      else None)"

definition alert_of_members :: "(string \<times> json) list \<Rightarrow> Alert option" where
  "alert_of_members ms =
     (case (get_string ms ''alert_id'', get_string ms ''rule_id'', get_string ms ''node_id'',
            get_string ms ''event_id'', get_time ms ''timestamp'', get_string ms ''message'',
            get_string ms ''severity'') of
        (Some i, Some r, Some n, Some e, Some t, Some m, Some s) \<Rightarrow>
          Some \<lparr>al_AlertID = i, al_RuleID = r, al_NodeID = n, al_EventID = e, al_Timestamp = t,
                al_Message = m, al_Severity = s\<rparr>
      | _ \<Rightarrow> None)"

fun unmarshal_alert :: "json \<Rightarrow> Alert option" where
  "unmarshal_alert (JObj ms) = alert_of_members ms"
| "unmarshal_alert JNull = alert_of_members []"
| "unmarshal_alert _ = None"

definition marshal_token :: "AgentToken \<Rightarrow> json option" where
  "marshal_token k =
     (if json_time_ok (tk_IssuedAt k) \<and> (case tk_RevokedAt k of None \<Rightarrow> True | Some t \<Rightarrow> json_time_ok t)
      then Some (JObj
        ([(''node_id'', JStr (coerce_utf8 (tk_NodeID k))), (''token_hash'', JStr (tk_TokenHash k)),
          (''issued_at'', JTime (tk_IssuedAt k))] @
         (case tk_RevokedAt k of None \<Rightarrow> [] | Some t \<Rightarrow> [(''revoked_at'', JTime t)])))
      else None)"

definition token_of_members :: "(string \<times> json) list \<Rightarrow> AgentToken option" where
  "token_of_members ms =
     (case (get_string ms ''node_id'', get_string ms ''token_hash'', get_time ms ''issued_at'',
            get_time_ptr ms ''revoked_at'') of
        (Some n, Some h, Some i, Some r) \<Rightarrow>
          Some \<lparr>tk_NodeID = n, tk_TokenHash = h, tk_IssuedAt = i, tk_RevokedAt = r\<rparr>
      | _ \<Rightarrow> None)"

fun unmarshal_token :: "json \<Rightarrow> AgentToken option" where
  "unmarshal_token (JObj ms) = token_of_members ms"
| "unmarshal_token JNull = token_of_members []"
| "unmarshal_token _ = None"

definition agentTokenKey :: "string \<Rightarrow> string" where
  "agentTokenKey nodeID = ''agenttoken:'' @ nodeID"

section \<open>Round trips\<close>

lemma unmarshal_marshal_event: "marshal_event e = Some j \<Longrightarrow> unmarshal_event j = Some e"
  by (auto simp: marshal_event_def event_of_members_def decode_defs split: if_splits)

lemma unmarshal_marshal_alert: "marshal_alert a = Some j \<Longrightarrow> unmarshal_alert j = Some a"
  by (auto simp: marshal_alert_def alert_of_members_def decode_defs split: if_splits)

lemma unmarshal_marshal_token:
  "marshal_token k = Some j \<Longrightarrow> unmarshal_token j = Some (k\<lparr>tk_NodeID := coerce_utf8 (tk_NodeID k)\<rparr>)"
  by (auto simp: marshal_token_def token_of_members_def decode_defs split: if_splits option.splits)

definition demo_event :: "string \<Rightarrow> string \<Rightarrow> string \<Rightarrow> Event" where
  "demo_event i n y = \<lparr>ev_EventID = i, ev_NodeID = n, ev_Timestamp = time_unix0 5, ev_Type = y,
     ev_Payload = JObj [(''pid'', JNum 7)]\<rparr>"

definition demo_alert :: "string \<Rightarrow> string \<Rightarrow> Alert" where
  "demo_alert r n = \<lparr>al_AlertID = ''u1'', al_RuleID = r, al_NodeID = n, al_EventID = ''e1'',
     al_Timestamp = time_unix0 5, al_Message = ''m'', al_Severity = ''warning''\<rparr>"

definition demo_token :: "string \<Rightarrow> string \<Rightarrow> time option \<Rightarrow> AgentToken" where
  "demo_token n h r = \<lparr>tk_NodeID = n, tk_TokenHash = h, tk_IssuedAt = time_unix0 5, tk_RevokedAt = r\<rparr>"

lemma demo_event_marshals: "\<exists>j. marshal_event (demo_event i n y) = Some j"
  by (simp add: marshal_event_def demo_event_def json_time_ok_def time_unix0_def second_def year_9999_end_def)

end
