(* ===== verification/Badger.thy ===== *)
theory Badger
  imports StoreTypes
begin

text \<open>
  BadgerDB, the key-value library below package \<^verbatim>\<open>internal/store\<close>. Its code is not part of the
  repository, so it is a parameter of the model: a record of the operations the store calls, over an
  arbitrary type of database states. The locale \<^verbatim>\<open>badger_db\<close> states the documented behaviour the
  store relies on, in terms of the entries live at an instant: a read transaction sees them in
  byte-wise order of their keys, a committed write is visible until its time to live has passed and
  not after, and it changes no other key. A reference database satisfies the locale.

  Expiry is stored in whole seconds, so an entry with a time to live is certain to be visible until
  one second before its end and certain to be gone from its end on.
\<close>

section \<open>Interface\<close>

text \<open>
  A snapshot is what one \<^verbatim>\<open>db.View\<close> transaction sees: keys with their values, each value readable or
  failing with an error. The operations are arguments of the store's definitions:
  \<^item> \<open>bd_view db t\<close>: a read transaction at time \<open>t\<close>, or the error of \<^verbatim>\<open>db.View\<close>;
  \<^item> \<open>bd_update db t k v ttl\<close>: a transaction that sets one entry and commits, or its error;
  \<^item> \<open>bd_gc db\<close>: one \<^verbatim>\<open>RunValueLogGC\<close>, which rewrites a file of the value log or returns an error
    (\<^verbatim>\<open>ErrNoRewrite\<close> when no file is worth rewriting).
\<close>

type_synonym snapshot = "(string \<times> (string + json)) list"

record 'db badger =
  bd_view :: "'db \<Rightarrow> time \<Rightarrow> string + snapshot"
  bd_update :: "'db \<Rightarrow> time \<Rightarrow> string \<Rightarrow> json \<Rightarrow> duration option \<Rightarrow> string + 'db"
  bd_gc :: "'db \<Rightarrow> string + 'db"

text \<open>
  The transaction's \<^verbatim>\<open>Get\<close> and the iterator's \<^verbatim>\<open>Seek\<close>, forward (first key not below) and in reverse
  (from the last key not above, downwards).
\<close>

abbreviation txn_get :: "snapshot \<Rightarrow> string \<Rightarrow> (string + json) option" where
  "txn_get snap k \<equiv> map_of snap k"

definition seek_fwd :: "snapshot \<Rightarrow> string \<Rightarrow> snapshot" where
  "seek_fwd snap k = dropWhile (\<lambda>(j, _). j < k) snap"

definition seek_rev :: "snapshot \<Rightarrow> string \<Rightarrow> snapshot" where
  "seek_rev snap k = rev (takeWhile (\<lambda>(j, _). j \<le> k) snap)"

definition live_until :: "duration option \<Rightarrow> time \<Rightarrow> time \<Rightarrow> bool" where
  "live_until ttl now t = (case ttl of None \<Rightarrow> True | Some d \<Rightarrow> t + second \<le> now + d)"

locale badger_db =
  fixes B :: "'db badger"
    and content :: "'db \<Rightarrow> time \<Rightarrow> (string \<times> json) list"
  assumes content_sorted: "sorted_wrt (<) (map fst (content db t))"
    and view_content: "bd_view B db t = Inr snap \<Longrightarrow>
      list_all2 (\<lambda>(k, v) (k', j). k = k' \<and> (v = Inr j \<or> (\<exists>e. v = Inl e))) snap (content db t)"
    and update_other: "bd_update B db now k v ttl = Inr db' \<Longrightarrow> k' \<noteq> k \<Longrightarrow>
      map_of (content db' t) k' = map_of (content db t) k'"
    and update_same: "bd_update B db now k v ttl = Inr db' \<Longrightarrow> live_until ttl now t \<Longrightarrow>
      map_of (content db' t) k = Some v"
    and update_gone: "bd_update B db now k v ttl = Inr db' \<Longrightarrow>
      map_of (content db' t) k = None \<or> map_of (content db' t) k = Some v"
    and update_expired: "bd_update B db now k v (Some d) = Inr db' \<Longrightarrow> now + d \<le> t \<Longrightarrow>
      map_of (content db' t) k = None"

text \<open>The value-log garbage collection rewrites files of the database; it keeps the live entries.\<close>

locale badger_gc = badger_db +
  assumes gc_content: "bd_gc B db = Inr db' \<Longrightarrow> content db' t = content db t"

section \<open>Scanning a prefix\<close>


lemma prefix_le_append: "(p :: string) \<le> p @ r"
  by (induction p) auto

lemma HasPrefix_le: "HasPrefix k p \<Longrightarrow> p \<le> k"
  by (auto simp: HasPrefix_iff prefix_le_append)

lemma prefix_block:
  fixes b c p :: string
  assumes "HasPrefix c p" and "p \<le> b" and "b \<le> c"
  shows "HasPrefix b p"
  using assms
proof (induction p arbitrary: b c)
  case (Cons x p)
  from Cons.prems(1) obtain c' where c: "c = x # c'" "HasPrefix c' p"
    by (cases c) auto
  from Cons.prems(2) obtain y b' where b: "b = y # b'" by (cases b) auto
  have "x < y \<or> x = y \<and> p \<le> b'" "y < x \<or> y = x \<and> b' \<le> c'"
    using Cons.prems(2,3) unfolding b c(1) by simp_all
  then have "y = x" "p \<le> b'" "b' \<le> c'" by (metis less_asym)+
  then show ?case using Cons.IH [OF c(2)] b by simp
qed simp

text \<open>In key order the keys with a common prefix are consecutive: once left, the prefix does not return.\<close>

lemma list_all2_takeWhile:
  assumes "list_all2 R xs ys" and "\<And>x y. R x y \<Longrightarrow> P x = Q y"
  shows "list_all2 R (takeWhile P xs) (takeWhile Q ys)"
  using assms(1) by (induction rule: list_all2_induct) (auto simp: assms(2))

lemma list_all2_dropWhile:
  assumes "list_all2 R xs ys" and "\<And>x y. R x y \<Longrightarrow> P x = Q y"
  shows "list_all2 R (dropWhile P xs) (dropWhile Q ys)"
  using assms(1) by (induction rule: list_all2_induct) (auto simp: assms(2))

lemma sorted_wrt_map_filter: "sorted_wrt (<) (map fst xs) \<Longrightarrow> sorted_wrt (<) (map fst (filter P xs))"
  by (induction xs) auto

text \<open>Scans of a sorted list, from either end, are filters.\<close>

lemma takeWhile_fst_le:
  "sorted_wrt (<) (map fst c) \<Longrightarrow>
    takeWhile (\<lambda>(k, _). k \<le> s) c = filter (\<lambda>(k, _). k \<le> (s :: string)) c"
proof (induction c)
  case (Cons x c)
  then have "\<not> fst y \<le> s" if "\<not> fst x \<le> s" "y \<in> set c" for y
    using that by (auto simp: not_le intro: less_trans)
  with Cons show ?case by (auto simp: filter_empty_conv case_prod_beta')
qed simp

lemma takeWhile_rev_fst:
  assumes "sorted_wrt (<) (map fst c)" and "\<And>j k. P j \<Longrightarrow> j < k \<Longrightarrow> k \<in> fst ` set c \<Longrightarrow> P k"
  shows "takeWhile (\<lambda>(k, _). P k) (rev c) = rev (filter (\<lambda>(k :: string, _). P k) c)"
  using assms
proof (induction c)
  case (Cons x c)
  have IH: "takeWhile (\<lambda>(k, _). P k) (rev c) = rev (filter (\<lambda>(k, _). P k) c)" using Cons by auto
  show ?case
  proof (cases "\<forall>y \<in> set c. P (fst y)")
    case True
    then have "filter (\<lambda>(k, _). P k) c = c" by (auto simp: filter_id_conv case_prod_beta')
    with True IH show ?thesis by (auto simp: takeWhile_append case_prod_beta')
  next
    case False
    then obtain y where y: "y \<in> set c" "\<not> P (fst y)" by auto
    then have "fst x < fst y" using Cons.prems(1) by auto
    with y Cons.prems(2) have "\<not> P (fst x)" by (metis image_eqI list.set_intros(2))
    with y IH show ?thesis by (auto simp: takeWhile_append1 case_prod_beta')
  qed
qed simp

text \<open>
  The reverse scan of the keys with a prefix, as \<^verbatim>\<open>ListEvents\<close> does it: from the prefix followed by
  byte \<^verbatim>\<open>0xFF\<close> downwards while the prefix lasts.
\<close>

definition in_prefix_range :: "string \<Rightarrow> string \<Rightarrow> bool" where
  "in_prefix_range p k = (p \<le> k \<and> k \<le> p @ [CHR 0xFF])"

lemma in_prefix_range_HasPrefix: "in_prefix_range p k \<Longrightarrow> HasPrefix k p"
  unfolding in_prefix_range_def by (rule prefix_block [of "p @ [CHR 0xFF]"]) auto

lemma rev_scan_filter:
  assumes "sorted_wrt (<) (map fst c)"
  shows "takeWhile (\<lambda>(k, _). HasPrefix k p) (rev (takeWhile (\<lambda>(k, _). k \<le> p @ [CHR 0xFF]) c)) =
    rev (filter (\<lambda>(k, _). in_prefix_range p k) c)"
proof -
  let ?d = "filter (\<lambda>(k, _). k \<le> p @ [CHR 0xFF]) c"
  have d: "takeWhile (\<lambda>(k, _). k \<le> p @ [CHR 0xFF]) c = ?d"
    using assms by (rule takeWhile_fst_le)
  have up: "HasPrefix k p \<longleftrightarrow> p \<le> k" if "k \<le> p @ [CHR 0xFF]" for k
    using that by (auto intro: HasPrefix_le prefix_block [of "p @ [CHR 0xFF]"])
  have "takeWhile (\<lambda>(k, _). HasPrefix k p) (rev ?d) = rev (filter (\<lambda>(k, _). HasPrefix k p) ?d)"
  proof (rule takeWhile_rev_fst)
    show "sorted_wrt (<) (map fst ?d)" using assms by (rule sorted_wrt_map_filter)
    fix j k assume "HasPrefix j p" "j < k" "k \<in> fst ` set ?d"
    then show "HasPrefix k p" using up [of k] HasPrefix_le [of j p] by auto
  qed
  also have "filter (\<lambda>(k, _). HasPrefix k p) ?d = filter (\<lambda>(k, _). in_prefix_range p k) c"
    using up by (auto simp: in_prefix_range_def intro!: filter_cong)
  finally show ?thesis by (simp add: d)
qed

text \<open>The forward scan of the keys with a prefix, as \<^verbatim>\<open>loadCounters\<close> and \<^verbatim>\<open>ListTokens\<close> do it.\<close>

lemma fwd_scan_filter:
  assumes "sorted_wrt (<) (map fst c)"
  shows "takeWhile (\<lambda>(k, _). HasPrefix k p) (dropWhile (\<lambda>(k, _). k < p) c) = filter (\<lambda>(k, _). HasPrefix k p) c"
  using assms
proof (induction c)
  case (Cons x c)
  show ?case
  proof (cases "fst x < p")
    case True
    then have "\<not> HasPrefix (fst x) p" using HasPrefix_le [of "fst x" p] by auto
    with True Cons show ?thesis by (auto simp: case_prod_beta')
  next
    case False
    have "\<forall>k \<in> set (map fst (x # c)). p \<le> k"
      using False Cons.prems by (auto simp: not_less intro: less_imp_le order_trans)
    then have stop: "\<not> HasPrefix (fst y) p" if "\<not> HasPrefix (fst x) p" "y \<in> set c" for y
      using prefix_block [of "fst y" p "fst x"] that Cons.prems by (auto intro: less_imp_le)
    have "c = dropWhile (\<lambda>(k, _). k < p) c"
      using False Cons.prems by (cases c) (auto simp: not_less)
    with False stop Cons show ?thesis by (auto simp: case_prod_beta' filter_empty_conv)
  qed
qed simp

section \<open>A reference database\<close>

text \<open>
  An append-only log of entries with their expiry; the latest entry of a key counts. Reads and writes
  always succeed.
\<close>

type_synonym mem_db = "(string \<times> json \<times> time option) list"

definition mem_live :: "mem_db \<Rightarrow> time \<Rightarrow> string \<Rightarrow> bool" where
  "mem_live db t k =
     (case map_of db k of None \<Rightarrow> False | Some (_, None) \<Rightarrow> True | Some (_, Some x) \<Rightarrow> t < x)"

definition mem_content :: "mem_db \<Rightarrow> time \<Rightarrow> (string \<times> json) list" where
  "mem_content db t =
     map (\<lambda>k. (k, fst (the (map_of db k)))) (filter (mem_live db t) (sort (remdups (map fst db))))"

definition mem_view :: "mem_db \<Rightarrow> time \<Rightarrow> string + snapshot" where
  "mem_view db t = Inr (map (\<lambda>(k, j). (k, Inr j)) (mem_content db t))"

definition mem_update :: "mem_db \<Rightarrow> time \<Rightarrow> string \<Rightarrow> json \<Rightarrow> duration option \<Rightarrow> string + mem_db" where
  "mem_update db now k v ttl = Inr ((k, v, map_option (\<lambda>d. now + d) ttl) # db)"

text \<open>Garbage collection drops the entries that later ones of the same key have replaced.\<close>

definition mem_gc :: "mem_db \<Rightarrow> string + mem_db" where
  "mem_gc db = (if distinct (map fst db) then Inl ''Value log GC attempt didn't result in any cleanup'' else Inr (AList.clearjunk db))"

definition mem_badger :: "mem_db badger" where
  "mem_badger = \<lparr>bd_view = mem_view, bd_update = mem_update, bd_gc = mem_gc\<rparr>"

lemma mem_content_get:
  "map_of (mem_content db t) k = (if mem_live db t k then Some (fst (the (map_of db k))) else None)"
proof -
  have "k \<in> set (map fst db)" if "mem_live db t k"
    using that by (auto simp: mem_live_def split: option.splits dest!: map_of_SomeD) force+
  then show ?thesis
    by (auto simp: mem_content_def map_of_map_restrict restrict_map_def)
qed

interpretation mem: badger_db mem_badger mem_content
proof
  fix db t
  have "map fst (mem_content db t) = filter (mem_live db t) (sort (remdups (map fst db)))"
    by (simp add: mem_content_def comp_def)
  then show "sorted_wrt (<) (map fst (mem_content db t))"
    by (simp add: strict_sorted_iff sorted_wrt_filter)
next
  fix db t snap
  assume "bd_view mem_badger db t = Inr snap"
  then show "list_all2 (\<lambda>(k, v) (k', j). k = k' \<and> (v = Inr j \<or> (\<exists>e. v = Inl e))) snap (mem_content db t)"
    by (auto simp: mem_badger_def mem_view_def list_all2_map1 case_prod_beta intro: list_all2_same [THEN iffD2])
qed (auto simp: mem_badger_def mem_update_def live_until_def mem_content_get mem_live_def second_def
    split: option.splits)

lemma mem_content_cong:
  assumes "map_of db = map_of db'"
  shows "mem_content db t = mem_content db' t"
proof -
  have "mem_live db t = mem_live db' t" using assms by (auto simp: mem_live_def fun_eq_iff)
  moreover have "set (map fst db) = set (map fst db')"
    using assms by (metis dom_map_of_conv_image_fst list.set_map)
  then have "sort (remdups (map fst db)) = sort (remdups (map fst db'))"
    by (metis sorted_list_of_set_sort_remdups)
  ultimately show ?thesis using assms by (simp add: mem_content_def)
qed

interpretation mem: badger_gc mem_badger mem_content
  by unfold_locales
    (auto simp: mem_badger_def mem_gc_def fun_eq_iff map_of_clearjunk split: if_splits intro: mem_content_cong)

end
