(* ===== verification/Store.thy ===== *)
theory Store
  imports Badger
begin

text \<open>
  \<^verbatim>\<open>internal/store/badger.go\<close>: events and alerts in the database, the per-type counters behind
  \<^verbatim>\<open>Stats\<close>, and the context that bounds how long a caller waits for the database.

  \<^verbatim>\<open>runWithContext\<close> runs a database call in the background and returns when the call or the context
  finishes first; which one does is an argument (\<^verbatim>\<open>race\<close>). When the context wins, a write is not
  undone: it stays pending and the background goroutine performs it later (\<^verbatim>\<open>bg_complete\<close>), or never.

  Shown: every entry the store's operations leave in the database decodes to the record that was
  saved under its key; what the listings return, for every filter and limit; that a saved event is
  listed while it lives and gone afterwards; how the goroutine of the value-log garbage collection proceeds; that
  events are listed newest first to the second and
  that within one second they are not; that saving events and alerts leaves the rest alone; and how
  the counters relate to the database.
\<close>

section \<open>Model\<close>

definition DefaultRetention :: duration where "DefaultRetention = 7 * 24 * hour"
definition maxNodeFilterScan :: nat where "maxNodeFilterScan = 10000"

datatype store_error =
    BadgerError string
  | ContextDone
  | MarshalError
  | UnmarshalError
  | ErrTokenExists
  | RandError string

datatype race = FnWins | CtxWins

type_synonym pending_write = "string \<times> json \<times> duration option"

record 'db Store =
  st_db :: 'db
  st_retention :: duration
  st_counters :: "(string, int) gomap"
  st_pending :: "pending_write list"
  st_gcStopped :: bool

definition eventPrefix :: string where "eventPrefix = ''event:''"
definition alertPrefix :: string where "alertPrefix = ''alert:''"

definition event_key :: "time \<Rightarrow> Event \<Rightarrow> string" where
  "event_key received e = ''event:'' @ format_RFC3339Nano received @ '':'' @ ev_EventID e"

definition alert_key :: "Alert \<Rightarrow> string" where
  "alert_key a = ''alert:'' @ format_RFC3339Nano (al_Timestamp a) @ '':'' @ al_AlertID a"

subsection \<open>Opening\<close>

fun loadCountersLoop :: "(string, int) gomap \<Rightarrow> snapshot \<Rightarrow> store_error + (string, int) gomap" where
  "loadCountersLoop cs [] = Inr cs"
| "loadCountersLoop cs ((k, v) # items) =
     (if \<not> HasPrefix k eventPrefix then Inr cs
      else case v of
        Inl err \<Rightarrow> Inl (BadgerError err)
      | Inr j \<Rightarrow> (case unmarshal_event j of
          None \<Rightarrow> Inl UnmarshalError
        | Some e \<Rightarrow> loadCountersLoop (gm_incr (ev_Type e) cs) items))"

definition loadCounters :: "'db badger \<Rightarrow> 'db \<Rightarrow> time \<Rightarrow> (string, int) gomap \<Rightarrow> store_error + (string, int) gomap" where
  "loadCounters B db t cs =
     (case bd_view B db t of
        Inl err \<Rightarrow> Inl (BadgerError err)
      | Inr snap \<Rightarrow> loadCountersLoop cs (seek_fwd snap eventPrefix))"

text \<open>\<open>opened\<close> is the result of \<^verbatim>\<open>badger.Open\<close> on the directory.\<close>

definition store_New :: "'db badger \<Rightarrow> string + 'db \<Rightarrow> time \<Rightarrow> store_error + 'db Store" where
  "store_New B opened t =
     (case opened of
        Inl err \<Rightarrow> Inl (BadgerError err)
      | Inr db \<Rightarrow>
          (case loadCounters B db t [(''exec'', 0), (''tcp'', 0), (''file'', 0)] of
             Inl err \<Rightarrow> Inl err
           | Inr cs \<Rightarrow> Inr \<lparr>st_db = db, st_retention = DefaultRetention, st_counters = cs,
                            st_pending = [], st_gcStopped = False\<rparr>))"

subsection \<open>The context\<close>

text \<open>\<^verbatim>\<open>runWithContext\<close> around a read, and around a transaction that sets one entry.\<close>

definition read_with_context :: "race \<Rightarrow> (store_error + 'a) \<Rightarrow> store_error + 'a" where
  "read_with_context who res = (case who of FnWins \<Rightarrow> res | CtxWins \<Rightarrow> Inl ContextDone)"

definition write_with_context ::
  "'db badger \<Rightarrow> 'db Store \<Rightarrow> time \<Rightarrow> race \<Rightarrow> pending_write \<Rightarrow> store_error option \<times> 'db Store" where
  "write_with_context B st t who w =
     (case w of (k, v, ttl) \<Rightarrow>
        (case who of
           CtxWins \<Rightarrow> (Some ContextDone, st\<lparr>st_pending := st_pending st @ [w]\<rparr>)
         | FnWins \<Rightarrow> (case bd_update B (st_db st) t k v ttl of
               Inl err \<Rightarrow> (Some (BadgerError err), st)
             | Inr db' \<Rightarrow> (None, st\<lparr>st_db := db'\<rparr>))))"

text \<open>
  The background goroutine of the \<open>i\<close>-th abandoned write performs its transaction; its result is discarded. \<open>t\<close> is
  the instant at which the update function of the transaction makes the entry (\<^verbatim>\<open>WithTTL\<close>), from which the time to
  live counts; when the commit is over does not matter to the content.
\<close>

definition bg_complete :: "'db badger \<Rightarrow> 'db Store \<Rightarrow> time \<Rightarrow> nat \<Rightarrow> 'db Store" where
  "bg_complete B st t i =
     (if i < length (st_pending st) then
        (case st_pending st ! i of (k, v, ttl) \<Rightarrow>
           let st' = st\<lparr>st_pending := take i (st_pending st) @ drop (Suc i) (st_pending st)\<rparr>
           in case bd_update B (st_db st) t k v ttl of Inl err \<Rightarrow> st' | Inr db' \<Rightarrow> st'\<lparr>st_db := db'\<rparr>)
      else st)"

subsection \<open>Events\<close>

definition SaveEvent ::
  "'db badger \<Rightarrow> 'db Store \<Rightarrow> time \<Rightarrow> time \<Rightarrow> race \<Rightarrow> Event \<Rightarrow> store_error option \<times> 'db Store" where
  "SaveEvent B st received t who e =
     (case marshal_event e of
        None \<Rightarrow> (Some MarshalError, st)
      | Some val \<Rightarrow>
          (case write_with_context B st t who (event_key received e, val, Some (st_retention st)) of
             (Some err, st') \<Rightarrow> (Some err, st')
           | (None, st') \<Rightarrow> (None, st'\<lparr>st_counters := gm_incr (ev_Type e) (st_counters st')\<rparr>)))"

fun listEventsLoop ::
  "string \<Rightarrow> int \<Rightarrow> nat \<Rightarrow> Event list \<Rightarrow> snapshot \<Rightarrow> store_error + Event list" where
  "listEventsLoop node limit scanned events [] = Inr events"
| "listEventsLoop node limit scanned events ((k, v) # items) =
     (if \<not> (HasPrefix k eventPrefix \<and> int (length events) < limit) then Inr events
      else if node \<noteq> [] \<and> maxNodeFilterScan \<le> scanned then Inr events
      else case v of
        Inl err \<Rightarrow> Inl (BadgerError err)
      | Inr j \<Rightarrow> (case unmarshal_event j of
          None \<Rightarrow> Inl UnmarshalError
        | Some e \<Rightarrow>
            if node \<noteq> [] \<and> ev_NodeID e \<noteq> node then listEventsLoop node limit (Suc scanned) events items
            else listEventsLoop node limit (Suc scanned) (events @ [e]) items))"

definition ListEvents ::
  "'db badger \<Rightarrow> 'db Store \<Rightarrow> time \<Rightarrow> race \<Rightarrow> string \<Rightarrow> int \<Rightarrow> store_error + Event list" where
  "ListEvents B st t who node limit =
     read_with_context who
       (case bd_view B (st_db st) t of
          Inl err \<Rightarrow> Inl (BadgerError err)
        | Inr snap \<Rightarrow> listEventsLoop node limit 0 [] (seek_rev snap (eventPrefix @ [CHR 0xFF])))"

text \<open>\<^verbatim>\<open>Stats\<close> returns a copy of the counters and no error.\<close>

definition Stats :: "'db Store \<Rightarrow> (string, int) gomap" where
  "Stats st = st_counters st"

subsection \<open>Alerts\<close>

definition SaveAlert ::
  "'db badger \<Rightarrow> 'db Store \<Rightarrow> time \<Rightarrow> race \<Rightarrow> Alert \<Rightarrow> store_error option \<times> 'db Store" where
  "SaveAlert B st t who a =
     (case marshal_alert a of
        None \<Rightarrow> (Some MarshalError, st)
      | Some val \<Rightarrow> write_with_context B st t who (alert_key a, val, Some (st_retention st)))"

fun listAlertsLoop ::
  "string \<Rightarrow> int \<Rightarrow> nat \<Rightarrow> Alert list \<Rightarrow> snapshot \<Rightarrow> store_error + Alert list" where
  "listAlertsLoop node limit scanned alerts [] = Inr alerts"
| "listAlertsLoop node limit scanned alerts ((k, v) # items) =
     (if \<not> (HasPrefix k alertPrefix \<and> int (length alerts) < limit) then Inr alerts
      else if node \<noteq> [] \<and> maxNodeFilterScan \<le> scanned then Inr alerts
      else case v of
        Inl err \<Rightarrow> Inl (BadgerError err)
      | Inr j \<Rightarrow> (case unmarshal_alert j of
          None \<Rightarrow> Inl UnmarshalError
        | Some a \<Rightarrow>
            if node \<noteq> [] \<and> al_NodeID a \<noteq> node then listAlertsLoop node limit (Suc scanned) alerts items
            else listAlertsLoop node limit (Suc scanned) (alerts @ [a]) items))"

definition ListAlerts ::
  "'db badger \<Rightarrow> 'db Store \<Rightarrow> time \<Rightarrow> race \<Rightarrow> string \<Rightarrow> int \<Rightarrow> store_error + Alert list" where
  "ListAlerts B st t who node limit =
     read_with_context who
       (case bd_view B (st_db st) t of
          Inl err \<Rightarrow> Inl (BadgerError err)
        | Inr snap \<Rightarrow> listAlertsLoop node limit 0 [] (seek_rev snap (alertPrefix @ [CHR 0xFF])))"

subsection \<open>Garbage collection and closing\<close>

text \<open>
  The goroutine \<^verbatim>\<open>runValueLogGC\<close> shares the database with the rest of the process, so it is given by its steps. It
  waits in its \<^verbatim>\<open>select\<close>, is in a round of calls to the library, or has returned. A label says what happens: the
  \<^verbatim>\<open>select\<close> takes the case of the stop channel or of the ticker, or the library call of the round rewrote a file or
  returned an error, which ends the round. Other goroutines may change the database between any two steps.
\<close>

datatype gc_state = GcSelect | GcRound | GcReturned

datatype gc_label = GcStop | GcTick | GcRewrote | GcFailed | GcOther

fun runValueLogGC :: "'db badger \<Rightarrow> gc_label \<Rightarrow> gc_state \<times> 'db \<Rightarrow> (gc_state \<times> 'db) option" where
  "runValueLogGC B GcStop (GcSelect, db) = Some (GcReturned, db)"
| "runValueLogGC B GcTick (GcSelect, db) = Some (GcRound, db)"
| "runValueLogGC B GcRewrote (GcRound, db) =
     (case bd_gc B db of Inl err \<Rightarrow> None | Inr db' \<Rightarrow> Some (GcRound, db'))"
| "runValueLogGC B GcFailed (GcRound, db) =
     (case bd_gc B db of Inl err \<Rightarrow> Some (GcSelect, db) | Inr db' \<Rightarrow> None)"
| "runValueLogGC B _ _ = None"

inductive gc_run :: "'db badger \<Rightarrow> 'db \<Rightarrow> gc_label list \<Rightarrow> gc_state \<times> 'db \<Rightarrow> bool" for B db where
  start: "gc_run B db [] (GcSelect, db)"
| own: "gc_run B db ls x \<Longrightarrow> runValueLogGC B l x = Some y \<Longrightarrow> gc_run B db (ls @ [l]) y"
| other: "gc_run B db ls (pc, d) \<Longrightarrow> gc_run B db (ls @ [GcOther]) (pc, d')"

text \<open>
  \<^verbatim>\<open>Close\<close> closes the channel that stops the garbage-collection goroutine, waits for the goroutine and
  closes the database (\<open>err\<close> is what that returns); closing the channel a second time panics.
\<close>

datatype close_result = CloseReturned "string option" | ClosePanic

definition store_Close :: "'db Store \<Rightarrow> string option \<Rightarrow> close_result \<times> 'db Store" where
  "store_Close st err =
     (if st_gcStopped st then (ClosePanic, st)
      else (CloseReturned err, st\<lparr>st_gcStopped := True\<rparr>))"

section \<open>The listing loops\<close>

text \<open>
  What the node filter and the scan cap leave of the records \<open>xs\<close> met in scan order, \<open>scanned\<close> of
  which were met before.
\<close>

definition node_matches :: "('a \<Rightarrow> string) \<Rightarrow> string \<Rightarrow> nat \<Rightarrow> 'a list \<Rightarrow> 'a list" where
  "node_matches node_of node scanned xs =
     (if node = [] then xs else filter (\<lambda>x. node_of x = node) (take (maxNodeFilterScan - scanned) xs))"

text \<open>
  \<^verbatim>\<open>ListEvents\<close> and \<^verbatim>\<open>ListAlerts\<close> run the same loop over different records. The locale is the contract of
  that loop; both loops interpret it.
\<close>

locale node_scan =
  fixes loop :: "string \<Rightarrow> int \<Rightarrow> nat \<Rightarrow> 'a list \<Rightarrow> snapshot \<Rightarrow> store_error + 'a list"
    and pre :: string
    and unmarshal :: "json \<Rightarrow> 'a option"
    and node_of :: "'a \<Rightarrow> string"
  assumes loop_Nil: "loop node limit scanned acc [] = Inr acc"
    and loop_Cons: "loop node limit scanned acc ((k, v) # items) =
      (if \<not> (HasPrefix k pre \<and> int (length acc) < limit) then Inr acc
       else if node \<noteq> [] \<and> maxNodeFilterScan \<le> scanned then Inr acc
       else case v of
         Inl err \<Rightarrow> Inl (BadgerError err)
       | Inr j \<Rightarrow> (case unmarshal j of
           None \<Rightarrow> Inl UnmarshalError
         | Some x \<Rightarrow>
             if node \<noteq> [] \<and> node_of x \<noteq> node then loop node limit (Suc scanned) acc items
             else loop node limit (Suc scanned) (acc @ [x]) items))"
begin

lemma loop_takeWhile:
  "loop node limit scanned acc items = loop node limit scanned acc (takeWhile (\<lambda>(k, _). HasPrefix k pre) items)"
  by (induction items arbitrary: scanned acc)
    (auto simp: loop_Nil loop_Cons split: option.split sum.split)


lemma loop_result:
  assumes "list_all2 (\<lambda>(k, v) x. HasPrefix k pre \<and> (\<forall>j. v = Inr j \<longrightarrow> unmarshal j = Some x)) items xs"
    and "loop node limit scanned acc items = Inr r"
  shows "r = acc @ take (nat (limit - int (length acc))) (node_matches node_of node scanned xs)"
  using assms
proof (induction items xs arbitrary: scanned acc rule: list_all2_induct)
  case Nil
  then show ?case by (auto simp: loop_Nil node_matches_def)
next
  case (Cons item items x xs)
  obtain k v where kv: "item = (k, v)" by (cases item)
  have k: "HasPrefix k pre" and dec: "\<And>j. v = Inr j \<Longrightarrow> unmarshal j = Some x"
    using Cons.hyps(1) kv by auto
  show ?case
  proof (cases "int (length acc) < limit \<and> \<not> (node \<noteq> [] \<and> maxNodeFilterScan \<le> scanned)")
    case False
    then show ?thesis using Cons.prems k kv by (auto simp: loop_Cons node_matches_def split: if_splits)
  next
    case True
    then obtain j where v: "v = Inr j" using Cons.prems k kv by (cases v) (auto simp: loop_Cons)
    have step: "maxNodeFilterScan - scanned = Suc (maxNodeFilterScan - Suc scanned)" if "node \<noteq> []"
      using True that by (simp add: Suc_diff_Suc)
    have "int (length acc) < limit" using True by simp
    then have pos: "nat (limit - int (length acc)) = Suc (nat (limit - int (length (acc @ [x]))))"
      unfolding length_append by simp
    show ?thesis
    proof (cases "node \<noteq> [] \<and> node_of x \<noteq> node")
      case skip: True
      then have "loop node limit (Suc scanned) acc items = Inr r"
        using Cons.prems True k kv v dec by (simp add: loop_Cons)
      from Cons.IH [OF this] show ?thesis using skip step by (simp add: node_matches_def)
    next
      case keep: False
      then have "loop node limit (Suc scanned) (acc @ [x]) items = Inr r"
        using Cons.prems True k kv v dec by (auto simp: loop_Cons)
      from Cons.IH [OF this] show ?thesis using keep step pos by (auto simp: node_matches_def)
    qed
  qed
qed

lemma loop_returns:
  assumes "list_all2 (\<lambda>(k, v) x. \<exists>j. v = Inr j \<and> unmarshal j = Some x) items xs"
  shows "\<exists>r. loop node limit scanned acc items = Inr r"
  using assms
  by (induction items xs arbitrary: scanned acc rule: list_all2_induct)
    (auto simp: loop_Nil loop_Cons)

end

text \<open>
  The loop over a database behind the interface, from the prefix followed by byte \<^verbatim>\<open>0xFF\<close> downwards,
  as both listings start it.
\<close>

locale db_scan = badger_db B content + node_scan loop pre unmarshal node_of
  for B :: "'db badger" and content and loop :: "string \<Rightarrow> int \<Rightarrow> nat \<Rightarrow> 'a list \<Rightarrow> snapshot \<Rightarrow> store_error + 'a list"
    and pre unmarshal node_of
begin

lemma scan_items:
  assumes "bd_view B db t = Inr snap"
    and ok: "\<And>k j. (k, j) \<in> set (content db t) \<Longrightarrow> HasPrefix k pre \<Longrightarrow>
      in_prefix_range pre k \<and> unmarshal j \<noteq> None"
  shows "list_all2 (\<lambda>(k, v) x. HasPrefix k pre \<and> (\<forall>j. v = Inr j \<longrightarrow> unmarshal j = Some x))
    (takeWhile (\<lambda>(k, _). HasPrefix k pre) (seek_rev snap (pre @ [CHR 0xFF])))
    (map (\<lambda>(_, j). the (unmarshal j)) (rev (filter (\<lambda>(k, _). HasPrefix k pre) (content db t))))"
proof -
  let ?R = "\<lambda>(k, v) (k', j). k = k' \<and> (v = Inr j \<or> (\<exists>e. v = Inl e))"
  let ?c = "filter (\<lambda>(k, _). HasPrefix k pre) (content db t)"
  have "filter (\<lambda>(k, _). in_prefix_range pre k) (content db t) = ?c"
    using ok in_prefix_range_HasPrefix by (intro filter_cong) auto
  then have c: "takeWhile (\<lambda>(k, _). HasPrefix k pre)
      (rev (takeWhile (\<lambda>(k, _). k \<le> pre @ [CHR 0xFF]) (content db t))) = rev ?c"
    by (simp add: rev_scan_filter content_sorted)
  have "list_all2 ?R (takeWhile (\<lambda>(k, _). HasPrefix k pre) (seek_rev snap (pre @ [CHR 0xFF]))) (rev ?c)"
    unfolding c [symmetric] seek_rev_def using view_content [OF assms(1)]
    by (auto intro!: list_all2_takeWhile simp: list_all2_rev)
  then show ?thesis
    unfolding list_all2_map2
    by (rule list.rel_mono_strong) (use ok in \<open>fastforce simp: content_sorted\<close>)
qed

lemma scan_result:
  assumes "bd_view B db t = Inr snap"
    and "\<And>k j. (k, j) \<in> set (content db t) \<Longrightarrow> HasPrefix k pre \<Longrightarrow> in_prefix_range pre k \<and> unmarshal j \<noteq> None"
    and "loop node limit 0 [] (seek_rev snap (pre @ [CHR 0xFF])) = Inr r"
  shows "r = take (nat limit) (node_matches node_of node 0
    (map (\<lambda>(_, j). the (unmarshal j)) (rev (filter (\<lambda>(k, _). HasPrefix k pre) (content db t)))))"
  using loop_result [OF scan_items [OF assms(1,2)], of node limit 0 "[]" r] assms(3)
  by (simp add: loop_takeWhile [symmetric])

text \<open>When every value of the snapshot can be read, the loop succeeds.\<close>

lemma scan_returns:
  assumes "bd_view B db t = Inr snap"
    and "\<And>k j. (k, j) \<in> set (content db t) \<Longrightarrow> HasPrefix k pre \<Longrightarrow> in_prefix_range pre k \<and> unmarshal j \<noteq> None"
    and "\<forall>(k, v) \<in> set snap. \<exists>j. v = Inr j"
  shows "\<exists>r. loop node limit 0 [] (seek_rev snap (pre @ [CHR 0xFF])) = Inr r"
proof -
  let ?items = "takeWhile (\<lambda>(k, _). HasPrefix k pre) (seek_rev snap (pre @ [CHR 0xFF]))"
  let ?xs = "map (\<lambda>(_, j). the (unmarshal j)) (rev (filter (\<lambda>(k, _). HasPrefix k pre) (content db t)))"
  have sub: "set ?items \<subseteq> set snap" by (auto simp: seek_rev_def dest!: set_takeWhileD)
  have "list_all2 (\<lambda>(k, v) x. HasPrefix k pre \<and> (\<forall>j. v = Inr j \<longrightarrow> unmarshal j = Some x)) ?items ?xs"
    using scan_items [OF assms(1,2)] .
  then have "list_all2 (\<lambda>(k, v) x. \<exists>j. v = Inr j \<and> unmarshal j = Some x) ?items ?xs"
    by (rule list.rel_mono_strong) (use sub assms(3) in fastforce)
  from loop_returns [OF this] show ?thesis by (metis loop_takeWhile)
qed

end

interpretation event_scan: node_scan listEventsLoop eventPrefix unmarshal_event ev_NodeID
  by unfold_locales simp_all

interpretation alert_scan: node_scan listAlertsLoop alertPrefix unmarshal_alert al_NodeID
  by unfold_locales simp_all

section \<open>What the database holds\<close>

text \<open>A clock between the years 1 and 9999, as \<^verbatim>\<open>time.Now\<close> is on every host that runs the collector.\<close>

definition clock_ok :: "time \<Rightarrow> bool" where
  "clock_ok t = (0 \<le> t \<and> t div second < year_9999_end)"

definition tokenPrefix :: string where "tokenPrefix = ''agenttoken:''"

text \<open>Every entry is a record saved under its own key: the invariant of the key space.\<close>

definition entry_ok :: "string \<Rightarrow> json \<Rightarrow> bool" where
  "entry_ok k j =
     ((HasPrefix k eventPrefix \<longrightarrow> (\<exists>r e. k = event_key r e \<and> clock_ok r \<and> marshal_event e = Some j)) \<and>
      (HasPrefix k alertPrefix \<longrightarrow> (\<exists>a. k = alert_key a \<and> clock_ok (al_Timestamp a) \<and> marshal_alert a = Some j)) \<and>
      (HasPrefix k tokenPrefix \<longrightarrow> (\<exists>tok. k = agentTokenKey (tk_NodeID tok) \<and> marshal_token tok = Some j)))"

text \<open>A predicate of the live entries, now and at any other instant, and of the pending writes.\<close>

definition store_all ::
  "('db \<Rightarrow> time \<Rightarrow> (string \<times> json) list) \<Rightarrow> (string \<Rightarrow> json \<Rightarrow> bool) \<Rightarrow> 'db Store \<Rightarrow> bool" where
  "store_all content P st =
     ((\<forall>t k j. map_of (content (st_db st) t) k = Some j \<longrightarrow> P k j) \<and>
      (\<forall>(k, v, ttl) \<in> set (st_pending st). P k v))"

definition events_desc :: "(string \<times> json) list \<Rightarrow> Event list" where
  "events_desc c = map (\<lambda>(_, j). the (unmarshal_event j)) (rev (filter (\<lambda>(k, _). HasPrefix k eventPrefix) c))"

definition alerts_desc :: "(string \<times> json) list \<Rightarrow> Alert list" where
  "alerts_desc c = map (\<lambda>(_, j). the (unmarshal_alert j)) (rev (filter (\<lambda>(k, _). HasPrefix k alertPrefix) c))"

lemmas prefix_defs = eventPrefix_def alertPrefix_def tokenPrefix_def

lemma keys_disjoint [simp]:
  "HasPrefix (event_key r e) eventPrefix" "\<not> HasPrefix (event_key r e) alertPrefix"
  "\<not> HasPrefix (event_key r e) tokenPrefix"
  "HasPrefix (alert_key a) alertPrefix" "\<not> HasPrefix (alert_key a) eventPrefix"
  "\<not> HasPrefix (alert_key a) tokenPrefix"
  "HasPrefix (agentTokenKey n) tokenPrefix" "\<not> HasPrefix (agentTokenKey n) eventPrefix"
  "\<not> HasPrefix (agentTokenKey n) alertPrefix"
  by (simp_all add: event_key_def alert_key_def agentTokenKey_def prefix_defs)

lemma write_with_context_cases:
  assumes "write_with_context B st t who (k, v, ttl) = (res, st')"
  shows "(who = CtxWins \<and> res = Some ContextDone \<and> st' = st\<lparr>st_pending := st_pending st @ [(k, v, ttl)]\<rparr>) \<or>
    (who = FnWins \<and> (\<exists>err. bd_update B (st_db st) t k v ttl = Inl err \<and> res = Some (BadgerError err) \<and> st' = st)) \<or>
    (who = FnWins \<and> (\<exists>db'. bd_update B (st_db st) t k v ttl = Inr db' \<and> res = None \<and> st' = st\<lparr>st_db := db'\<rparr>))"
  using assms by (auto simp: write_with_context_def split: race.splits sum.splits)

text \<open>Facts that hold of any database behind the interface.\<close>

context badger_db
begin

lemma content_distinct: "distinct (map fst (content db t))"
  using content_sorted [of db t] by (simp add: strict_sorted_iff)

lemma content_in_set: "(k, j) \<in> set (content db t) \<longleftrightarrow> map_of (content db t) k = Some j"
  using content_distinct by simp

lemma update_all:
  assumes "bd_update B db now k v ttl = Inr db'" and "P k v"
    and "\<forall>t k j. map_of (content db t) k = Some j \<longrightarrow> P k j"
  shows "\<forall>t k j. map_of (content db' t) k = Some j \<longrightarrow> P k j"
proof (intro allI impI)
  fix t i j assume i: "map_of (content db' t) i = Some j"
  show "P i j"
  proof (cases "i = k")
    case True
    then show ?thesis using i update_gone [OF assms(1), of t] assms(2) by auto
  next
    case False
    then show ?thesis using i update_other [OF assms(1) False, of t] assms(3) by auto
  qed
qed

lemma bg_complete_all:
  assumes "store_all content P st"
  shows "store_all content P (bg_complete B st t i)"
proof (cases "i < length (st_pending st)")
  case True
  obtain k v ttl where w: "st_pending st ! i = (k, v, ttl)" by (cases "st_pending st ! i") auto
  have "(k, v, ttl) \<in> set (st_pending st)" using True w nth_mem by fastforce
  then have "P k v" using assms by (auto simp: store_all_def)
  moreover have "set (take i (st_pending st) @ drop (Suc i) (st_pending st)) \<subseteq> set (st_pending st)"
    by (auto dest: in_set_takeD in_set_dropD)
  ultimately show ?thesis
    using assms True w update_all [of "st_db st" t k v ttl _ P]
    by (auto simp: store_all_def bg_complete_def Let_def split: sum.splits)
next
  case False
  then show ?thesis using assms by (simp add: bg_complete_def)
qed

end

lemma entry_ok_event: "clock_ok r \<Longrightarrow> marshal_event e = Some j \<Longrightarrow> entry_ok (event_key r e) j"
  by (auto simp: entry_ok_def)

lemma entry_ok_alert: "clock_ok (al_Timestamp a) \<Longrightarrow> marshal_alert a = Some j \<Longrightarrow> entry_ok (alert_key a) j"
  by (auto simp: entry_ok_def)

lemma entry_ok_token: "marshal_token k = Some j \<Longrightarrow> entry_ok (agentTokenKey (tk_NodeID k)) j"
  by (auto simp: entry_ok_def)

text \<open>The reverse scans start above every key the store writes: a key goes on with a digit.\<close>

lemma in_prefix_range_digit: "is_digit d \<Longrightarrow> in_prefix_range p (p @ d # rest)"
  by (auto simp: in_prefix_range_def is_digit_def prefix_le_append less_char_def intro!: less_imp_le)

lemma event_key_range: "clock_ok r \<Longrightarrow> in_prefix_range eventPrefix (event_key r e)"
  unfolding clock_ok_def event_key_def eventPrefix_def
  by (elim conjE, erule (1) format_RFC3339Nano_hd) (use in_prefix_range_digit [of _ "''event:''"] in auto)

lemma alert_key_range: "clock_ok (al_Timestamp a) \<Longrightarrow> in_prefix_range alertPrefix (alert_key a)"
  unfolding clock_ok_def alert_key_def alertPrefix_def
  by (elim conjE, erule (1) format_RFC3339Nano_hd) (use in_prefix_range_digit [of _ "''alert:''"] in auto)

lemma entry_ok_scan:
  "entry_ok k j \<Longrightarrow> HasPrefix k eventPrefix \<Longrightarrow> in_prefix_range eventPrefix k \<and> unmarshal_event j \<noteq> None"
  "entry_ok k j \<Longrightarrow> HasPrefix k alertPrefix \<Longrightarrow> in_prefix_range alertPrefix k \<and> unmarshal_alert j \<noteq> None"
  by (auto simp: entry_ok_def event_key_range alert_key_range dest: unmarshal_marshal_event unmarshal_marshal_alert)

sublocale badger_db \<subseteq> event_listing: db_scan B content listEventsLoop eventPrefix unmarshal_event ev_NodeID
  by unfold_locales simp_all

sublocale badger_db \<subseteq> alert_listing: db_scan B content listAlertsLoop alertPrefix unmarshal_alert al_NodeID
  by unfold_locales simp_all

context badger_db
begin

lemma store_all_content:
  "store_all content P st \<Longrightarrow> (k, j) \<in> set (content (st_db st) t) \<Longrightarrow> P k j"
  by (auto simp: store_all_def content_in_set)

lemma ListEvents_result:
  assumes "store_all content entry_ok st" and "ListEvents B st t who node limit = Inr r"
  shows "r = take (nat limit) (node_matches ev_NodeID node 0 (events_desc (content (st_db st) t)))"
proof -
  obtain snap where v: "bd_view B (st_db st) t = Inr snap"
    and l: "listEventsLoop node limit 0 [] (seek_rev snap (eventPrefix @ [CHR 0xFF])) = Inr r"
    using assms(2) by (auto simp: ListEvents_def read_with_context_def split: race.splits sum.splits)
  show ?thesis
    unfolding events_desc_def
    by (rule event_listing.scan_result [OF v _ l])
      (use store_all_content [OF assms(1)] entry_ok_scan(1) in blast)
qed

lemma ListEvents_returns:
  assumes "store_all content entry_ok st" and "bd_view B (st_db st) t = Inr snap"
    and "\<forall>(k, v) \<in> set snap. \<exists>j. v = Inr j"
  shows "\<exists>r. ListEvents B st t FnWins node limit = Inr r"
  using event_listing.scan_returns [OF assms(2) _ assms(3)] store_all_content [OF assms(1)] entry_ok_scan(1) assms(2)
  by (fastforce simp: ListEvents_def read_with_context_def)

lemma ListAlerts_result:
  assumes "store_all content entry_ok st" and "ListAlerts B st t who node limit = Inr r"
  shows "r = take (nat limit) (node_matches al_NodeID node 0 (alerts_desc (content (st_db st) t)))"
proof -
  obtain snap where v: "bd_view B (st_db st) t = Inr snap"
    and l: "listAlertsLoop node limit 0 [] (seek_rev snap (alertPrefix @ [CHR 0xFF])) = Inr r"
    using assms(2) by (auto simp: ListAlerts_def read_with_context_def split: race.splits sum.splits)
  show ?thesis
    unfolding alerts_desc_def
    by (rule alert_listing.scan_result [OF v _ l])
      (use store_all_content [OF assms(1)] entry_ok_scan(2) in blast)
qed

lemma ListAlerts_returns:
  assumes "store_all content entry_ok st" and "bd_view B (st_db st) t = Inr snap"
    and "\<forall>(k, v) \<in> set snap. \<exists>j. v = Inr j"
  shows "\<exists>r. ListAlerts B st t FnWins node limit = Inr r"
  using alert_listing.scan_returns [OF assms(2) _ assms(3)] store_all_content [OF assms(1)] entry_ok_scan(2) assms(2)
  by (fastforce simp: ListAlerts_def read_with_context_def)

end

lemma List_CtxWins:
  "ListEvents B st t CtxWins node limit = Inl ContextDone"
  "ListAlerts B st t CtxWins node limit = Inl ContextDone"
  by (simp_all add: ListEvents_def ListAlerts_def read_with_context_def)

lemma SaveEvent_cases:
  assumes "SaveEvent B st received t who e = (res, st')"
  shows "(marshal_event e = None \<and> res = Some MarshalError \<and> st' = st) \<or>
    (\<exists>val. marshal_event e = Some val \<and> who = CtxWins \<and> res = Some ContextDone \<and>
       st' = st\<lparr>st_pending := st_pending st @ [(event_key received e, val, Some (st_retention st))]\<rparr>) \<or>
    (\<exists>val err. marshal_event e = Some val \<and> who = FnWins \<and> res = Some (BadgerError err) \<and> st' = st \<and>
       bd_update B (st_db st) t (event_key received e) val (Some (st_retention st)) = Inl err) \<or>
    (\<exists>val db'. marshal_event e = Some val \<and> who = FnWins \<and> res = None \<and>
       bd_update B (st_db st) t (event_key received e) val (Some (st_retention st)) = Inr db' \<and>
       st' = st\<lparr>st_db := db', st_counters := gm_incr (ev_Type e) (st_counters st)\<rparr>)"
  using assms by (auto simp: SaveEvent_def write_with_context_def split: option.splits race.splits sum.splits)

lemma SaveAlert_cases:
  assumes "SaveAlert B st t who a = (res, st')"
  shows "(marshal_alert a = None \<and> res = Some MarshalError \<and> st' = st) \<or>
    (\<exists>val. marshal_alert a = Some val \<and> who = CtxWins \<and> res = Some ContextDone \<and>
       st' = st\<lparr>st_pending := st_pending st @ [(alert_key a, val, Some (st_retention st))]\<rparr>) \<or>
    (\<exists>val err. marshal_alert a = Some val \<and> who = FnWins \<and> res = Some (BadgerError err) \<and> st' = st \<and>
       bd_update B (st_db st) t (alert_key a) val (Some (st_retention st)) = Inl err) \<or>
    (\<exists>val db'. marshal_alert a = Some val \<and> who = FnWins \<and> res = None \<and>
       bd_update B (st_db st) t (alert_key a) val (Some (st_retention st)) = Inr db' \<and>
       st' = st\<lparr>st_db := db'\<rparr>)"
  using assms by (auto simp: SaveAlert_def write_with_context_def split: option.splits race.splits sum.splits)

context badger_db
begin

lemma SaveEvent_all:
  assumes "store_all content entry_ok st" and "clock_ok received" and "SaveEvent B st received t who e = (res, st')"
  shows "store_all content entry_ok st'"
  using SaveEvent_cases [OF assms(3)] assms(1) entry_ok_event [OF assms(2), of e]
    update_all [of "st_db st" t "event_key received e" _ "Some (st_retention st)" _ entry_ok]
  by (auto simp: store_all_def)

lemma SaveAlert_all:
  assumes "store_all content entry_ok st" and "clock_ok (al_Timestamp a)" and "SaveAlert B st t who a = (res, st')"
  shows "store_all content entry_ok st'"
  using SaveAlert_cases [OF assms(3)] assms(1) entry_ok_alert [OF assms(2)]
    update_all [of "st_db st" t "alert_key a" _ "Some (st_retention st)" _ entry_ok]
  by (auto simp: store_all_def)

lemma events_desc_content:
  assumes "store_all content entry_ok st"
  shows "e \<in> set (events_desc (content (st_db st) t)) \<longleftrightarrow>
    (\<exists>r j. clock_ok r \<and> marshal_event e = Some j \<and> map_of (content (st_db st) t) (event_key r e) = Some j)"
proof
  assume "e \<in> set (events_desc (content (st_db st) t))"
  then obtain k j where kj: "(k, j) \<in> set (content (st_db st) t)" "HasPrefix k eventPrefix" "e = the (unmarshal_event j)"
    by (auto simp: events_desc_def)
  with store_all_content [OF assms kj(1)] obtain r e' where "k = event_key r e'" "clock_ok r" "marshal_event e' = Some j"
    by (auto simp: entry_ok_def)
  with kj show "\<exists>r j. clock_ok r \<and> marshal_event e = Some j \<and> map_of (content (st_db st) t) (event_key r e) = Some j"
    by (auto simp: content_in_set unmarshal_marshal_event)
next
  assume "\<exists>r j. clock_ok r \<and> marshal_event e = Some j \<and> map_of (content (st_db st) t) (event_key r e) = Some j"
  then obtain r j where "marshal_event e = Some j" "(event_key r e, j) \<in> set (content (st_db st) t)"
    by (auto simp: content_in_set)
  then show "e \<in> set (events_desc (content (st_db st) t))"
    by (force simp: events_desc_def unmarshal_marshal_event)
qed

lemma alerts_desc_member:
  assumes "marshal_alert a = Some j" and "map_of (content db t) (alert_key a) = Some j"
  shows "a \<in> set (alerts_desc (content db t))"
  using assms by (force simp: alerts_desc_def unmarshal_marshal_alert content_in_set)

lemma alerts_desc_content:
  assumes "store_all content entry_ok st"
  shows "a \<in> set (alerts_desc (content (st_db st) t)) \<longleftrightarrow>
    (\<exists>j. marshal_alert a = Some j \<and> map_of (content (st_db st) t) (alert_key a) = Some j)"
proof
  assume "a \<in> set (alerts_desc (content (st_db st) t))"
  then obtain k j where kj: "(k, j) \<in> set (content (st_db st) t)" "HasPrefix k alertPrefix" "a = the (unmarshal_alert j)"
    by (auto simp: alerts_desc_def)
  with store_all_content [OF assms kj(1)] obtain a' where "k = alert_key a'" "marshal_alert a' = Some j"
    by (auto simp: entry_ok_def)
  with kj show "\<exists>j. marshal_alert a = Some j \<and> map_of (content (st_db st) t) (alert_key a) = Some j"
    by (auto simp: content_in_set unmarshal_marshal_alert)
qed (blast intro: alerts_desc_member)

end

text \<open>Alerts with different ids have different keys, whenever they were raised.\<close>

lemma alert_key_inject: "alert_key a = alert_key b \<Longrightarrow> al_AlertID a = al_AlertID b"
  using format_RFC3339Nano_inject(2) by (fastforce simp: alert_key_def)

section \<open>Order of the listing, and the counters\<close>

lemma event_key_less:
  "0 \<le> r \<Longrightarrow> r div second < r' div second \<Longrightarrow> r' div second < year_9999_end \<Longrightarrow> event_key r e < event_key r' e'"
  by (simp add: event_key_def format_RFC3339Nano_less)

text \<open>The instants at which the events of a listing were received, read off their keys.\<close>

definition received_at :: "(string \<times> json) list \<Rightarrow> time \<Rightarrow> Event \<Rightarrow> bool" where
  "received_at c r e = (clock_ok r \<and> marshal_event e \<noteq> None \<and> map_of c (event_key r e) = marshal_event e)"

definition seconds_desc :: "time list \<Rightarrow> bool" where
  "seconds_desc rs = sorted_wrt (\<lambda>a b. b div second \<le> a div second) rs"

lemma seconds_desc_of_keys:
  assumes "sorted_wrt (>) ks" and "list_all2 (\<lambda>k r. clock_ok r \<and> (\<exists>e. k = event_key r e)) ks rs"
  shows "seconds_desc rs"
  unfolding seconds_desc_def sorted_wrt_iff_nth_less
proof (intro allI impI)
  fix i j assume ij: "i < j" "j < length rs"
  then have len: "i < length ks" "j < length ks" "i < length rs" using assms(2) by (auto dest: list_all2_lengthD)
  obtain e where i: "clock_ok (rs ! i)" "ks ! i = event_key (rs ! i) e"
    using list_all2_nthD2 [OF assms(2) len(3)] by auto
  obtain e' where j: "clock_ok (rs ! j)" "ks ! j = event_key (rs ! j) e'"
    using list_all2_nthD2 [OF assms(2) ij(2)] by auto
  have less: "ks ! j < ks ! i" using assms(1) ij(1) len(2) by (simp add: sorted_wrt_iff_nth_less)
  show "rs ! j div second \<le> rs ! i div second"
  proof (rule ccontr)
    assume "\<not> rs ! j div second \<le> rs ! i div second"
    then have "ks ! i < ks ! j"
      using i j event_key_less [of "rs ! i" "rs ! j" e e'] by (simp add: clock_ok_def)
    with less show False by simp
  qed
qed

lemma received_filter:
  "list_all2 R rs es \<Longrightarrow> sorted_wrt Q rs \<Longrightarrow>
    \<exists>rs'. list_all2 R rs' (filter P es) \<and> sorted_wrt Q rs' \<and> set rs' \<subseteq> set rs"
proof (induction rs es rule: list_all2_induct)
  case (Cons r rs e es)
  then obtain rs' where "list_all2 R rs' (filter P es)" "sorted_wrt Q rs'" "set rs' \<subseteq> set rs" by auto
  with Cons show ?case by (cases "P e") (force intro: exI [of _ "r # rs'"])+
qed simp

lemma received_take:
  "list_all2 R rs es \<and> seconds_desc rs \<Longrightarrow> list_all2 R (take n rs) (take n es) \<and> seconds_desc (take n rs)"
  by (simp add: seconds_desc_def sorted_wrt_take)

lemma received_node_matches:
  assumes "list_all2 R rs es" and "seconds_desc rs"
  shows "\<exists>rs'. list_all2 R rs' (node_matches node_of node n es) \<and> seconds_desc rs'"
proof (cases "node = []")
  case True
  then show ?thesis using assms by (auto simp: node_matches_def)
next
  case False
  have "list_all2 R (take (maxNodeFilterScan - n) rs) (take (maxNodeFilterScan - n) es)"
      "seconds_desc (take (maxNodeFilterScan - n) rs)"
    using received_take assms by blast+
  from received_filter [OF this [unfolded seconds_desc_def]] False show ?thesis
    unfolding node_matches_def seconds_desc_def by auto
qed

fun occurs :: "('a \<Rightarrow> bool) \<Rightarrow> 'a list \<Rightarrow> int" where
  "occurs P [] = 0"
| "occurs P (x # xs) = (if P x then 1 else 0) + occurs P xs"

lemma occurs_append [simp]: "occurs P (xs @ ys) = occurs P xs + occurs P ys"
  by (induction xs) auto

lemma occurs_rev [simp]: "occurs P (rev xs) = occurs P xs"
  by (induction xs) auto

lemma loadCountersLoop_takeWhile:
  "loadCountersLoop cs items = loadCountersLoop cs (takeWhile (\<lambda>(k, _). HasPrefix k eventPrefix) items)"
  by (induction cs items rule: loadCountersLoop.induct) (auto split: option.split sum.split)

lemma loadCountersLoop_result:
  assumes "list_all2 (\<lambda>(k, v) e. HasPrefix k eventPrefix \<and> (\<forall>j. v = Inr j \<longrightarrow> unmarshal_event j = Some e)) items es"
    and "loadCountersLoop cs items = Inr cs'"
  shows "gm_count cs' y = gm_count cs y + occurs (\<lambda>e. ev_Type e = y) es"
  using assms
  by (induction items es arbitrary: cs rule: list_all2_induct) (auto split: sum.splits)

lemma loadCountersLoop_returns:
  assumes "list_all2 (\<lambda>(k, v) e. HasPrefix k eventPrefix \<and> (\<forall>j. v = Inr j \<longrightarrow> unmarshal_event j = Some e)) items es"
    and "\<forall>(k, v) \<in> set items. \<exists>j. v = Inr j"
  shows "\<exists>cs'. loadCountersLoop cs items = Inr cs'"
  using assms
  by (induction items es arbitrary: cs rule: list_all2_induct) auto

context badger_db
begin

lemma events_received:
  assumes "store_all content entry_ok st"
  shows "\<exists>rs. list_all2 (received_at (content (st_db st) t)) rs (events_desc (content (st_db st) t)) \<and> seconds_desc rs"
proof -
  let ?c = "content (st_db st) t"
  let ?items = "rev (filter (\<lambda>(k, _). HasPrefix k eventPrefix) ?c)"
  have "\<exists>r e. k = event_key r e \<and> clock_ok r \<and> marshal_event e = Some j" if "(k, j) \<in> set ?items" for k j
    using store_all_content [OF assms, of k j t] that by (auto simp: entry_ok_def)
  then obtain f g where fg: "\<And>k j. (k, j) \<in> set ?items \<Longrightarrow>
      k = event_key (f k j) (g k j) \<and> clock_ok (f k j) \<and> marshal_event (g k j) = Some j" by metis
  let ?rs = "map (\<lambda>(k, j). f k j) ?items"
  have "list_all2 (received_at ?c) ?rs (events_desc ?c)"
    unfolding events_desc_def list_all2_map1 list_all2_map2 list_all2_same
  proof (intro ballI)
    fix kj assume "kj \<in> set ?items"
    moreover obtain k j where "kj = (k, j)" by (cases kj)
    ultimately show "received_at ?c (case kj of (k, j) \<Rightarrow> f k j) (case kj of (_, j) \<Rightarrow> the (unmarshal_event j))"
      using fg [of k j] by (auto simp: received_at_def unmarshal_marshal_event content_in_set)
  qed
  moreover have "seconds_desc ?rs"
  proof (rule seconds_desc_of_keys)
    show "sorted_wrt (>) (map fst ?items)"
      using sorted_wrt_map_filter [OF content_sorted] by (simp add: rev_map [symmetric] sorted_wrt_rev)
    show "list_all2 (\<lambda>k r. clock_ok r \<and> (\<exists>e. k = event_key r e)) (map fst ?items) ?rs"
      unfolding list_all2_map1 list_all2_map2 list_all2_same using fg by fastforce
  qed
  ultimately show ?thesis by blast
qed

text \<open>The records a forward scan of a prefix meets.\<close>

lemma fwd_items:
  assumes "bd_view B db t = Inr snap"
    and dec: "\<And>k j. (k, j) \<in> set (content db t) \<Longrightarrow> HasPrefix k p \<Longrightarrow> dec j \<noteq> None"
  shows "list_all2 (\<lambda>(k, v) x. HasPrefix k p \<and> (\<forall>j. v = Inr j \<longrightarrow> dec j = Some x))
    (takeWhile (\<lambda>(k, _). HasPrefix k p) (seek_fwd snap p))
    (map (\<lambda>(_, j). the (dec j)) (filter (\<lambda>(k, _). HasPrefix k p) (content db t)))"
proof -
  let ?R = "\<lambda>(k, v) (k', j). k = k' \<and> (v = Inr j \<or> (\<exists>e. v = Inl e))"
  have "list_all2 ?R (takeWhile (\<lambda>(k, _). HasPrefix k p) (seek_fwd snap p))
      (takeWhile (\<lambda>(k, _). HasPrefix k p) (dropWhile (\<lambda>(k, _). k < p) (content db t)))"
    unfolding seek_fwd_def using view_content [OF assms(1)]
    by (intro list_all2_takeWhile list_all2_dropWhile) auto
  then have "list_all2 ?R (takeWhile (\<lambda>(k, _). HasPrefix k p) (seek_fwd snap p))
      (filter (\<lambda>(k, _). HasPrefix k p) (content db t))"
    unfolding fwd_scan_filter [OF content_sorted] .
  then show ?thesis
    unfolding list_all2_map2 by (rule list.rel_mono_strong) (use dec in fastforce)
qed

lemma event_items:
  assumes "\<forall>(k, j) \<in> set (content db t). entry_ok k j" and "bd_view B db t = Inr snap"
  shows "list_all2 (\<lambda>(k, v) e. HasPrefix k eventPrefix \<and> (\<forall>j. v = Inr j \<longrightarrow> unmarshal_event j = Some e))
      (takeWhile (\<lambda>(k, _). HasPrefix k eventPrefix) (seek_fwd snap eventPrefix))
      (map (\<lambda>(_, j). the (unmarshal_event j)) (filter (\<lambda>(k, _). HasPrefix k eventPrefix) (content db t)))"
  by (rule fwd_items [OF assms(2)]) (use assms(1) entry_ok_scan(1) in blast)

lemma loadCounters_counts:
  assumes "\<forall>(k, j) \<in> set (content db t). entry_ok k j"
    and "loadCounters B db t cs = Inr cs'"
  shows "gm_count cs' y = gm_count cs y + occurs (\<lambda>e. ev_Type e = y) (events_desc (content db t))"
proof -
  obtain snap where v: "bd_view B db t = Inr snap" and l: "loadCountersLoop cs (seek_fwd snap eventPrefix) = Inr cs'"
    using assms(2) by (auto simp: loadCounters_def split: sum.splits)
  from loadCountersLoop_result [OF event_items [OF assms(1) v], of cs cs' y] l show ?thesis
    by (simp add: loadCountersLoop_takeWhile [symmetric] events_desc_def rev_map [symmetric])
qed

lemma store_New_counts:
  assumes "\<forall>(k, j) \<in> set (content db t). entry_ok k j" and "store_New B (Inr db) t = Inr st"
  shows "gm_count (Stats st) y = occurs (\<lambda>e. ev_Type e = y) (events_desc (content db t))"
proof -
  have "loadCounters B db t [(''exec'', 0), (''tcp'', 0), (''file'', 0)] = Inr (st_counters st)"
    using assms(2) by (auto simp: store_New_def split: sum.splits)
  from loadCounters_counts [OF assms(1) this, of y] show ?thesis by (simp add: Stats_def gm_count_def)
qed

text \<open>A sound database that can be read can be opened.\<close>

lemma store_New_returns:
  assumes "\<forall>(k, j) \<in> set (content db t). entry_ok k j" and "bd_view B db t = Inr snap"
    and "\<forall>(k, v) \<in> set snap. \<exists>j. v = Inr j"
  shows "\<exists>st. store_New B (Inr db) t = Inr st"
proof -
  have "\<forall>(k, v) \<in> set (takeWhile (\<lambda>(k, _). HasPrefix k eventPrefix) (seek_fwd snap eventPrefix)). \<exists>j. v = Inr j"
    using assms(3) by (auto simp: seek_fwd_def dest!: set_takeWhileD set_dropWhileD)
  from loadCountersLoop_returns [OF event_items [OF assms(1,2)] this, of "[(''exec'', 0), (''tcp'', 0), (''file'', 0)]"]
  show ?thesis using assms(2) by (auto simp: loadCountersLoop_takeWhile [symmetric] store_New_def loadCounters_def)
qed

end

section \<open>Runs of the garbage collector\<close>

lemma gc_stepE:
  assumes "runValueLogGC B l x = Some y"
  obtains (stop) d where "l = GcStop" "x = (GcSelect, d)" "y = (GcReturned, d)"
  | (tick) d where "l = GcTick" "x = (GcSelect, d)" "y = (GcRound, d)"
  | (rewrote) d d' where "l = GcRewrote" "x = (GcRound, d)" "y = (GcRound, d')" "bd_gc B d = Inr d'"
  | (failed) d err where "l = GcFailed" "x = (GcRound, d)" "y = (GcSelect, d)" "bd_gc B d = Inl err"
  using assms by (cases x; cases "fst x"; cases l) (auto split: sum.splits)

lemma gc_run_rounds:
  assumes "gc_run B db ls x"
  shows "\<exists>rounds rest. filter (\<lambda>l. l \<noteq> GcOther) ls =
      concat (map (\<lambda>n. GcTick # replicate n GcRewrote @ [GcFailed]) rounds) @ rest \<and>
    (case fst x of GcSelect \<Rightarrow> rest = [] | GcReturned \<Rightarrow> rest = [GcStop] | GcRound \<Rightarrow> \<exists>n. rest = GcTick # replicate n GcRewrote)"
  using assms
proof induction
  case start
  show ?case by (intro exI [of _ "[]"]) simp
next
  case (own ls x l y)
  obtain rounds rest where ls: "filter (\<lambda>l. l \<noteq> GcOther) ls = concat (map (\<lambda>n. GcTick # replicate n GcRewrote @ [GcFailed]) rounds) @ rest"
    and rest: "case fst x of GcSelect \<Rightarrow> rest = [] | GcReturned \<Rightarrow> rest = [GcStop] | GcRound \<Rightarrow> \<exists>n. rest = GcTick # replicate n GcRewrote"
    using own.IH by blast
  from own.hyps(2) show ?case
  proof (cases rule: gc_stepE)
    case stop
    then show ?thesis using ls rest by (intro exI [of _ rounds] exI [of _ "[GcStop]"]) simp
  next
    case tick
    then show ?thesis using ls rest by (intro exI [of _ rounds] exI [of _ "[GcTick]"]) simp
  next
    case rewrote
    then obtain n where "rest = GcTick # replicate n GcRewrote" using rest by auto
    then have "\<exists>n. rest @ [GcRewrote] = GcTick # replicate n GcRewrote"
      by (intro exI [of _ "Suc n"]) (simp add: replicate_append_same)
    then show ?thesis using rewrote ls by (intro exI [of _ rounds] exI [of _ "rest @ [GcRewrote]"]) auto
  next
    case failed
    then obtain n where "rest = GcTick # replicate n GcRewrote" using rest by auto
    then show ?thesis using failed ls by (intro exI [of _ "rounds @ [n]"] exI [of _ "[]"]) simp
  qed
qed auto

section \<open>Properties\<close>

definition demo_store :: "mem_db Store" where
  "demo_store = \<lparr>st_db = [], st_retention = DefaultRetention, st_counters = [], st_pending = [], st_gcStopped = False\<rparr>"

lemma demo_store_ok: "store_all mem_content entry_ok demo_store"
  by (simp add: store_all_def demo_store_def mem_content_def)

text \<open>
  C18: \<^verbatim>\<open>ListEvents\<close>, over a database whose entries the store wrote: whenever it succeeds it returns
  the first \<open>limit\<close> (none for a limit that is not positive) of the live events in descending key order,
  only those of the requested node among the first 10000 when a node is given. It succeeds whenever
  the read transaction does and every value can be read, and returns the context's error when the
  context ends first.
\<close>

theorem ListEvents_spec:
  assumes "badger_db B content" and "store_all content entry_ok st"
  shows "(\<forall>who r. ListEvents B st t who node limit = Inr r \<longrightarrow>
      r = take (nat limit) (node_matches ev_NodeID node 0 (events_desc (content (st_db st) t)))) \<and>
    (\<forall>snap. bd_view B (st_db st) t = Inr snap \<and> (\<forall>(k, v) \<in> set snap. \<exists>j. v = Inr j) \<longrightarrow>
      (\<exists>r. ListEvents B st t FnWins node limit = Inr r)) \<and>
    ListEvents B st t CtxWins node limit = Inl ContextDone"
  using badger_db.ListEvents_result [OF assms] badger_db.ListEvents_returns [OF assms] List_CtxWins(1)
  by blast

theorem ListEvents_spec_witness:
  "ListEvents mem_badger demo_store 5 FnWins ''n1'' 10 = Inr []"
proof -
  note spec = ListEvents_spec [OF mem.badger_db_axioms demo_store_ok, of 5 "''n1''" 10]
  have "bd_view mem_badger (st_db demo_store) 5 = Inr []"
    by (simp add: mem_badger_def mem_view_def demo_store_def mem_content_def)
  with spec obtain r where r: "ListEvents mem_badger demo_store 5 FnWins ''n1'' 10 = Inr r"
    by fastforce
  with spec have "r = take (nat 10) (node_matches ev_NodeID ''n1'' 0 (events_desc (mem_content (st_db demo_store) 5)))"
    by blast
  then have "r = []" by (simp add: node_matches_def events_desc_def demo_store_def mem_content_def)
  with r show ?thesis by simp
qed

text \<open>
  \<^verbatim>\<open>ListAlerts\<close> returns the live alerts in the same way: descending key order, the first \<open>limit\<close> of
  them, filtered by node within the first 10000.
\<close>

lemma ListAlerts_spec:
  assumes "badger_db B content" and "store_all content entry_ok st"
  shows "(\<forall>who r. ListAlerts B st t who node limit = Inr r \<longrightarrow>
      r = take (nat limit) (node_matches al_NodeID node 0 (alerts_desc (content (st_db st) t)))) \<and>
    (\<forall>snap. bd_view B (st_db st) t = Inr snap \<and> (\<forall>(k, v) \<in> set snap. \<exists>j. v = Inr j) \<longrightarrow>
      (\<exists>r. ListAlerts B st t FnWins node limit = Inr r)) \<and>
    ListAlerts B st t CtxWins node limit = Inl ContextDone"
  using badger_db.ListAlerts_result [OF assms] badger_db.ListAlerts_returns [OF assms] List_CtxWins(2)
  by blast

text \<open>
  The number of live entries of a key space that come before the key \<open>k\<close> in a listing: those with a greater key.
  An entry is among the first \<open>n\<close> of the listing when there are fewer than \<open>n\<close> of them.
\<close>

definition listed_before :: "(string \<times> json) list \<Rightarrow> string \<Rightarrow> string \<Rightarrow> nat" where
  "listed_before c p k = length (filter (\<lambda>(k', _). HasPrefix k' p \<and> k < k') c)"

lemma listed_within:
  assumes "sorted_wrt (<) (map fst c)" and "(k, j) \<in> set c" and "HasPrefix k p" and "listed_before c p k < n"
  shows "(k, j) \<in> set (take n (rev (filter (\<lambda>(k, _). HasPrefix k p) c)))"
proof -
  obtain xs ys where c: "c = xs @ (k, j) # ys" using split_list [OF assms(2)] by blast
  have "\<forall>(k', _) \<in> set xs. \<not> k < k'" "\<forall>(k', _) \<in> set ys. k < k'"
    using assms(1) by (fastforce simp: c sorted_wrt_append)+
  then have "filter (\<lambda>(k', _). HasPrefix k' p \<and> k < k') xs = []"
    "filter (\<lambda>(k', _). HasPrefix k' p \<and> k < k') ys = filter (\<lambda>(k', _). HasPrefix k' p) ys"
    by (auto simp: filter_empty_conv intro: filter_cong)
  then have "length (filter (\<lambda>(k', _). HasPrefix k' p) ys) < n"
    using assms(4) by (simp add: listed_before_def c)
  then show ?thesis using assms(3) by (simp add: c take_Cons')
qed

lemma node_matches_within:
  assumes "x \<in> set (take n xs)" and "n \<le> maxNodeFilterScan" and "node \<in> {[], node_of x}"
  shows "x \<in> set (take n (node_matches node_of node 0 xs))"
proof (cases "node = []")
  case False
  let ?P = "\<lambda>x. node_of x = node"
  obtain zs where "take maxNodeFilterScan xs = take n xs @ zs"
    using assms(2) by (metis le_add_diff_inverse take_add)
  moreover have "take n (filter ?P (take n xs) @ filter ?P zs) =
      filter ?P (take n xs) @ take (n - length (filter ?P (take n xs))) (filter ?P zs)"
    using length_filter_le [of ?P "take n xs"] by simp
  ultimately have "set (filter ?P (take n xs)) \<subseteq> set (take n (filter ?P (take maxNodeFilterScan xs)))" by simp
  then show ?thesis using False assms(1,3) by (auto simp: node_matches_def)
qed (use assms(1) in \<open>simp add: node_matches_def\<close>)

context badger_db
begin

lemma event_listed:
  assumes "store_all content entry_ok st" and "map_of (content (st_db st) t) (event_key r e) = Some j" and "marshal_event e = Some j"
    and "ListEvents B st t who node limit = Inr es" and "node \<in> {[], ev_NodeID e}"
    and "listed_before (content (st_db st) t) eventPrefix (event_key r e) < nat limit" and "nat limit \<le> maxNodeFilterScan"
  shows "e \<in> set es"
proof -
  have "(event_key r e, j) \<in> set (take (nat limit) (rev (filter (\<lambda>(k, _). HasPrefix k eventPrefix) (content (st_db st) t))))"
    by (rule listed_within [OF content_sorted _ _ assms(6)]) (use assms(2) in \<open>simp_all add: content_in_set\<close>)
  then have "e \<in> set (take (nat limit) (events_desc (content (st_db st) t)))"
    unfolding events_desc_def take_map using assms(3) by (force simp: unmarshal_marshal_event)
  from node_matches_within [OF this assms(7), of node ev_NodeID] assms(5) ListEvents_result [OF assms(1,4)] show ?thesis by simp
qed

lemma alert_listed:
  assumes "store_all content entry_ok st" and "map_of (content (st_db st) t) (alert_key a) = Some j" and "marshal_alert a = Some j"
    and "ListAlerts B st t who node limit = Inr als" and "node \<in> {[], al_NodeID a}"
    and "listed_before (content (st_db st) t) alertPrefix (alert_key a) < nat limit" and "nat limit \<le> maxNodeFilterScan"
  shows "a \<in> set als"
proof -
  have "(alert_key a, j) \<in> set (take (nat limit) (rev (filter (\<lambda>(k, _). HasPrefix k alertPrefix) (content (st_db st) t))))"
    by (rule listed_within [OF content_sorted _ _ assms(6)]) (use assms(2) in \<open>simp_all add: content_in_set\<close>)
  then have "a \<in> set (take (nat limit) (alerts_desc (content (st_db st) t)))"
    unfolding alerts_desc_def take_map using assms(3) by (force simp: unmarshal_marshal_alert)
  from node_matches_within [OF this assms(7), of node al_NodeID] assms(5) ListAlerts_result [OF assms(1,4)] show ?thesis by simp
qed

end

text \<open>A saved event in the reference database, for the concrete instances.\<close>

definition demo_saved :: "string \<Rightarrow> time \<Rightarrow> mem_db Store \<Rightarrow> mem_db Store" where
  "demo_saved i received st = snd (SaveEvent mem_badger st received received FnWins (demo_event i ''n1'' ''exec''))"

lemma demo_saved_ok:
  assumes "store_all mem_content entry_ok st" and "clock_ok received"
  shows "SaveEvent mem_badger st received received FnWins (demo_event i ''n1'' ''exec'') =
      (None, demo_saved i received st)"
    and "store_all mem_content entry_ok (demo_saved i received st)"
proof -
  obtain j where "marshal_event (demo_event i ''n1'' ''exec'') = Some j" using demo_event_marshals by blast
  then show "SaveEvent mem_badger st received received FnWins (demo_event i ''n1'' ''exec'') =
      (None, demo_saved i received st)"
    by (simp add: demo_saved_def SaveEvent_def write_with_context_def mem_badger_def mem_update_def)
  then show "store_all mem_content entry_ok (demo_saved i received st)"
    using mem.SaveEvent_all [OF assms] by blast
qed

lemma demo_clock: "clock_ok (time_unix0 0)" "clock_ok (time_unix0 1)"
  by (simp_all add: clock_ok_def time_unix0_def second_def year_9999_end_def)

text \<open>Of two entries the one with the smaller key comes first in the content, and the other first in a listing.\<close>

lemma sorted_keys_split:
  assumes "sorted_wrt (<) (map fst c)" and "(k1, v1) \<in> set c" and "(k2, v2) \<in> set c" and "k1 < (k2 :: string)"
  shows "\<exists>xs ys zs. c = xs @ (k1, v1) # ys @ (k2, v2) # zs"
proof -
  obtain xs rest where c: "c = xs @ (k1, v1) # rest" using split_list [OF assms(2)] by blast
  have "k < k1" if "(k, v) \<in> set xs" for k v using assms(1) that by (fastforce simp: c sorted_wrt_append)
  then have "(k2, v2) \<notin> set xs" using assms(4) by (meson order.asym)
  then have "(k2, v2) \<in> set rest" using assms(3,4) by (auto simp: c)
  then obtain ys zs where "rest = ys @ (k2, v2) # zs" using split_list by fast
  with c show ?thesis by blast
qed

context badger_db
begin

lemma events_desc_order:
  assumes "received_at (content db t) r1 e1" and "received_at (content db t) r2 e2" and "event_key r1 e1 < event_key r2 e2"
  shows "\<exists>xs ys zs. events_desc (content db t) = xs @ e2 # ys @ e1 # zs"
proof -
  obtain j1 j2 where j: "marshal_event e1 = Some j1" "marshal_event e2 = Some j2" using assms(1,2) by (auto simp: received_at_def)
  then have "(event_key r1 e1, j1) \<in> set (content db t)" "(event_key r2 e2, j2) \<in> set (content db t)"
    using assms(1,2) by (simp_all add: received_at_def content_in_set)
  from sorted_keys_split [OF content_sorted this assms(3)] obtain xs ys zs
    where "content db t = xs @ (event_key r1 e1, j1) # ys @ (event_key r2 e2, j2) # zs" by blast
  then show ?thesis using j by (simp add: events_desc_def unmarshal_marshal_event) blast
qed

end

text \<open>
  C28: the order of a listing. Every listing of events comes with the instants at which the collector
  received them (the ones in their keys), and from one event to any later one in the listing the second
  of reception never increases, with or without a node filter: newest first, to the second. Within a
  second the order is wrong: an event received at a whole second is always listed before one received
  later in the same second, although it is the older one. \<^verbatim>\<open>RFC3339Nano\<close> leaves the fraction out of a
  whole second, and \<^verbatim>\<open>Z\<close> is above \<^verbatim>\<open>.\<close>.
\<close>

theorem ListEvents_order:
  assumes "badger_db B content" and "store_all content entry_ok st"
    and "ListEvents B st t who node limit = Inr r"
  shows "(\<exists>rs. list_all2 (received_at (content (st_db st) t)) rs r \<and> seconds_desc rs) \<and>
    (node = [] \<and> length (events_desc (content (st_db st) t)) \<le> nat limit \<and> 0 < f \<and> f < second \<and>
      received_at (content (st_db st) t) (s * second) older \<and> received_at (content (st_db st) t) (s * second + f) newer \<longrightarrow>
      (\<exists>xs ys zs. r = xs @ older # ys @ newer # zs))"
proof (intro conjI impI; (elim conjE)?)
  note r = badger_db.ListEvents_result [OF assms]
  obtain rs where "list_all2 (received_at (content (st_db st) t)) rs (events_desc (content (st_db st) t))"
      "seconds_desc rs"
    using badger_db.events_received [OF assms(1,2)] by blast
  from received_node_matches [OF this, of ev_NodeID node 0] received_take
  show "\<exists>rs. list_all2 (received_at (content (st_db st) t)) rs r \<and> seconds_desc rs" unfolding r by blast
  assume "node = []" "length (events_desc (content (st_db st) t)) \<le> nat limit" and f: "0 < f" "f < second"
    and e: "received_at (content (st_db st) t) (s * second) older" "received_at (content (st_db st) t) (s * second + f) newer"
  then have l: "r = events_desc (content (st_db st) t)" by (simp add: r node_matches_def)
  have "event_key (s * second + f) newer < event_key (s * second) older"
    using format_RFC3339Nano_whole_second [OF f] by (simp add: event_key_def)
  then show "\<exists>xs ys zs. r = xs @ older # ys @ newer # zs" unfolding l by (rule badger_db.events_desc_order [OF assms(1) e(2,1)])
qed

text \<open>
  What is saved is read back. After \<^verbatim>\<open>SaveEvent\<close> succeeded at \<open>now\<close>, every successful listing of the store it
  leaves, unfiltered or for the event's node, returns the very event, whatever its own timestamp says, until a second
  before the retention ends, provided fewer live events than the limit (at most the scan cap) have a greater
  key; from the end of the retention on its entry is gone. Every other entry of the database is at every instant
  what it was, and the counter of the event's type has gone up by one, no other counter has changed.
\<close>

lemma saved_event_read_back:
  assumes "badger_db B content" and "store_all content entry_ok st" and "clock_ok received"
    and "SaveEvent B st received now who e = (None, st')"
  shows "(t + second \<le> now + st_retention st \<and> ListEvents B st' t who' node limit = Inr r \<and> node \<in> {[], ev_NodeID e} \<and>
      listed_before (content (st_db st') t) ''event:'' (event_key received e) < nat limit \<and> limit \<le> 10000 \<longrightarrow> e \<in> set r) \<and>
    (now + st_retention st \<le> t \<longrightarrow> map_of (content (st_db st') t) (event_key received e) = None) \<and>
    (\<forall>k. k \<noteq> event_key received e \<longrightarrow> map_of (content (st_db st') t) k = map_of (content (st_db st) t) k) \<and>
    (\<forall>y. gm_count (Stats st') y = gm_count (Stats st) y + (if y = ev_Type e then 1 else 0))"
proof -
  obtain val db' where v: "marshal_event e = Some val"
    and u: "bd_update B (st_db st) now (event_key received e) val (Some (st_retention st)) = Inr db'"
    and st': "st_db st' = db'" "st_counters st' = gm_incr (ev_Type e) (st_counters st)"
    using SaveEvent_cases [OF assms(4)] by auto
  note all = badger_db.SaveEvent_all [OF assms]
  have "e \<in> set r" if "t + second \<le> now + st_retention st" "ListEvents B st' t who' node limit = Inr r" "node \<in> {[], ev_NodeID e}"
    "listed_before (content (st_db st') t) ''event:'' (event_key received e) < nat limit" "limit \<le> 10000"
    using badger_db.event_listed [OF assms(1) all _ v that(2,3), of received] badger_db.update_same [OF assms(1) u, of t] that(1,4,5) st'
    by (simp add: live_until_def maxNodeFilterScan_def eventPrefix_def)
  then show ?thesis
    using badger_db.update_expired [OF assms(1) u, of t] badger_db.update_other [OF assms(1) u, of _ t] st' by (auto simp: Stats_def)
qed

definition demo_two :: "mem_db Store" where
  "demo_two = demo_saved ''b'' (time_unix0 1) (demo_saved ''a'' (time_unix0 0) demo_store)"

theorem ListEvents_order_witness:
  "\<exists>r xs ys zs. ListEvents mem_badger demo_two (time_unix0 5) FnWins [] 10 = Inr r \<and>
    r = xs @ demo_event ''a'' ''n1'' ''exec'' # ys @ demo_event ''b'' ''n1'' ''exec'' # zs"
proof -
  let ?a = "demo_event ''a'' ''n1'' ''exec''" and ?b = "demo_event ''b'' ''n1'' ''exec''" and ?t = "time_unix0 5"
  have ok: "store_all mem_content entry_ok demo_two"
    unfolding demo_two_def by (intro demo_saved_ok(2) demo_store_ok demo_clock)
  obtain r where r: "ListEvents mem_badger demo_two ?t FnWins [] 10 = Inr r"
    using mem.ListEvents_returns [OF ok, of ?t] by (fastforce simp: mem_badger_def mem_view_def)
  obtain ja jb where j: "marshal_event ?a = Some ja" "marshal_event ?b = Some jb" using demo_event_marshals by blast
  have db: "st_db demo_two = [(event_key (time_unix0 1) ?b, jb, Some (time_unix0 1 + DefaultRetention)),
      (event_key (time_unix0 0) ?a, ja, Some (time_unix0 0 + DefaultRetention))]"
    using j by (simp add: demo_two_def demo_saved_def SaveEvent_def write_with_context_def mem_badger_def mem_update_def demo_store_def)
  have "event_key (time_unix0 1) ?b < event_key (time_unix0 0) ?a"
    using format_RFC3339Nano_whole_second [of 1 62135596800] by (simp add: event_key_def time_unix0_def second_def)
  then have e: "received_at (mem_content (st_db demo_two) ?t) (time_unix0 0) ?a" "received_at (mem_content (st_db demo_two) ?t) (time_unix0 1) ?b"
    using j demo_clock unfolding received_at_def db mem_content_get
    by (auto simp: mem_live_def DefaultRetention_def time_unix0_def duration_units)
  have len: "length (events_desc (mem_content (st_db demo_two) ?t)) \<le> nat 10"
    unfolding db by (simp add: events_desc_def mem_content_def le_trans [OF length_filter_le])
  have s: "62135596800 * second = time_unix0 0" "time_unix0 0 + 1 = time_unix0 1"
    by (simp_all add: time_unix0_def second_def)
  from ListEvents_order [OF mem.badger_db_axioms ok r, THEN conjunct2, of 1 62135596800 ?a ?b] e len
  show ?thesis unfolding s using r by (auto simp: second_def)
qed

text \<open>
  The counters count: a \<^verbatim>\<open>SaveEvent\<close> that succeeds adds one to its type and nothing to the others,
  one that fails changes no counter; and a store opened on a database starts with the number of its
  live events of each type.
\<close>

lemma Stats_counts:
  assumes "badger_db B content"
  shows "(SaveEvent B st received now who e = (res, st') \<longrightarrow>
      gm_count (Stats st') y = gm_count (Stats st) y + (if res = None \<and> y = ev_Type e then 1 else 0)) \<and>
    ((\<forall>(k, j) \<in> set (content db t). entry_ok k j) \<and> store_New B (Inr db) t = Inr st0 \<longrightarrow>
      gm_count (Stats st0) y = occurs (\<lambda>e. ev_Type e = y) (events_desc (content db t)))"
proof (intro conjI impI)
  assume "SaveEvent B st received now who e = (res, st')"
  from SaveEvent_cases [OF this]
  show "gm_count (Stats st') y = gm_count (Stats st) y + (if res = None \<and> y = ev_Type e then 1 else 0)"
    by (auto simp: Stats_def)
next
  assume a: "(\<forall>(k, j) \<in> set (content db t). entry_ok k j) \<and> store_New B (Inr db) t = Inr st0"
  then show "gm_count (Stats st0) y = occurs (\<lambda>e. ev_Type e = y) (events_desc (content db t))"
    by (intro badger_db.store_New_counts [OF assms]) auto
qed

text \<open>
  C36: the counters can also run low: when the context ends before the database has written the event,
  \<^verbatim>\<open>SaveEvent\<close> reports an error and counts nothing, but the write goes on in the background; once it has
  been performed the event is in the database and listed, and no counter includes it.
\<close>

theorem abandoned_write_is_stored_uncounted:
  assumes "badger_db B content" and "store_all content entry_ok st" and "clock_ok received"
    and "marshal_event e = Some val"
    and "bd_update B (st_db st) t' (event_key received e) val (Some (st_retention st)) = Inr db'"
    and "t + second \<le> t' + st_retention st"
  shows "\<exists>st'. SaveEvent B st received now CtxWins e = (Some ContextDone, st') \<and>
    (let st'' = bg_complete B st' t' (length (st_pending st)) in
      e \<in> set (events_desc (content (st_db st'') t)) \<and> Stats st'' = Stats st)"
proof -
  let ?w = "(event_key received e, val, Some (st_retention st))"
  let ?st' = "st\<lparr>st_pending := st_pending st @ [?w]\<rparr>"
  let ?st'' = "bg_complete B ?st' t' (length (st_pending st))"
  have s: "SaveEvent B st received now CtxWins e = (Some ContextDone, ?st')"
    by (simp add: SaveEvent_def write_with_context_def assms(4))
  have b: "st_db ?st'' = db'" "Stats ?st'' = Stats st"
    using assms(5) by (simp_all add: bg_complete_def Stats_def)
  have all: "store_all content entry_ok ?st''"
    using badger_db.bg_complete_all [OF assms(1)] badger_db.SaveEvent_all [OF assms(1-3) s] by blast
  have "map_of (content db' t) (event_key received e) = Some val"
    using badger_db.update_same [OF assms(1,5), of t] assms(6) by (simp add: live_until_def)
  then have "e \<in> set (events_desc (content (st_db ?st'') t))"
    using badger_db.events_desc_content [OF assms(1) all, of e t] assms(3,4) b by auto
  with s b show ?thesis by (auto simp: Let_def)
qed

theorem abandoned_write_is_stored_uncounted_witness:
  "\<exists>st'. SaveEvent mem_badger demo_store (time_unix0 0) 0 CtxWins (demo_event ''e'' ''n'' ''exec'') = (Some ContextDone, st') \<and>
    Stats (bg_complete mem_badger st' (time_unix0 0) 0) = []"
proof -
  obtain val where v: "marshal_event (demo_event ''e'' ''n'' ''exec'') = Some val" using demo_event_marshals by blast
  have "time_unix0 0 + second \<le> time_unix0 0 + st_retention demo_store"
    by (simp add: demo_store_def DefaultRetention_def duration_units)
  from abandoned_write_is_stored_uncounted [OF mem.badger_db_axioms demo_store_ok demo_clock(1) v _ this, of _ 0]
  show ?thesis by (fastforce simp: mem_badger_def mem_update_def demo_store_def Stats_def Let_def)
qed

text \<open>
  C24: the garbage-collection goroutine. In every run, whatever the other goroutines do to the database in between,
  the goroutine works in complete rounds (a tick, rewrites as long as the library succeeds, and the first error ends
  the round), it returns exactly when the \<^verbatim>\<open>select\<close> takes the stop channel, which it can whenever it is not in a
  round, and does nothing afterwards. In a round the next step is settled by the next answer of the library: a
  round ends only with an error, and a request to stop waits for the end of the round.
\<close>

theorem gc_works_in_rounds:
  assumes "gc_run B db ls (pc, d)"
  shows "(\<exists>rounds rest. filter (\<lambda>l. l \<noteq> GcOther) ls =
        concat (map (\<lambda>n. GcTick # replicate n GcRewrote @ [GcFailed]) rounds) @ rest \<and>
      (case pc of GcSelect \<Rightarrow> rest = [] | GcReturned \<Rightarrow> rest = [GcStop] | GcRound \<Rightarrow> \<exists>n. rest = GcTick # replicate n GcRewrote)) \<and>
    (pc = GcSelect \<longrightarrow> runValueLogGC B GcStop (pc, d) = Some (GcReturned, d) \<and> runValueLogGC B GcTick (pc, d) = Some (GcRound, d)) \<and>
    (pc = GcRound \<longrightarrow> (case bd_gc B d of Inl _ \<Rightarrow> runValueLogGC B GcFailed (pc, d) = Some (GcSelect, d)
       | Inr d' \<Rightarrow> runValueLogGC B GcRewrote (pc, d) = Some (GcRound, d')) \<and>
      runValueLogGC B GcStop (pc, d) = None) \<and>
    (pc = GcReturned \<longrightarrow> (\<forall>l. runValueLogGC B l (pc, d) = None))"
proof (intro conjI allI impI)
  show "\<exists>rounds rest. filter (\<lambda>l. l \<noteq> GcOther) ls =
        concat (map (\<lambda>n. GcTick # replicate n GcRewrote @ [GcFailed]) rounds) @ rest \<and>
      (case pc of GcSelect \<Rightarrow> rest = [] | GcReturned \<Rightarrow> rest = [GcStop] | GcRound \<Rightarrow> \<exists>n. rest = GcTick # replicate n GcRewrote)"
    using gc_run_rounds [OF assms] by simp
qed (auto split: sum.split)

theorem gc_works_in_rounds_witness:
  "\<exists>d. gc_run mem_badger [(''k'', JNull, None), (''k'', JBool True, None)] [GcTick, GcRewrote, GcOther, GcFailed, GcStop] (GcReturned, d) \<and>
    (\<forall>l. runValueLogGC mem_badger l (GcReturned, d) = None)"
proof -
  let ?db = "[(''k'', JNull, None), (''k'', JBool True, None)]" and ?d = "[(''k'', JNull, None)]"
  have "bd_gc mem_badger ?db = Inr ?d" "isl (bd_gc mem_badger ?d)"
    by (simp_all add: mem_badger_def mem_gc_def)
  then have "gc_run mem_badger ?db (((([] @ [GcTick]) @ [GcRewrote]) @ [GcOther]) @ [GcFailed]) (GcSelect, ?d)"
    by (intro gc_run.own [where x = "(GcRound, ?d)" and l = GcFailed] gc_run.other [where d = ?d]
        gc_run.own [where x = "(GcRound, ?db)" and l = GcRewrote] gc_run.own [where x = "(GcSelect, ?db)" and l = GcTick] gc_run.start)
      (auto simp: isl_def)
  then have run: "gc_run mem_badger ?db [GcTick, GcRewrote, GcOther, GcFailed, GcStop] (GcReturned, ?d)"
    using gc_run.own [of mem_badger ?db "[GcTick, GcRewrote, GcOther, GcFailed]" "(GcSelect, ?d)" GcStop "(GcReturned, ?d)"] by simp
  then show ?thesis using gc_works_in_rounds [OF run] by blast
qed

end
