(* ===== verification/AgentTokens.thy ===== *)
theory AgentTokens
  imports Store
begin

text \<open>
  \<^verbatim>\<open>internal/store/agenttoken.go\<close>: the per-agent credentials. A record per node id holds the SHA-256 hash
  of the token and, once revoked, the instant of that. \<^verbatim>\<open>sha256\<close> and the bytes of \<^verbatim>\<open>rand.Read\<close> are
  arguments: what is proved holds whatever the hash function is, and a theorem that needs two tokens
  to have different hashes says so.

  Shown: the table of tokens the database holds, as a map from node ids to records, and what each
  operation does to it; that a lookup is sound and complete for the active records; that a token
  works from its issue until its revocation and not beyond, when the node id is UTF-8, and that it cannot be revoked
  when the node id is not; that saving events and alerts never touches the table; and the invariant of the whole
  database over every run of the store.
\<close>

section \<open>Model\<close>

type_synonym hash_fn = "string \<Rightarrow> string"

definition hashToken :: "hash_fn \<Rightarrow> string \<Rightarrow> string" where
  "hashToken sha256 token = hex_encode (sha256 token)"

text \<open>\<open>rnd\<close> is what \<^verbatim>\<open>rand.Read\<close> does to the 32-byte buffer: an error, or the bytes.\<close>

definition generateToken :: "string + string \<Rightarrow> store_error + string" where
  "generateToken rnd = (case rnd of Inl err \<Rightarrow> Inl (RandError err) | Inr buf \<Rightarrow> Inr (hex_encode buf))"

definition getAgentToken ::
  "'db badger \<Rightarrow> 'db Store \<Rightarrow> time \<Rightarrow> race \<Rightarrow> string \<Rightarrow> store_error + AgentToken option" where
  "getAgentToken B st t who nodeID =
     read_with_context who
       (case bd_view B (st_db st) t of
          Inl err \<Rightarrow> Inl (BadgerError err)
        | Inr snap \<Rightarrow> (case txn_get snap (agentTokenKey nodeID) of
            None \<Rightarrow> Inr None
          | Some (Inl err) \<Rightarrow> Inl (BadgerError err)
          | Some (Inr j) \<Rightarrow> (case unmarshal_token j of None \<Rightarrow> Inl UnmarshalError | Some r \<Rightarrow> Inr (Some r))))"

text \<open>No time to live: a credential does not expire.\<close>

definition putAgentToken ::
  "'db badger \<Rightarrow> 'db Store \<Rightarrow> time \<Rightarrow> race \<Rightarrow> AgentToken \<Rightarrow> store_error option \<times> 'db Store" where
  "putAgentToken B st t who rec =
     (case marshal_token rec of
        None \<Rightarrow> (Some MarshalError, st)
      | Some val \<Rightarrow> write_with_context B st t who (agentTokenKey (tk_NodeID rec), val, None))"

text \<open>
  The two database calls of \<^verbatim>\<open>IssueToken\<close> and \<^verbatim>\<open>RevokeToken\<close> happen at \<open>t\<close> and \<open>t'\<close>, with the outcomes
  \<open>who\<close> and \<open>who'\<close> of the race against the context; \<open>now\<close> is the clock reading in between.
\<close>

definition IssueToken ::
  "hash_fn \<Rightarrow> 'db badger \<Rightarrow> 'db Store \<Rightarrow> time \<Rightarrow> race \<Rightarrow> string + string \<Rightarrow> time \<Rightarrow> time \<Rightarrow> race \<Rightarrow> string
    \<Rightarrow> (store_error + string) \<times> 'db Store" where
  "IssueToken sha256 B st t who rnd now t' who' nodeID =
     (case getAgentToken B st t who nodeID of
        Inl err \<Rightarrow> (Inl err, st)
      | Inr existing \<Rightarrow>
          if (case existing of Some r \<Rightarrow> tk_RevokedAt r = None | None \<Rightarrow> False) then (Inl ErrTokenExists, st)
          else (case generateToken rnd of
            Inl err \<Rightarrow> (Inl err, st)
          | Inr token \<Rightarrow>
              (case putAgentToken B st t' who' \<lparr>tk_NodeID = nodeID, tk_TokenHash = hashToken sha256 token,
                 tk_IssuedAt = now, tk_RevokedAt = None\<rparr> of
                 (Some err, st') \<Rightarrow> (Inl err, st')
               | (None, st') \<Rightarrow> (Inr token, st'))))"

definition RevokeToken ::
  "'db badger \<Rightarrow> 'db Store \<Rightarrow> time \<Rightarrow> race \<Rightarrow> time \<Rightarrow> time \<Rightarrow> race \<Rightarrow> string \<Rightarrow> store_error option \<times> 'db Store" where
  "RevokeToken B st t who now t' who' nodeID =
     (case getAgentToken B st t who nodeID of
        Inl err \<Rightarrow> (Some err, st)
      | Inr None \<Rightarrow> (None, st)
      | Inr (Some rec) \<Rightarrow>
          if tk_RevokedAt rec \<noteq> None then (None, st)
          else putAgentToken B st t' who' (rec\<lparr>tk_RevokedAt := Some now\<rparr>))"

fun listTokensLoop :: "AgentToken list \<Rightarrow> snapshot \<Rightarrow> store_error + AgentToken list" where
  "listTokensLoop tokens [] = Inr tokens"
| "listTokensLoop tokens ((k, v) # items) =
     (if \<not> HasPrefix k tokenPrefix then Inr tokens
      else case v of
        Inl err \<Rightarrow> Inl (BadgerError err)
      | Inr j \<Rightarrow> (case unmarshal_token j of
          None \<Rightarrow> Inl UnmarshalError
        | Some rec \<Rightarrow> listTokensLoop (tokens @ [rec]) items))"

definition ListTokens :: "'db badger \<Rightarrow> 'db Store \<Rightarrow> time \<Rightarrow> race \<Rightarrow> store_error + AgentToken list" where
  "ListTokens B st t who =
     read_with_context who
       (case bd_view B (st_db st) t of
          Inl err \<Rightarrow> Inl (BadgerError err)
        | Inr snap \<Rightarrow> listTokensLoop [] (seek_fwd snap tokenPrefix))"

text \<open>The loop of \<^verbatim>\<open>LookupNodeID\<close>: every record is compared, the last match stays.\<close>

definition lookup_step :: "string \<Rightarrow> AgentToken \<Rightarrow> string \<times> bool \<Rightarrow> string \<times> bool" where
  "lookup_step want rec found =
     (if tk_RevokedAt rec \<noteq> None then found
      else if tk_TokenHash rec = want then (tk_NodeID rec, True) else found)"

definition LookupNodeID ::
  "hash_fn \<Rightarrow> 'db badger \<Rightarrow> 'db Store \<Rightarrow> time \<Rightarrow> race \<Rightarrow> string \<Rightarrow> store_error + string \<times> bool" where
  "LookupNodeID sha256 B st t who token =
     (let want = hashToken sha256 token in
      case ListTokens B st t who of
        Inl err \<Rightarrow> Inl err
      | Inr tokens \<Rightarrow> Inr (fold (lookup_step want) tokens ([], False)))"

section \<open>The table of tokens\<close>

text \<open>The record of a node in the database, and the records in key order.\<close>

definition token_of :: "(string \<times> json) list \<Rightarrow> string \<Rightarrow> AgentToken option" where
  "token_of c nodeID = Option.bind (map_of c (agentTokenKey nodeID)) unmarshal_token"

definition tokens_asc :: "(string \<times> json) list \<Rightarrow> AgentToken list" where
  "tokens_asc c = map (\<lambda>(_, j). the (unmarshal_token j)) (filter (\<lambda>(k, _). HasPrefix k tokenPrefix) c)"

definition active_with :: "string \<Rightarrow> AgentToken \<Rightarrow> bool" where
  "active_with h rec = (tk_RevokedAt rec = None \<and> tk_TokenHash rec = h)"

lemma agentTokenKey_inject [simp]: "agentTokenKey a = agentTokenKey b \<longleftrightarrow> a = b"
  by (simp add: agentTokenKey_def)

lemma agentTokenKey_less [simp]: "agentTokenKey a < agentTokenKey b \<longleftrightarrow> a < b"
  unfolding agentTokenKey_def by (rule string_less_append_same)

lemma token_keys_other [simp]: "event_key r e \<noteq> agentTokenKey n" "alert_key a \<noteq> agentTokenKey n"
  using keys_disjoint by metis+

lemma entry_ok_token_key:
  assumes "entry_ok k j" and "HasPrefix k tokenPrefix"
  shows "\<exists>n rec. unmarshal_token j = Some rec \<and> k = agentTokenKey n \<and> tk_NodeID rec = coerce_utf8 n"
proof -
  obtain tok where "k = agentTokenKey (tk_NodeID tok)" "marshal_token tok = Some j" using assms by (auto simp: entry_ok_def)
  then show ?thesis using unmarshal_marshal_token by fastforce
qed

lemma lookup_fold:
  "fold (lookup_step want) recs found =
    (case filter (active_with want) recs of [] \<Rightarrow> found | rs \<Rightarrow> (tk_NodeID (last rs), True))"
  by (induction recs arbitrary: found) (auto simp: lookup_step_def active_with_def split: list.split)

lemma lookup_fold_True:
  assumes "fold (lookup_step want) recs ([], False) = (n, True)"
  shows "\<exists>rec \<in> set recs. active_with want rec \<and> tk_NodeID rec = n"
proof -
  obtain r rs where f: "filter (active_with want) recs = r # rs"
    using assms by (cases "filter (active_with want) recs") (auto simp: lookup_fold)
  then have "last (r # rs) \<in> set (filter (active_with want) recs)" by (metis last_in_set list.distinct(1))
  moreover have "n = tk_NodeID (last (r # rs))" using assms f by (simp add: lookup_fold del: last.simps)
  ultimately show ?thesis by auto
qed

lemma lookup_fold_False:
  assumes "fold (lookup_step want) recs ([], False) = (n, False)"
  shows "n = [] \<and> (\<forall>rec \<in> set recs. \<not> active_with want rec)"
  using assms by (cases "filter (active_with want) recs") (auto simp: lookup_fold filter_empty_conv)

lemma listTokensLoop_takeWhile:
  "listTokensLoop acc items = listTokensLoop acc (takeWhile (\<lambda>(k, _). HasPrefix k tokenPrefix) items)"
  by (induction acc items rule: listTokensLoop.induct) (auto split: option.split sum.split)

lemma listTokensLoop_result:
  assumes "list_all2 (\<lambda>(k, v) r. HasPrefix k tokenPrefix \<and> (\<forall>j. v = Inr j \<longrightarrow> unmarshal_token j = Some r)) items recs"
    and "listTokensLoop acc items = Inr r"
  shows "r = acc @ recs"
  using assms
  by (induction items recs arbitrary: acc rule: list_all2_induct) (fastforce split: sum.splits)+

lemma listTokensLoop_returns:
  assumes "list_all2 (\<lambda>(k, v) r. HasPrefix k tokenPrefix \<and> (\<forall>j. v = Inr j \<longrightarrow> unmarshal_token j = Some r)) items recs"
    and "\<forall>(k, v) \<in> set items. \<exists>j. v = Inr j"
  shows "\<exists>r. listTokensLoop acc items = Inr r"
  using assms
  by (induction items recs arbitrary: acc rule: list_all2_induct) auto

lemma list_all2_map_of:
  assumes "list_all2 (\<lambda>(k, v) (k', j). k = k' \<and> (v = Inr j \<or> (\<exists>e. v = Inl e))) snap c"
  shows "(map_of snap k = None \<longleftrightarrow> map_of c k = None) \<and> (map_of snap k = Some (Inr j) \<longrightarrow> map_of c k = Some j)"
  using assms by (induction snap c rule: list_all2_induct) auto

lemma putAgentToken_cases:
  assumes "putAgentToken B st t who rec = (res, st')"
  shows "(marshal_token rec = None \<and> res = Some MarshalError \<and> st' = st) \<or>
    (\<exists>val. marshal_token rec = Some val \<and> who = CtxWins \<and> res = Some ContextDone \<and>
       st' = st\<lparr>st_pending := st_pending st @ [(agentTokenKey (tk_NodeID rec), val, None)]\<rparr>) \<or>
    (\<exists>val err. marshal_token rec = Some val \<and> who = FnWins \<and> res = Some (BadgerError err) \<and> st' = st \<and>
       bd_update B (st_db st) t (agentTokenKey (tk_NodeID rec)) val None = Inl err) \<or>
    (\<exists>val db'. marshal_token rec = Some val \<and> who = FnWins \<and> res = None \<and>
       bd_update B (st_db st) t (agentTokenKey (tk_NodeID rec)) val None = Inr db' \<and> st' = st\<lparr>st_db := db'\<rparr>)"
  using assms by (auto simp: putAgentToken_def write_with_context_def split: option.splits race.splits sum.splits)

context badger_db
begin

text \<open>The node id in a record is the id of its key, with the bytes that are no UTF-8 replaced.\<close>

lemma token_of_key:
  "store_all content entry_ok st \<Longrightarrow> token_of (content (st_db st) t) n = Some rec \<Longrightarrow> tk_NodeID rec = coerce_utf8 n"
  using entry_ok_token_key [of "agentTokenKey n"] keys_disjoint(7) [of n]
  by (fastforce simp: token_of_def store_all_def bind_eq_Some_conv)

text \<open>The records in key order are the table read off at its ids, in ascending order of the ids.\<close>

lemma tokens_asc_ids:
  assumes "store_all content entry_ok st"
  shows "\<exists>ids. sorted_wrt (<) ids \<and> set ids = dom (token_of (content (st_db st) t)) \<and>
    tokens_asc (content (st_db st) t) = map (\<lambda>n. the (token_of (content (st_db st) t) n)) ids"
proof -
  let ?c = "content (st_db st) t" and ?P = "\<lambda>(k, _). HasPrefix k tokenPrefix"
  define ids where "ids = map (\<lambda>(k, _). drop (length tokenPrefix) k) (filter ?P ?c)"
  have entry: "\<exists>rec. k = agentTokenKey (drop (length tokenPrefix) k) \<and> unmarshal_token j = Some rec \<and>
      token_of ?c (drop (length tokenPrefix) k) = Some rec"
    if "(k, j) \<in> set ?c" "HasPrefix k tokenPrefix" for k j
    using entry_ok_token_key [OF store_all_content [OF assms that(1)] that(2)] that(1)
    by (auto simp: agentTokenKey_def prefix_defs token_of_def content_in_set)
  have keys: "map agentTokenKey ids = map fst (filter ?P ?c)"
    unfolding ids_def list.map_comp by (rule map_cong [OF refl]) (use entry in fastforce)
  have "sorted_wrt (<) (map agentTokenKey ids)"
    unfolding keys by (rule sorted_wrt_map_filter [OF content_sorted])
  then have "sorted_wrt (<) ids" by (simp add: sorted_wrt_map)
  moreover have "set ids = dom (token_of ?c)"
  proof
    show "set ids \<subseteq> dom (token_of ?c)" using entry by (fastforce simp: ids_def)
    show "dom (token_of ?c) \<subseteq> set ids"
    proof
      fix n assume "n \<in> dom (token_of ?c)"
      then obtain j where "(agentTokenKey n, j) \<in> set ?c" by (auto simp: token_of_def content_in_set bind_eq_Some_conv)
      then have "agentTokenKey n \<in> set (map agentTokenKey ids)" unfolding keys by force
      then show "n \<in> set ids" by auto
    qed
  qed
  moreover have "tokens_asc ?c = map (\<lambda>n. the (token_of ?c n)) ids"
    unfolding tokens_asc_def ids_def list.map_comp by (rule map_cong [OF refl]) (use entry in fastforce)
  ultimately show ?thesis by blast
qed

lemma tokens_asc_set:
  assumes "store_all content entry_ok st"
  shows "rec \<in> set (tokens_asc (content (st_db st) t)) \<longleftrightarrow> (\<exists>n. token_of (content (st_db st) t) n = Some rec)"
  using tokens_asc_ids [OF assms, of t] by (force simp: dom_def)

lemma token_items:
  assumes "store_all content entry_ok st" and "bd_view B (st_db st) t = Inr snap"
  shows "list_all2 (\<lambda>(k, v) r. HasPrefix k tokenPrefix \<and> (\<forall>j. v = Inr j \<longrightarrow> unmarshal_token j = Some r))
    (takeWhile (\<lambda>(k, _). HasPrefix k tokenPrefix) (seek_fwd snap tokenPrefix)) (tokens_asc (content (st_db st) t))"
  unfolding tokens_asc_def
  by (rule fwd_items [OF assms(2)]) (use store_all_content [OF assms(1)] entry_ok_token_key in fastforce)

lemma ListTokens_result:
  assumes "store_all content entry_ok st" and "ListTokens B st t who = Inr recs"
  shows "recs = tokens_asc (content (st_db st) t)"
proof -
  obtain snap where v: "bd_view B (st_db st) t = Inr snap" and l: "listTokensLoop [] (seek_fwd snap tokenPrefix) = Inr recs"
    using assms(2) by (auto simp: ListTokens_def read_with_context_def split: race.splits sum.splits)
  from listTokensLoop_result [OF token_items [OF assms(1) v], of "[]" recs] l show ?thesis
    by (simp add: listTokensLoop_takeWhile [symmetric])
qed

lemma ListTokens_returns:
  assumes "store_all content entry_ok st" and "bd_view B (st_db st) t = Inr snap"
    and "\<forall>(k, v) \<in> set snap. \<exists>j. v = Inr j"
  shows "ListTokens B st t FnWins = Inr (tokens_asc (content (st_db st) t))"
proof -
  have "\<forall>(k, v) \<in> set (takeWhile (\<lambda>(k, _). HasPrefix k tokenPrefix) (seek_fwd snap tokenPrefix)). \<exists>j. v = Inr j"
    using assms(3) by (auto simp: seek_fwd_def dest!: set_takeWhileD set_dropWhileD)
  from listTokensLoop_returns [OF token_items [OF assms(1,2)] this, of "[]"]
  obtain r where "listTokensLoop [] (seek_fwd snap tokenPrefix) = Inr r"
    by (auto simp: listTokensLoop_takeWhile [symmetric])
  then have "ListTokens B st t FnWins = Inr r" using assms(2) by (simp add: ListTokens_def read_with_context_def)
  with ListTokens_result [OF assms(1)] show ?thesis by blast
qed

lemma getAgentToken_result:
  assumes "getAgentToken B st t who n = Inr x"
  shows "x = token_of (content (st_db st) t) n"
proof -
  obtain snap where v: "bd_view B (st_db st) t = Inr snap"
    using assms by (auto simp: getAgentToken_def read_with_context_def split: race.splits sum.splits)
  note m = list_all2_map_of [OF view_content [OF v], of "agentTokenKey n"]
  show ?thesis
    using assms v m by (auto simp: getAgentToken_def read_with_context_def token_of_def split: race.splits option.splits sum.splits)
qed

lemma token_write:
  assumes "marshal_token rec = Some val" and "bd_update B db now (agentTokenKey (tk_NodeID rec)) val None = Inr db'"
  shows "token_of (content db' t) = (token_of (content db t))(tk_NodeID rec \<mapsto> rec\<lparr>tk_NodeID := coerce_utf8 (tk_NodeID rec)\<rparr>)"
  using update_same [OF assms(2), of t] update_other [OF assms(2), of _ t] assms(1)
  by (auto simp: token_of_def live_until_def fun_eq_iff unmarshal_marshal_token)

lemma putAgentToken_table:
  "putAgentToken B st t who rec = (None, st') \<Longrightarrow>
    token_of (content (st_db st') u) =
      (token_of (content (st_db st) u))(tk_NodeID rec \<mapsto> rec\<lparr>tk_NodeID := coerce_utf8 (tk_NodeID rec)\<rparr>)"
  using putAgentToken_cases [of B st t who rec None st'] token_write [of rec] by auto

lemma putAgentToken_error:
  "putAgentToken B st t who rec = (Some err, st') \<Longrightarrow> st_db st' = st_db st"
  using putAgentToken_cases [of B st t who rec "Some err" st'] by auto

lemma putAgentToken_all:
  "store_all content entry_ok st \<Longrightarrow> putAgentToken B st t who rec = (res, st') \<Longrightarrow> store_all content entry_ok st'"
  using putAgentToken_cases [of B st t who rec res st'] entry_ok_token [of rec]
    update_all [of "st_db st" t "agentTokenKey (tk_NodeID rec)" _ None _ entry_ok]
  by (auto simp: store_all_def)

lemma token_other:
  assumes "bd_update B db now k v ttl = Inr db'" and "\<And>n. agentTokenKey n \<noteq> k"
  shows "token_of (content db' t) = token_of (content db t)"
  using update_other [OF assms(1) assms(2)] by (simp add: token_of_def fun_eq_iff)

lemma SaveEvent_tokens:
  assumes "SaveEvent B st received now who e = (res, st')"
  shows "token_of (content (st_db st') t) = token_of (content (st_db st) t)"
proof -
  have "st_db st' = st_db st \<or> (\<exists>val ttl. bd_update B (st_db st) now (event_key received e) val ttl = Inr (st_db st'))"
    using SaveEvent_cases [OF assms] by auto
  then show ?thesis using token_other token_keys_other(1) by metis
qed

lemma SaveAlert_tokens:
  assumes "SaveAlert B st now who a = (res, st')"
  shows "token_of (content (st_db st') t) = token_of (content (st_db st) t)"
proof -
  have "st_db st' = st_db st \<or> (\<exists>val ttl. bd_update B (st_db st) now (alert_key a) val ttl = Inr (st_db st'))"
    using SaveAlert_cases [OF assms] by auto
  then show ?thesis using token_other token_keys_other(2) by metis
qed

text \<open>What the two operations on the table do, in every outcome.\<close>

lemma IssueToken_table:
  assumes "IssueToken sha256 B st t who rnd now t' who' n = (Inr tok, st')"
  shows "\<exists>buf. rnd = Inr buf \<and> tok = hex_encode buf"
    and "token_of (content (st_db st) t) n = Some rec \<Longrightarrow> tk_RevokedAt rec \<noteq> None"
    and "token_of (content (st_db st') u) = (token_of (content (st_db st) u))
      (n \<mapsto> \<lparr>tk_NodeID = coerce_utf8 n, tk_TokenHash = hashToken sha256 tok, tk_IssuedAt = now, tk_RevokedAt = None\<rparr>)"
proof -
  let ?rec = "\<lparr>tk_NodeID = n, tk_TokenHash = hashToken sha256 tok, tk_IssuedAt = now, tk_RevokedAt = None\<rparr>"
  obtain existing where g: "getAgentToken B st t who n = Inr existing"
    and a: "\<not> (case existing of Some r \<Rightarrow> tk_RevokedAt r = None | None \<Rightarrow> False)"
    and r: "generateToken rnd = Inr tok"
    and p: "putAgentToken B st t' who' ?rec = (None, st')"
    using assms by (auto simp: IssueToken_def split: sum.splits option.splits if_splits prod.splits)
  show "\<exists>buf. rnd = Inr buf \<and> tok = hex_encode buf"
    using r by (auto simp: generateToken_def split: sum.splits)
  show "token_of (content (st_db st) t) n = Some rec \<Longrightarrow> tk_RevokedAt rec \<noteq> None"
    using getAgentToken_result [OF g] a by auto
  show "token_of (content (st_db st') u) = (token_of (content (st_db st) u))
      (n \<mapsto> \<lparr>tk_NodeID = coerce_utf8 n, tk_TokenHash = hashToken sha256 tok, tk_IssuedAt = now, tk_RevokedAt = None\<rparr>)"
    using putAgentToken_table [OF p] by simp
qed

lemma IssueToken_error:
  "IssueToken sha256 B st t who rnd now t' who' n = (Inl err, st') \<Longrightarrow> st_db st' = st_db st"
  by (auto simp: IssueToken_def dest: putAgentToken_error split: sum.splits option.splits if_splits prod.splits)

lemma IssueToken_all:
  "store_all content entry_ok st \<Longrightarrow> IssueToken sha256 B st t who rnd now t' who' n = (res, st') \<Longrightarrow>
    store_all content entry_ok st'"
  by (auto simp: IssueToken_def dest: putAgentToken_all split: sum.splits option.splits if_splits prod.splits)

lemma RevokeToken_all:
  "store_all content entry_ok st \<Longrightarrow> RevokeToken B st t who now t' who' n = (res, st') \<Longrightarrow>
    store_all content entry_ok st'"
  by (auto simp: RevokeToken_def dest: putAgentToken_all split: sum.splits option.splits if_splits)

text \<open>A revocation is written under the node id the record holds, which is the id asked for when that is UTF-8.\<close>

lemma RevokeToken_table:
  assumes "store_all content entry_ok st" and "RevokeToken B st t who now t' who' n = (None, st')"
  shows "(\<exists>rec. token_of (content (st_db st) t) n = Some rec \<and> tk_RevokedAt rec = None \<and>
      token_of (content (st_db st') u) =
        (token_of (content (st_db st) u))(coerce_utf8 n \<mapsto> rec\<lparr>tk_RevokedAt := Some now\<rparr>)) \<or>
    (\<forall>rec. token_of (content (st_db st) t) n = Some rec \<longrightarrow> tk_RevokedAt rec \<noteq> None) \<and> st' = st"
proof -
  obtain x where g: "getAgentToken B st t who n = Inr x" using assms(2) by (auto simp: RevokeToken_def split: sum.splits)
  then have x: "token_of (content (st_db st) t) n = x" using getAgentToken_result by blast
  show ?thesis
  proof (cases "\<exists>rec. x = Some rec \<and> tk_RevokedAt rec = None")
    case True
    then obtain rec where rec: "x = Some rec" "tk_RevokedAt rec = None" by blast
    then have "putAgentToken B st t' who' (rec\<lparr>tk_RevokedAt := Some now\<rparr>) = (None, st')"
      using assms(2) g by (simp add: RevokeToken_def)
    from putAgentToken_table [OF this, of u] token_of_key [OF assms(1), of t n rec] x rec
    show ?thesis by (intro disjI1 exI [of _ rec]) (cases rec, simp)
  next
    case False
    then show ?thesis using assms(2) g x by (auto simp: RevokeToken_def split: option.splits if_splits)
  qed
qed

lemma LookupNodeID_result:
  assumes "store_all content entry_ok st" and "LookupNodeID sha256 B st t who tok = Inr (n, ok)"
  shows "ok \<Longrightarrow> \<exists>m rec. token_of (content (st_db st) t) m = Some rec \<and> active_with (hashToken sha256 tok) rec \<and>
      tk_NodeID rec = n \<and> n = coerce_utf8 m"
    and "\<not> ok \<Longrightarrow> n = [] \<and> (\<forall>m rec. token_of (content (st_db st) t) m = Some rec \<longrightarrow> \<not> active_with (hashToken sha256 tok) rec)"
proof -
  have f: "fold (lookup_step (hashToken sha256 tok)) (tokens_asc (content (st_db st) t)) ([], False) = (n, ok)"
    using assms(2) ListTokens_result [OF assms(1)] by (auto simp: LookupNodeID_def split: sum.splits)
  show "\<exists>m rec. token_of (content (st_db st) t) m = Some rec \<and> active_with (hashToken sha256 tok) rec \<and>
      tk_NodeID rec = n \<and> n = coerce_utf8 m" if ok
    using lookup_fold_True [of "hashToken sha256 tok" "tokens_asc (content (st_db st) t)" n] f that
      tokens_asc_set [OF assms(1)] token_of_key [OF assms(1)] by fastforce
  show "n = [] \<and> (\<forall>m rec. token_of (content (st_db st) t) m = Some rec \<longrightarrow> \<not> active_with (hashToken sha256 tok) rec)" if "\<not> ok"
  proof -
    have no: "n = []" "\<forall>rec \<in> set (tokens_asc (content (st_db st) t)). \<not> active_with (hashToken sha256 tok) rec"
      using lookup_fold_False [of "hashToken sha256 tok" "tokens_asc (content (st_db st) t)" n] f that by auto
    moreover have "rec \<in> set (tokens_asc (content (st_db st) t))" if "token_of (content (st_db st) t) m = Some rec" for m rec
      using that tokens_asc_set [OF assms(1)] by blast
    ultimately show ?thesis by blast
  qed
qed

lemma LookupNodeID_table:
  assumes "store_all content entry_ok st" "store_all content entry_ok st'"
    and "token_of (content (st_db st') t) = token_of (content (st_db st) t)"
    and "LookupNodeID sha256 B st t who tok = Inr r" "LookupNodeID sha256 B st' t who' tok = Inr r'"
  shows "r' = r"
proof -
  obtain ids ids' where i: "sorted_wrt (<) ids" "set ids = dom (token_of (content (st_db st) t))"
      "tokens_asc (content (st_db st) t) = map (\<lambda>n. the (token_of (content (st_db st) t) n)) ids"
    and i': "sorted_wrt (<) ids'" "set ids' = dom (token_of (content (st_db st') t))"
      "tokens_asc (content (st_db st') t) = map (\<lambda>n. the (token_of (content (st_db st') t) n)) ids'"
    using tokens_asc_ids [OF assms(1), of t] tokens_asc_ids [OF assms(2), of t] by blast
  have "ids = ids'" using i(1,2) i'(1,2) assms(3) by (intro sorted_wrt_unique_set [of "(<)"]) auto
  then have "tokens_asc (content (st_db st) t) = tokens_asc (content (st_db st') t)" using i(3) i'(3) assms(3) by simp
  then show ?thesis
    using assms(4,5) ListTokens_result [OF assms(1)] ListTokens_result [OF assms(2)]
    by (auto simp: LookupNodeID_def split: sum.splits)
qed

end

section \<open>Runs of the store\<close>

text \<open>
  A step is one operation of the store, with any arguments and outcomes and with the clock inside the
  four-digit years, or the completion of an abandoned write.
\<close>

inductive store_step :: "hash_fn \<Rightarrow> 'db badger \<Rightarrow> 'db Store \<Rightarrow> 'db Store \<Rightarrow> bool" for sha256 B where
  save_event: "clock_ok received \<Longrightarrow> SaveEvent B st received t who e = (res, st') \<Longrightarrow> store_step sha256 B st st'"
| save_alert: "clock_ok (al_Timestamp a) \<Longrightarrow> SaveAlert B st t who a = (res, st') \<Longrightarrow> store_step sha256 B st st'"
| issue: "IssueToken sha256 B st t who rnd now t' who' n = (ires, st') \<Longrightarrow> store_step sha256 B st st'"
| revoke: "RevokeToken B st t who now t' who' n = (res, st') \<Longrightarrow> store_step sha256 B st st'"
| background: "store_step sha256 B st (bg_complete B st t i)"
| close: "store_Close st err = (cres, st') \<Longrightarrow> store_step sha256 B st st'"

text \<open>A store just opened on a database all of whose entries are sound; an empty one is.\<close>

definition store_opened ::
  "'db badger \<Rightarrow> ('db \<Rightarrow> time \<Rightarrow> (string \<times> json) list) \<Rightarrow> 'db Store \<Rightarrow> bool" where
  "store_opened B content st =
     (\<exists>db t. store_New B (Inr db) t = Inr st \<and> (\<forall>t k j. map_of (content db t) k = Some j \<longrightarrow> entry_ok k j))"

lemma store_New_db: "store_New B (Inr db) t = Inr st \<Longrightarrow> st_db st = db \<and> st_pending st = []"
  by (cases "loadCounters B db t [(''exec'', 0), (''tcp'', 0), (''file'', 0)]") (auto simp: store_New_def)

lemma store_opened_all: "store_opened B content st \<Longrightarrow> store_all content entry_ok st"
  by (auto simp: store_opened_def store_all_def dest: store_New_db)

lemma store_Close_db:
  "store_Close st err = (cres, st') \<Longrightarrow> st_db st' = st_db st \<and> st_pending st' = st_pending st"
  by (auto simp: store_Close_def split: if_splits)

lemma store_Close_all:
  "store_all content P st \<Longrightarrow> store_Close st err = (cres, st') \<Longrightarrow> store_all content P st'"
  using store_Close_db by (fastforce simp: store_all_def)

inductive_cases store_stepE: "store_step sha256 B st st'"

sublocale badger_db \<subseteq> store_sys: invariant_system "store_opened B content" "store_step sha256 B" "store_all content entry_ok"
  for sha256
  by unfold_locales
    (auto simp: store_opened_all bg_complete_all elim!: store_stepE
      dest: SaveEvent_all SaveAlert_all IssueToken_all RevokeToken_all store_Close_all)

context badger_db
begin

lemma store_reachable_all:
  "store_opened B content st \<Longrightarrow> (store_step sha256 B)\<^sup>*\<^sup>* st st' \<Longrightarrow> store_all content entry_ok st'"
  by (rule store_sys.inv_reachable)

end

section \<open>Properties\<close>

text \<open>
  The key space stays sound: from opening the store on a sound (for example empty) database, every
  run of its operations, abandoned writes included, leaves each live entry a record that decodes, under
  the key made of that record, in the key space of its kind; a token's record holds the id of its key with the
  bytes that are no UTF-8 replaced.
\<close>

lemma store_reachable_sound:
  assumes "badger_db B content" and "store_opened B content st" and "(store_step sha256 B)\<^sup>*\<^sup>* st st'"
    and "map_of (content (st_db st') t) k = Some j"
  shows "(HasPrefix k ''event:'' \<longrightarrow> (\<exists>r e. k = event_key r e \<and> unmarshal_event j = Some e)) \<and>
    (HasPrefix k ''alert:'' \<longrightarrow> (\<exists>a. k = alert_key a \<and> unmarshal_alert j = Some a)) \<and>
    (HasPrefix k ''agenttoken:'' \<longrightarrow> (\<exists>n rec. k = agentTokenKey n \<and> unmarshal_token j = Some rec \<and> tk_NodeID rec = coerce_utf8 n))"
proof -
  have "entry_ok k j"
    using badger_db.store_reachable_all [OF assms(1-3)] assms(4) by (auto simp: store_all_def)
  then show ?thesis
    unfolding entry_ok_def prefix_defs
    by (fastforce dest: unmarshal_marshal_event unmarshal_marshal_alert unmarshal_marshal_token)
qed

text \<open>An issue on the empty reference database, with the identity as the hash function.\<close>

definition demo_now :: time where "demo_now = time_unix0 7"

definition demo_issued :: "mem_db Store" where
  "demo_issued = snd (IssueToken (\<lambda>s. s) mem_badger demo_store 0 FnWins (Inr ''k'') demo_now 0 FnWins ''web'')"

lemma demo_now_ok: "json_time_ok demo_now"
  by (simp add: demo_now_def json_time_ok_def time_unix0_def second_def year_9999_end_def)

lemma mem_update_simp [simp]: "bd_update mem_badger db now k v ttl = Inr ((k, v, map_option ((+) now) ttl) # db)"
  by (simp add: mem_badger_def mem_update_def)

lemma mem_view_simp [simp]: "bd_view mem_badger db t = Inr (map (\<lambda>(k, j). (k, Inr j)) (mem_content db t))"
  by (simp add: mem_badger_def mem_view_def)

lemma demo_issued_ok:
  "IssueToken (\<lambda>s. s) mem_badger demo_store 0 FnWins (Inr ''k'') demo_now 0 FnWins ''web'' = (Inr (hex_encode ''k''), demo_issued)"
  "store_all mem_content entry_ok demo_issued"
proof -
  show i: "IssueToken (\<lambda>s. s) mem_badger demo_store 0 FnWins (Inr ''k'') demo_now 0 FnWins ''web'' = (Inr (hex_encode ''k''), demo_issued)"
    using demo_now_ok
    by (simp add: demo_issued_def IssueToken_def getAgentToken_def putAgentToken_def read_with_context_def
        write_with_context_def generateToken_def marshal_token_def demo_store_def mem_content_def)
  show "store_all mem_content entry_ok demo_issued" using mem.IssueToken_all [OF demo_store_ok i] .
qed

lemma demo_issued_token:
  "token_of (mem_content (st_db demo_issued) t) =
    [''web'' \<mapsto> \<lparr>tk_NodeID = ''web'', tk_TokenHash = hex_encode (hex_encode ''k''), tk_IssuedAt = demo_now, tk_RevokedAt = None\<rparr>]"
proof -
  have "token_of (mem_content (st_db demo_store) t) = Map.empty"
    by (simp add: token_of_def fun_eq_iff demo_store_def mem_content_def)
  then show ?thesis using mem.IssueToken_table(3) [OF demo_issued_ok(1), of t] by (simp add: hashToken_def coerce_utf8_ascii)
qed

lemma mem_getAgentToken:
  assumes "store_all mem_content entry_ok st"
  shows "getAgentToken mem_badger st t FnWins n = Inr (token_of (mem_content (st_db st) t) n)"
proof (cases "map_of (mem_content (st_db st) t) (agentTokenKey n)")
  case None
  then show ?thesis by (simp add: getAgentToken_def read_with_context_def token_of_def map_of_map)
next
  case (Some j)
  then have "entry_ok (agentTokenKey n) j" using assms by (auto simp: store_all_def)
  then obtain rec where "unmarshal_token j = Some rec" using entry_ok_token_key keys_disjoint(7) by meson
  with Some show ?thesis by (simp add: getAgentToken_def read_with_context_def token_of_def map_of_map)
qed

lemma demo_lookup: "\<exists>r. LookupNodeID sha mem_badger st t FnWins tok = Inr r" if "store_all mem_content entry_ok st"
proof -
  have "ListTokens mem_badger st t FnWins = Inr (tokens_asc (mem_content (st_db st) t))"
    by (rule mem.ListTokens_returns [OF that mem_view_simp]) auto
  then show ?thesis by (simp add: LookupNodeID_def)
qed

text \<open>
  A lookup is sound and complete: it reports a node exactly when some record that is not revoked
  holds the hash of the presented token, and the node it reports has such a record; an unknown token
  and a revoked one give the same answer, the empty id and \<^verbatim>\<open>false\<close>.
\<close>

lemma LookupNodeID_sound_complete:
  assumes "badger_db B content" and "store_all content entry_ok st"
    and "LookupNodeID sha256 B st t who tok = Inr (n, ok)"
  shows "(ok \<longrightarrow> (\<exists>m rec. token_of (content (st_db st) t) m = Some rec \<and> tk_RevokedAt rec = None
        \<and> tk_TokenHash rec = hashToken sha256 tok \<and> tk_NodeID rec = n)) \<and>
    (\<not> ok \<longrightarrow> n = [] \<and> (\<forall>m rec. token_of (content (st_db st) t) m = Some rec \<longrightarrow>
        tk_RevokedAt rec \<noteq> None \<or> tk_TokenHash rec \<noteq> hashToken sha256 tok))"
  using badger_db.LookupNodeID_result [OF assms] by (fastforce simp: active_with_def)

text \<open>
  Issuing. \<^verbatim>\<open>IssueToken\<close> succeeds only for a node without an active token; it then returns the hex
  form of the random bytes and the table changes in that node's record alone, at every later instant
  since the record has no time to live. When it fails the database is unchanged.
\<close>

lemma IssueToken_effect:
  assumes "badger_db B content" and "IssueToken sha256 B st t who rnd now t' who' n = (res, st')"
  shows "(\<forall>tok. res = Inr tok \<longrightarrow>
      (\<exists>buf. rnd = Inr buf \<and> tok = hex_encode buf) \<and>
      (\<forall>rec. token_of (content (st_db st) t) n = Some rec \<longrightarrow> tk_RevokedAt rec \<noteq> None) \<and>
      (\<forall>u. token_of (content (st_db st') u) = (token_of (content (st_db st) u))
        (n \<mapsto> \<lparr>tk_NodeID = coerce_utf8 n, tk_TokenHash = hashToken sha256 tok, tk_IssuedAt = now, tk_RevokedAt = None\<rparr>))) \<and>
    (\<forall>err. res = Inl err \<longrightarrow> st_db st' = st_db st)"
proof (intro conjI allI impI)
  fix tok u assume "res = Inr tok"
  with assms(2) have i: "IssueToken sha256 B st t who rnd now t' who' n = (Inr tok, st')" by simp
  show "\<exists>buf. rnd = Inr buf \<and> tok = hex_encode buf" using badger_db.IssueToken_table(1) [OF assms(1) i] .
  show "tk_RevokedAt rec \<noteq> None" if "token_of (content (st_db st) t) n = Some rec" for rec
    using badger_db.IssueToken_table(2) [OF assms(1) i that] .
  show "token_of (content (st_db st') u) = (token_of (content (st_db st) u))
        (n \<mapsto> \<lparr>tk_NodeID = coerce_utf8 n, tk_TokenHash = hashToken sha256 tok, tk_IssuedAt = now, tk_RevokedAt = None\<rparr>)"
    using badger_db.IssueToken_table(3) [OF assms(1) i] .
next
  fix err assume "res = Inl err"
  with assms show "st_db st' = st_db st" using badger_db.IssueToken_error by blast
qed

context badger_db
begin

lemma LookupNodeID_returns:
  assumes "store_all content entry_ok st" and "bd_view B (st_db st) t = Inr snap" and "\<forall>(k, v) \<in> set snap. \<exists>j. v = Inr j"
  shows "\<exists>r. LookupNodeID sha256 B st t FnWins tok = Inr r"
  using ListTokens_returns [OF assms] by (simp add: LookupNodeID_def)

text \<open>A record that alone holds a hash actively is what a lookup of the token finds.\<close>

lemma sole_record_resolves:
  assumes "store_all content entry_ok st" and "LookupNodeID sha256 B st t who tok = Inr r"
    and "token_of (content (st_db st) t) n = Some rec" and "tk_RevokedAt rec = None" and "tk_TokenHash rec = hashToken sha256 tok"
    and "\<And>m rec. token_of (content (st_db st) t) m = Some rec \<Longrightarrow> m \<noteq> n \<Longrightarrow> tk_RevokedAt rec = None \<Longrightarrow>
      tk_TokenHash rec \<noteq> hashToken sha256 tok"
  shows "r = (coerce_utf8 n, True)"
proof -
  obtain m ok where r: "r = (m, ok)" by (cases r)
  note L = LookupNodeID_result [OF assms(1) assms(2) [unfolded r]]
  have ok
  proof (rule ccontr)
    assume "\<not> ok"
    then have "\<not> active_with (hashToken sha256 tok) rec" using L(2) assms(3) by blast
    then show False using assms(4,5) by (simp add: active_with_def)
  qed
  with L(1) assms(6) r show ?thesis by (fastforce simp: active_with_def)
qed

lemma active_token_not_reissued:
  assumes "token_of (content (st_db st) t) n = Some rec" and "tk_RevokedAt rec = None"
    and "IssueToken sha256 B st t who rnd now t' who' n = (res, st')"
  shows "\<exists>err. res = Inl err" and "st_db st' = st_db st"
proof -
  show "\<exists>err. res = Inl err" using IssueToken_table(2) [of sha256 st t who rnd now t' who' n _ st' rec] assms by (cases res) auto
  then show "st_db st' = st_db st" using IssueToken_error assms(3) by blast
qed

lemma revoked_record:
  assumes "store_all content entry_ok st" and "\<And>u. token_of (content (st_db st) u) n = Some rec" and "tk_RevokedAt rec = None"
    and "RevokeToken B st t who now t' who' n = (None, st')" and "coerce_utf8 n = n"
  shows "token_of (content (st_db st') u) = (token_of (content (st_db st) u))(n \<mapsto> rec\<lparr>tk_RevokedAt := Some now\<rparr>)"
  using RevokeToken_table [OF assms(1,4), of u] assms(2,3,5) by auto

end

text \<open>
  The life of a token. From a successful issue on, at every instant and however much later, a lookup
  of the token succeeds whenever the database can be read, and resolves it to its node, provided no other
  node's active record has the same hash; meanwhile a second token for the node is refused, without a
  change to the database. After a successful revocation the token resolves to nothing, when the node id is
  UTF-8.
\<close>

lemma token_lifecycle:
  assumes "badger_db B content" and "store_all content entry_ok st"
    and "IssueToken sha256 B st t who rnd now t' who' n = (Inr tok, st1)"
    and unique: "\<And>u m rec. token_of (content (st_db st) u) m = Some rec \<Longrightarrow> m \<noteq> n \<Longrightarrow> tk_RevokedAt rec = None \<Longrightarrow>
      tk_TokenHash rec \<noteq> hashToken sha256 tok"
  shows "(bd_view B (st_db st1) u = Inr snap \<and> (\<forall>(k, v) \<in> set snap. \<exists>j. v = Inr j) \<longrightarrow>
      (\<exists>r. LookupNodeID sha256 B st1 u FnWins tok = Inr r)) \<and>
    (LookupNodeID sha256 B st1 u w tok = Inr r \<longrightarrow> r = (coerce_utf8 n, True)) \<and>
    (IssueToken sha256 B st1 i iw irnd inow i' iw' n = (res, st1') \<longrightarrow> (\<exists>err. res = Inl err) \<and> st_db st1' = st_db st1) \<and>
    (RevokeToken B st1 v rw rnow v' rw' n = (None, st2) \<longrightarrow> coerce_utf8 n = n \<longrightarrow>
      LookupNodeID sha256 B st2 u w tok = Inr r \<longrightarrow> r = ([], False))"
proof (intro conjI impI)
  let ?rec = "\<lparr>tk_NodeID = coerce_utf8 n, tk_TokenHash = hashToken sha256 tok, tk_IssuedAt = now, tk_RevokedAt = None\<rparr>"
  have T1: "token_of (content (st_db st1) u) = (token_of (content (st_db st) u))(n \<mapsto> ?rec)" for u
    using badger_db.IssueToken_table(3) [OF assms(1,3)] .
  have ok1: "store_all content entry_ok st1" using badger_db.IssueToken_all [OF assms(1-3)] .
  {
    assume "bd_view B (st_db st1) u = Inr snap \<and> (\<forall>(k, v) \<in> set snap. \<exists>j. v = Inr j)"
    then show "\<exists>r. LookupNodeID sha256 B st1 u FnWins tok = Inr r" using badger_db.LookupNodeID_returns [OF assms(1) ok1] by blast
  next
    assume "LookupNodeID sha256 B st1 u w tok = Inr r"
    from badger_db.sole_record_resolves [OF assms(1) ok1 this, of n ?rec] unique [of u] show "r = (coerce_utf8 n, True)"
      by (auto simp: T1 split: if_splits)
  next
    assume i: "IssueToken sha256 B st1 i iw irnd inow i' iw' n = (res, st1')"
    have "token_of (content (st_db st1) i) n = Some ?rec" by (simp add: T1)
    note R = badger_db.active_token_not_reissued [OF assms(1) this _ i]
    show "\<exists>err. res = Inl err" "st_db st1' = st_db st1" using R by simp_all
  next
    assume R: "RevokeToken B st1 v rw rnow v' rw' n = (None, st2)" and utf8: "coerce_utf8 n = n" and L: "LookupNodeID sha256 B st2 u w tok = Inr r"
    have T2: "token_of (content (st_db st2) u) = (token_of (content (st_db st) u))(n \<mapsto> ?rec\<lparr>tk_RevokedAt := Some rnow\<rparr>)"
      using badger_db.revoked_record [OF assms(1) ok1 _ _ R utf8, of ?rec u] by (simp add: T1)
    obtain m ok where r: "r = (m, ok)" by (cases r)
    note L' = badger_db.LookupNodeID_result [OF assms(1) badger_db.RevokeToken_all [OF assms(1) ok1 R] L [unfolded r]]
    have "\<not> ok" using L'(1) unique [of u] by (fastforce simp: T2 active_with_def split: if_splits)
    with L'(2) r show "r = ([], False)" by simp
  }
qed

text \<open>
  A node id that is not UTF-8. Its record is kept under the id itself but holds the id with U+FFFD in place of the
  bytes that are no UTF-8, and \<^verbatim>\<open>RevokeToken\<close> writes the revocation under the id in the record.
\<close>

definition revoke_step :: "'db badger \<Rightarrow> 'db Store \<Rightarrow> 'db Store \<Rightarrow> bool" where
  "revoke_step B st st' = (\<exists>t who now t' who' m res. RevokeToken B st t who now t' who' m = (res, st'))"

context badger_db
begin

lemma revoke_keeps_non_utf8:
  assumes "store_all content entry_ok st" and "coerce_utf8 n \<noteq> n" and "RevokeToken B st t who now t' who' m = (res, st')"
  shows "token_of (content (st_db st') u) n = token_of (content (st_db st) u) n"
proof (cases res)
  case None
  have "coerce_utf8 m \<noteq> n" using assms(2) by (metis coerce_utf8_idem)
  with RevokeToken_table [OF assms(1) assms(3) [unfolded None], of u] show ?thesis by auto
next
  case (Some err)
  then have "st_db st' = st_db st"
    using assms(3) by (auto simp: RevokeToken_def dest: putAgentToken_error split: sum.splits option.splits if_splits)
  then show ?thesis by simp
qed

lemma revokes_keep_non_utf8:
  assumes "(revoke_step B)\<^sup>*\<^sup>* st st'" and "store_all content entry_ok st" and "coerce_utf8 n \<noteq> n"
  shows "store_all content entry_ok st' \<and> (\<forall>u. token_of (content (st_db st') u) n = token_of (content (st_db st) u) n)"
  using assms(1)
proof induction
  case (step st1 st2)
  then show ?case
    using revoke_keeps_non_utf8 [OF _ assms(3)] RevokeToken_all unfolding revoke_step_def by metis
qed (simp add: assms(2))

end

text \<open>
  C39: a token of a node id that is not UTF-8 cannot be revoked. Once it is issued, whatever node ids \<^verbatim>\<open>RevokeToken\<close>
  is called with, however often and whatever it reports, the record of the token stays active: a second token for
  the id is refused, and a lookup of the token is answered whenever the database can be read, with success.
\<close>

theorem non_utf8_token_never_revoked:
  assumes "badger_db B content" and "store_all content entry_ok st" and "coerce_utf8 n \<noteq> n"
    and "IssueToken sha256 B st t who rnd now t' who' n = (Inr tok, st1)" and "(revoke_step B)\<^sup>*\<^sup>* st1 st2"
  shows "(\<exists>rec. token_of (content (st_db st2) u) n = Some rec \<and> tk_RevokedAt rec = None \<and> tk_TokenHash rec = hashToken sha256 tok) \<and>
    (IssueToken sha256 B st2 i iw irnd inow i' iw' n = (res, st3) \<longrightarrow> (\<exists>err. res = Inl err)) \<and>
    (LookupNodeID sha256 B st2 u w tok = Inr (m, ok) \<longrightarrow> ok) \<and>
    (bd_view B (st_db st2) u = Inr snap \<and> (\<forall>(k, v) \<in> set snap. \<exists>j. v = Inr j) \<longrightarrow>
      (\<exists>r. LookupNodeID sha256 B st2 u FnWins tok = Inr r))"
proof -
  let ?rec = "\<lparr>tk_NodeID = coerce_utf8 n, tk_TokenHash = hashToken sha256 tok, tk_IssuedAt = now, tk_RevokedAt = None\<rparr>"
  have "store_all content entry_ok st1" using badger_db.IssueToken_all [OF assms(1,2,4)] .
  note R = badger_db.revokes_keep_non_utf8 [OF assms(1,5) this assms(3)]
  have rec: "token_of (content (st_db st2) v) n = Some ?rec" for v
    using R badger_db.IssueToken_table(3) [OF assms(1,4), of v] by simp
  have "ok" if "LookupNodeID sha256 B st2 u w tok = Inr (m, ok)"
    using badger_db.LookupNodeID_result(2) [OF assms(1) conjunct1 [OF R] that] rec [of u]
    by (fastforce simp: active_with_def)
  moreover have "\<exists>err. res = Inl err" if "IssueToken sha256 B st2 i iw irnd inow i' iw' n = (res, st3)"
    using badger_db.active_token_not_reissued(1) [OF assms(1) rec _ that] by simp
  ultimately show ?thesis
    using rec [of u] badger_db.LookupNodeID_returns [OF assms(1) conjunct1 [OF R]] by auto
qed

definition demo_bad_id :: string where "demo_bad_id = ''web'' @ [CHR 0xFF]"

lemma demo_bad_id_coerced: "coerce_utf8 demo_bad_id = ''web'' @ [CHR 0xEF, CHR 0xBF, CHR 0xBD]"
  using coerce_utf8_bad [of "[CHR 0xFF]"] by (simp add: demo_bad_id_def coerce_utf8_Cons rune_at.simps)

definition demo_bad_issued :: "mem_db Store" where
  "demo_bad_issued = snd (IssueToken (\<lambda>s. s) mem_badger demo_store 0 FnWins (Inr ''k'') demo_now 0 FnWins demo_bad_id)"

definition demo_bad_revoked :: "mem_db Store" where
  "demo_bad_revoked = snd (RevokeToken mem_badger demo_bad_issued 1 FnWins demo_now 1 FnWins demo_bad_id)"

lemma demo_bad_issue:
  "IssueToken (\<lambda>s. s) mem_badger demo_store 0 FnWins (Inr ''k'') demo_now 0 FnWins demo_bad_id = (Inr (hex_encode ''k''), demo_bad_issued)"
  using demo_now_ok
  by (simp add: demo_bad_issued_def IssueToken_def getAgentToken_def putAgentToken_def read_with_context_def
      write_with_context_def generateToken_def marshal_token_def demo_store_def mem_content_def)

lemma demo_bad_revoke: "RevokeToken mem_badger demo_bad_issued 1 FnWins demo_now 1 FnWins demo_bad_id = (None, demo_bad_revoked)"
proof -
  have ok: "store_all mem_content entry_ok demo_bad_issued" by (rule mem.IssueToken_all [OF demo_store_ok demo_bad_issue])
  show ?thesis
    using mem.IssueToken_table(3) [OF demo_bad_issue, of 1] demo_now_ok
    by (simp add: demo_bad_revoked_def RevokeToken_def mem_getAgentToken [OF ok] putAgentToken_def write_with_context_def
        marshal_token_def)
qed

theorem non_utf8_token_never_revoked_witness:
  "RevokeToken mem_badger demo_bad_issued 1 FnWins demo_now 1 FnWins demo_bad_id = (None, demo_bad_revoked) \<and>
   (\<exists>m. LookupNodeID (\<lambda>s. s) mem_badger demo_bad_revoked 9 FnWins (hex_encode ''k'') = Inr (m, True))"
proof -
  have "(revoke_step mem_badger)\<^sup>*\<^sup>* demo_bad_issued demo_bad_revoked"
    by (rule r_into_rtranclp) (unfold revoke_step_def, intro exI, rule demo_bad_revoke)
  note N = non_utf8_token_never_revoked [OF mem.badger_db_axioms demo_store_ok _ demo_bad_issue this]
  have bad: "coerce_utf8 demo_bad_id \<noteq> demo_bad_id" by (simp add: demo_bad_id_coerced) (simp add: demo_bad_id_def)
  have "\<exists>r. LookupNodeID (\<lambda>s. s) mem_badger demo_bad_revoked 9 FnWins (hex_encode ''k'') = Inr r"
    using N [OF bad, of 9] by force
  then obtain m ok where r: "LookupNodeID (\<lambda>s. s) mem_badger demo_bad_revoked 9 FnWins (hex_encode ''k'') = Inr (m, ok)" by auto
  moreover have ok using N [OF bad] r by blast
  ultimately show ?thesis using demo_bad_revoke by auto
qed

text \<open>
  Telemetry cannot touch credentials: whatever event or alert is saved, with whatever ids and
  timestamps, every token resolves afterwards exactly as before.
\<close>

lemma saves_keep_tokens:
  assumes "badger_db B content" and "store_all content entry_ok st"
    and "(clock_ok received \<and> SaveEvent B st received now who e = (res, st')) \<or>
         (clock_ok (al_Timestamp a) \<and> SaveAlert B st now who a = (res, st'))"
    and "LookupNodeID sha256 B st t w tok = Inr r" and "LookupNodeID sha256 B st' t w' tok = Inr r'"
  shows "r' = r"
proof -
  have "store_all content entry_ok st' \<and> token_of (content (st_db st') t) = token_of (content (st_db st) t)"
    using assms(3)
    by (elim disjE conjE)
      (simp_all add: badger_db.SaveEvent_all [OF assms(1,2)] badger_db.SaveAlert_all [OF assms(1,2)]
        badger_db.SaveEvent_tokens [OF assms(1)] badger_db.SaveAlert_tokens [OF assms(1)])
  then show ?thesis using badger_db.LookupNodeID_table [OF assms(1,2)] assms(4,5) by blast
qed

text \<open>
  \<^verbatim>\<open>ListTokens\<close> returns every record of the table, revoked ones included, one for each node id a token was
  issued for, in strictly ascending order of these ids.
\<close>

lemma ListTokens_spec:
  assumes "badger_db B content" and "store_all content entry_ok st" and "ListTokens B st t who = Inr recs"
  shows "\<exists>ids. sorted_wrt (<) ids \<and> (\<forall>n. n \<in> set ids \<longleftrightarrow> token_of (content (st_db st) t) n \<noteq> None) \<and>
    map Some recs = map (token_of (content (st_db st) t)) ids"
proof -
  obtain ids where i: "sorted_wrt (<) ids" "set ids = dom (token_of (content (st_db st) t))"
      "recs = map (\<lambda>n. the (token_of (content (st_db st) t) n)) ids"
    using badger_db.tokens_asc_ids [OF assms(1,2), of t] badger_db.ListTokens_result [OF assms] by auto
  have "map Some recs = map (token_of (content (st_db st) t)) ids"
    unfolding i(3) list.map_comp by (rule map_cong [OF refl]) (use i(2) in auto)
  with i(1,2) show ?thesis by auto
qed

end
