(* ===== verification/Registry.thy ===== *)
theory Registry
  imports Go_Json
begin

text \<open>
  Package \<^verbatim>\<open>internal/registry\<close>: the agents that have registered, their heartbeats, and the sweep that
  marks silent agents inactive and evicts the ones that stay inactive. The registry's mutex makes each
  operation atomic; the clock readings are arguments. Shown: the invariant of the registry over all
  runs, what one sweep does to each agent, the life of an agent from a heartbeat on until it is evicted for
  its silence, and what the listings return.
\<close>

section \<open>Model\<close>

definition DefaultRegion :: string where "DefaultRegion = ''default''"

record AgentNode =
  an_NodeID :: string
  an_Hostname :: string
  an_IP :: string
  an_Version :: string
  an_Region :: string
  an_Registered :: time
  an_LastSeen :: time
  an_Status :: string
  an_inactiveSince :: time

definition normalizeRegion :: "string \<Rightarrow> string" where
  "normalizeRegion region = (if region = [] then DefaultRegion else region)"

record registry =
  nodes :: "(string, AgentNode) gomap"

definition registry_New :: registry where
  "registry_New = \<lparr>nodes = []\<rparr>"

definition registry_Register ::
  "registry \<Rightarrow> time \<Rightarrow> string \<Rightarrow> string \<Rightarrow> string \<Rightarrow> string \<Rightarrow> string \<Rightarrow> string + registry" where
  "registry_Register r now nodeID hostname ip version region0 =
     (if nodeID = [] then Inl ''node_id required''
      else
        let region = normalizeRegion region0
        in case gm_get (nodes r) nodeID of
          Some existing \<Rightarrow>
            Inr (r\<lparr>nodes := gm_put nodeID
              (existing\<lparr>an_LastSeen := now, an_Status := ''active'', an_Region := region,
                 an_inactiveSince := zero_time\<rparr>) (nodes r)\<rparr>)
        | None \<Rightarrow>
            Inr (r\<lparr>nodes := gm_put nodeID
              \<lparr>an_NodeID = nodeID, an_Hostname = hostname, an_IP = ip, an_Version = version,
               an_Region = region, an_Registered = now, an_LastSeen = now, an_Status = ''active'',
               an_inactiveSince = zero_time\<rparr> (nodes r)\<rparr>))"

definition Heartbeat :: "registry \<Rightarrow> time \<Rightarrow> string \<Rightarrow> registry" where
  "Heartbeat r now nodeID =
     (case gm_get (nodes r) nodeID of
        Some n \<Rightarrow> r\<lparr>nodes := gm_put nodeID
          (n\<lparr>an_LastSeen := now, an_Status := ''active'', an_inactiveSince := zero_time\<rparr>) (nodes r)\<rparr>
      | None \<Rightarrow> r)"

definition SetInactive :: "registry \<Rightarrow> string \<Rightarrow> registry" where
  "SetInactive r nodeID =
     (case gm_get (nodes r) nodeID of
        Some n \<Rightarrow> r\<lparr>nodes := gm_put nodeID (n\<lparr>an_Status := ''inactive''\<rparr>) (nodes r)\<rparr>
      | None \<Rightarrow> r)"

definition registry_List :: "registry \<Rightarrow> AgentNode list" where
  "registry_List r = map snd (nodes r)"

definition ListByRegion :: "registry \<Rightarrow> string \<Rightarrow> AgentNode list" where
  "ListByRegion r region0 =
     (let region = normalizeRegion region0
      in filter (\<lambda>n. an_Region n = region) (map snd (nodes r)))"

definition registry_Regions :: "registry \<Rightarrow> string list" where
  "registry_Regions r = sort (remdups (map (an_Region \<circ> snd) (nodes r)))"

text \<open>The JSON form of a node: the struct tags of \<^verbatim>\<open>AgentNode\<close>; \<^verbatim>\<open>inactiveSince\<close> is not exported.\<close>

definition node_json :: "AgentNode \<Rightarrow> json" where
  "node_json n = JObj
     [(''node_id'', JStr (an_NodeID n)), (''hostname'', JStr (an_Hostname n)), (''ip'', JStr (an_IP n)),
      (''version'', JStr (an_Version n)), (''region'', JStr (an_Region n)),
      (''registered'', JTime (an_Registered n)), (''last_seen'', JTime (an_LastSeen n)),
      (''status'', JStr (an_Status n))]"

definition marshal_node :: "AgentNode \<Rightarrow> json option" where
  "marshal_node n =
     (if json_time_ok (an_Registered n) \<and> json_time_ok (an_LastSeen n) then Some (node_json n) else None)"

definition registry_MarshalJSON :: "registry \<Rightarrow> json option" where
  "registry_MarshalJSON r = marshal_slice marshal_node (registry_List r)"

definition DefaultEvictAfter :: duration where "DefaultEvictAfter = 24 * hour"
definition DefaultHeartbeatTimeout :: duration where "DefaultHeartbeatTimeout = 60 * second"
definition DefaultHeartbeatInterval :: duration where "DefaultHeartbeatInterval = 30 * second"

text \<open>The body of the loop of \<^verbatim>\<open>markStaleInactive\<close>, for one entry of the map.\<close>

definition sweep_entry ::
  "time \<Rightarrow> duration \<Rightarrow> duration \<Rightarrow> string \<Rightarrow> AgentNode \<Rightarrow> (string, AgentNode) gomap \<Rightarrow> (string, AgentNode) gomap" where
  "sweep_entry now timeout evictAfter nid n m =
     (let deadline = time_add now (dur_neg timeout);
          n' = (if an_Status n = ''active'' \<and> an_LastSeen n < deadline
                then n\<lparr>an_Status := ''inactive'', an_inactiveSince := now\<rparr> else n);
          m' = gm_put nid n' m
      in if an_Status n' = ''inactive'' \<and> an_inactiveSince n' \<noteq> zero_time
            \<and> time_sub now (an_inactiveSince n') > evictAfter
         then gm_del nid m' else m')"

definition markStaleInactive :: "registry \<Rightarrow> time \<Rightarrow> duration \<Rightarrow> duration \<Rightarrow> registry" where
  "markStaleInactive r now timeout evictAfter =
     r\<lparr>nodes := gm_range (sweep_entry now timeout evictAfter) (nodes r)\<rparr>"

text \<open>
  \<^verbatim>\<open>StartHeartbeatChecker\<close> replaces a timeout and an interval that are not positive, then sweeps at
  every tick; \<open>ticks\<close> are the clock readings of the ticks that fire before the context is cancelled.
\<close>

definition checker_timeout :: "duration \<Rightarrow> duration" where
  "checker_timeout timeout = (if timeout \<le> 0 then DefaultHeartbeatTimeout else timeout)"

definition checker_interval :: "duration \<Rightarrow> duration" where
  "checker_interval interval = (if interval \<le> 0 then DefaultHeartbeatInterval else interval)"

definition StartHeartbeatChecker :: "registry \<Rightarrow> duration \<Rightarrow> duration \<Rightarrow> time list \<Rightarrow> registry" where
  "StartHeartbeatChecker r timeout evictAfter ticks =
     fold (\<lambda>now r. markStaleInactive r now (checker_timeout timeout) evictAfter) ticks r"

section \<open>Specification\<close>

text \<open>What a sweep at \<open>now\<close> makes of one agent; nothing when it evicts it.\<close>

definition sweep_node :: "time \<Rightarrow> duration \<Rightarrow> duration \<Rightarrow> AgentNode \<Rightarrow> AgentNode option" where
  "sweep_node now timeout evictAfter n =
     (if an_Status n = ''active'' then
        if an_LastSeen n < time_add now (dur_neg timeout)
        then (if now \<noteq> zero_time \<and> evictAfter < 0 then None
              else Some (n\<lparr>an_Status := ''inactive'', an_inactiveSince := now\<rparr>))
        else Some n
      else if an_Status n = ''inactive'' \<and> an_inactiveSince n \<noteq> zero_time
              \<and> time_sub now (an_inactiveSince n) > evictAfter
      then None else Some n)"

definition node_ok :: "string \<Rightarrow> AgentNode \<Rightarrow> bool" where
  "node_ok nid n =
     (nid \<noteq> [] \<and> an_NodeID n = nid \<and> an_Region n \<noteq> []
      \<and> (an_Status n = ''active'' \<and> an_inactiveSince n = zero_time \<or> an_Status n = ''inactive''))"

definition registry_inv :: "registry \<Rightarrow> bool" where
  "registry_inv r = (gm_wf (nodes r) \<and> (\<forall>(nid, n) \<in> set (nodes r). node_ok nid n))"

inductive registry_step :: "registry \<Rightarrow> registry \<Rightarrow> bool" where
  register: "registry_Register r now nid host ip ver region = Inr r' \<Longrightarrow> registry_step r r'"
| heartbeat: "registry_step r (Heartbeat r now nid)"
| set_inactive: "registry_step r (SetInactive r nid)"
| sweep: "registry_step r (markStaleInactive r now timeout evictAfter)"

section \<open>Invariant\<close>

lemma registry_inv_iff:
  "registry_inv r \<longleftrightarrow> gm_wf (nodes r) \<and> (\<forall>nid n. gm_get (nodes r) nid = Some n \<longrightarrow> node_ok nid n)"
  by (auto simp: registry_inv_def gm_get_in_set)

lemma registry_inv_get: "registry_inv r \<Longrightarrow> gm_get (nodes r) nid = Some n \<Longrightarrow> node_ok nid n"
  by (simp add: registry_inv_iff)

lemma registry_inv_wf [simp]: "registry_inv r \<Longrightarrow> gm_wf (nodes r)"
  by (simp add: registry_inv_iff)

lemma registry_inv_put:
  "registry_inv r \<Longrightarrow> node_ok nid n \<Longrightarrow> registry_inv (r\<lparr>nodes := gm_put nid n (nodes r)\<rparr>)"
  by (simp add: registry_inv_iff)

lemma normalizeRegion_nonempty [simp]: "normalizeRegion region \<noteq> []"
  by (simp add: normalizeRegion_def DefaultRegion_def)

lemma registry_New_inv: "registry_inv registry_New"
  by (simp add: registry_inv_def registry_New_def)

lemma Register_inv:
  assumes "registry_inv r" and "registry_Register r now nid host ip ver region = Inr r'"
  shows "registry_inv r'"
  using assms registry_inv_get [OF assms(1), of nid]
  by (auto simp: registry_Register_def node_ok_def Let_def split: if_splits option.splits
      intro!: registry_inv_put)

lemma Heartbeat_inv: "registry_inv r \<Longrightarrow> registry_inv (Heartbeat r now nid)"
  using registry_inv_get [of r nid]
  by (auto simp: Heartbeat_def node_ok_def split: option.splits intro!: registry_inv_put)

lemma SetInactive_inv: "registry_inv r \<Longrightarrow> registry_inv (SetInactive r nid)"
  using registry_inv_get [of r nid]
  by (auto simp: SetInactive_def node_ok_def split: option.splits intro!: registry_inv_put)

lemma sweep_entry_get:
  "gm_get (sweep_entry now timeout evictAfter nid n m) j =
    (if j = nid then sweep_node now timeout evictAfter n else gm_get m j)"
  by (auto simp: sweep_entry_def sweep_node_def Let_def time_sub_def int64_min_def int64_max_def)

lemma markStaleInactive_get:
  assumes "gm_wf (nodes r)"
  shows "gm_get (nodes (markStaleInactive r now timeout evictAfter)) nid =
    Option.bind (gm_get (nodes r) nid) (sweep_node now timeout evictAfter)"
  using gm_range_pointwise [OF sweep_entry_get assms] by (simp add: markStaleInactive_def)

lemma markStaleInactive_wf:
  "gm_wf (nodes r) \<Longrightarrow> gm_wf (nodes (markStaleInactive r now timeout evictAfter))"
  by (auto simp: markStaleInactive_def sweep_entry_def Let_def intro: gm_range_wf)

lemma sweep_node_ok: "node_ok nid n \<Longrightarrow> sweep_node now timeout evictAfter n = Some n' \<Longrightarrow> node_ok nid n'"
  by (auto simp: sweep_node_def node_ok_def split: if_splits)

lemma markStaleInactive_inv: "registry_inv r \<Longrightarrow> registry_inv (markStaleInactive r now timeout evictAfter)"
  by (auto simp: registry_inv_iff markStaleInactive_wf markStaleInactive_get bind_eq_Some_conv
      intro: sweep_node_ok)

lemmas registry_ops_inv =
  Register_inv Heartbeat_inv SetInactive_inv markStaleInactive_inv

inductive_cases registry_stepE: "registry_step r r'"

interpretation registry_sys: invariant_system "\<lambda>r. r = registry_New" registry_step registry_inv
  by unfold_locales (auto simp: registry_New_inv elim!: registry_stepE intro: registry_ops_inv)

section \<open>Sequences of sweeps\<close>

lemma StartHeartbeatChecker_Nil [simp]: "StartHeartbeatChecker r timeout evictAfter [] = r"
  by (simp add: StartHeartbeatChecker_def)

lemma StartHeartbeatChecker_Cons [simp]:
  "StartHeartbeatChecker r timeout evictAfter (t # ts) =
    StartHeartbeatChecker (markStaleInactive r t (checker_timeout timeout) evictAfter) timeout evictAfter ts"
  by (simp add: StartHeartbeatChecker_def)

lemma StartHeartbeatChecker_append:
  "StartHeartbeatChecker r timeout evictAfter (ts @ us) =
    StartHeartbeatChecker (StartHeartbeatChecker r timeout evictAfter ts) timeout evictAfter us"
  by (simp add: StartHeartbeatChecker_def)

lemma StartHeartbeatChecker_inv: "registry_inv r \<Longrightarrow> registry_inv (StartHeartbeatChecker r timeout evictAfter ts)"
  by (induction ts arbitrary: r) (auto intro: markStaleInactive_inv)

text \<open>An agent that every sweep of a sequence leaves alone is the same agent after the sequence.\<close>

lemma sweeps_stable:
  assumes "registry_inv r" and "gm_get (nodes r) nid = Some n"
    and "\<And>t. t \<in> set ts \<Longrightarrow> sweep_node t (checker_timeout timeout) evictAfter n = Some n"
  shows "gm_get (nodes (StartHeartbeatChecker r timeout evictAfter ts)) nid = Some n"
  using assms
proof (induction ts arbitrary: r)
  case Nil
  then show ?case by simp
next
  case (Cons t ts)
  let ?r = "markStaleInactive r t (checker_timeout timeout) evictAfter"
  have "gm_get (nodes ?r) nid = Some n"
    using Cons.prems by (simp add: markStaleInactive_get)
  then show ?case using Cons by (simp add: markStaleInactive_inv)
qed

lemma checker_timeout_pos: "0 < checker_timeout timeout"
  by (simp add: checker_timeout_def DefaultHeartbeatTimeout_def second_def)

lemma deadline_eq: "time_add now (dur_neg (checker_timeout timeout)) = now - checker_timeout timeout"
  using checker_timeout_pos [of timeout] by (intro time_add_dur_neg) (simp add: int64_min_def)

lemma sweep_node_recent:
  "an_Status n = ''active'' \<Longrightarrow> now \<le> an_LastSeen n + checker_timeout timeout \<Longrightarrow>
    sweep_node now (checker_timeout timeout) evictAfter n = Some n"
  by (simp add: sweep_node_def deadline_eq)

lemma sweep_node_silent:
  "an_Status n = ''active'' \<Longrightarrow> an_LastSeen n + checker_timeout timeout < now \<Longrightarrow> 0 \<le> evictAfter \<Longrightarrow>
    sweep_node now (checker_timeout timeout) evictAfter n =
      Some (n\<lparr>an_Status := ''inactive'', an_inactiveSince := now\<rparr>)"
  by (simp add: sweep_node_def deadline_eq)

lemma Heartbeat_get:
  "gm_get (nodes (Heartbeat r now nid)) j =
    (if j = nid then map_option (\<lambda>n. n\<lparr>an_LastSeen := now, an_Status := ''active'', an_inactiveSince := zero_time\<rparr>)
       (gm_get (nodes r) nid) else gm_get (nodes r) j)"
  by (simp add: Heartbeat_def split: option.split)

lemma SetInactive_get:
  "gm_get (nodes (SetInactive r nid)) j =
    (if j = nid then map_option (\<lambda>n. n\<lparr>an_Status := ''inactive''\<rparr>) (gm_get (nodes r) nid)
     else gm_get (nodes r) j)"
  by (simp add: SetInactive_def split: option.split)

section \<open>Properties\<close>

text \<open>A registry with two agents, for the concrete instances below.\<close>

definition demo_node :: "string \<Rightarrow> time \<Rightarrow> AgentNode" where
  "demo_node nid t = \<lparr>an_NodeID = nid, an_Hostname = ''h'', an_IP = [], an_Version = ''0.1'',
     an_Region = ''default'', an_Registered = t, an_LastSeen = t, an_Status = ''active'',
     an_inactiveSince = zero_time\<rparr>"

definition demo_registry :: registry where
  "demo_registry = \<lparr>nodes = [(''a'', demo_node ''a'' 10), (''b'', demo_node ''b'' 90)]\<rparr>"

lemma demo_registry_inv: "registry_inv demo_registry"
  by (simp add: demo_registry_def demo_node_def registry_inv_def gm_wf_def node_ok_def)

text \<open>
  In every state the registry can reach from its creation by registrations, heartbeats, explicit
  deactivations and sweeps, each agent is stored under its own non-empty node id, once, has a region,
  is either active or inactive, and is recorded as inactive since some instant only when inactive.
\<close>

lemma registry_reachable_inv:
  assumes "registry_step\<^sup>*\<^sup>* registry_New r"
  shows "distinct (map fst (nodes r)) \<and>
    (\<forall>nid n. gm_get (nodes r) nid = Some n \<longrightarrow>
       nid \<noteq> [] \<and> an_NodeID n = nid \<and> an_Region n \<noteq> [] \<and>
       (an_Status n = ''active'' \<and> an_inactiveSince n = zero_time \<or> an_Status n = ''inactive''))"
  using registry_sys.inv_reachable [OF refl assms]
  by (auto simp: registry_inv_iff gm_wf_def node_ok_def)

text \<open>
  C5: one sweep of the heartbeat checker treats every agent by itself, whatever order the map is
  visited in: an active agent silent for longer than the timeout becomes inactive since the sweep, an
  agent inactive for longer than the eviction time is removed, every other agent is unchanged.
\<close>

theorem markStaleInactive_refines:
  assumes "registry_inv r"
  shows "registry_inv (markStaleInactive r now timeout evictAfter) \<and>
    gm_get (nodes (markStaleInactive r now timeout evictAfter)) nid =
      Option.bind (gm_get (nodes r) nid) (sweep_node now timeout evictAfter)"
  using assms by (simp add: markStaleInactive_inv markStaleInactive_get)

theorem markStaleInactive_refines_witness:
  "registry_inv demo_registry \<and>
    map_option an_Status (gm_get (nodes (markStaleInactive demo_registry 100 50 1000)) ''a'') = Some ''inactive'' \<and>
    map_option an_Status (gm_get (nodes (markStaleInactive demo_registry 100 50 1000)) ''b'') = Some ''active''"
  using demo_registry_inv markStaleInactive_refines [OF demo_registry_inv, of 100 50 1000 "''a''"]
    markStaleInactive_refines [OF demo_registry_inv, of 100 50 1000 "''b''"]
  by (simp add: demo_registry_def demo_node_def sweep_node_def time_add_def dur_neg_def int64_min_def)

text \<open>
  A heartbeat protects: as long as no sweep happens later than the timeout after an agent's
  heartbeat, no number of sweeps marks the agent inactive or removes it.
\<close>

lemma heartbeat_keeps_active:
  assumes "registry_inv r" and "gm_get (nodes r) nid = Some n"
    and "\<forall>t \<in> set ticks. t \<le> now + checker_timeout timeout"
  shows "gm_get (nodes (StartHeartbeatChecker (Heartbeat r now nid) timeout evictAfter ticks)) nid =
    Some (n\<lparr>an_LastSeen := now, an_Status := ''active'', an_inactiveSince := zero_time\<rparr>)"
  by (rule sweeps_stable)
    (use assms in \<open>auto simp: Heartbeat_inv Heartbeat_get intro: sweep_node_recent\<close>)

text \<open>
  Silence has consequences: the first sweep later than the timeout after an active agent was last
  seen marks it inactive since that sweep, sweeps within the eviction time leave it so, and the first
  sweep later than the eviction time after that removes it from the registry.
\<close>

lemma silent_agent_marked_then_evicted:
  assumes "registry_inv r" and "gm_get (nodes r) nid = Some n" and "an_Status n = ''active''"
    and "an_LastSeen n + checker_timeout timeout < t" and "t \<noteq> zero_time"
    and "0 \<le> evictAfter" and "evictAfter < int64_max"
    and "\<forall>u \<in> set mids. u \<le> t + evictAfter" and "t + evictAfter < t'"
  shows "gm_get (nodes (StartHeartbeatChecker r timeout evictAfter (t # mids))) nid =
      Some (n\<lparr>an_Status := ''inactive'', an_inactiveSince := t\<rparr>) \<and>
    gm_get (nodes (StartHeartbeatChecker r timeout evictAfter (t # mids @ [t']))) nid = None"
proof -
  let ?n = "n\<lparr>an_Status := ''inactive'', an_inactiveSince := t\<rparr>"
  let ?r = "StartHeartbeatChecker r timeout evictAfter (t # mids)"
  have ev: "valid_duration evictAfter" using assms(6,7) by (simp add: valid_duration_def int64_min_def)
  have stay: "sweep_node u (checker_timeout timeout) evictAfter ?n = Some ?n" if "u \<le> t + evictAfter" for u
    using that time_sub_greater [OF ev assms(7), of u t] by (simp add: sweep_node_def)
  have gone: "sweep_node t' (checker_timeout timeout) evictAfter ?n = None"
    using assms(5,9) time_sub_greater [OF ev assms(7), of t' t] by (simp add: sweep_node_def)
  have marked: "gm_get (nodes ?r) nid = Some ?n"
    unfolding StartHeartbeatChecker_Cons
    by (rule sweeps_stable)
      (use assms stay in \<open>auto simp: markStaleInactive_inv markStaleInactive_get sweep_node_silent\<close>)
  moreover have "registry_inv ?r" using assms(1) by (rule StartHeartbeatChecker_inv)
  ultimately have "gm_get (nodes (StartHeartbeatChecker ?r timeout evictAfter [t'])) nid = None"
    using gone by (simp add: markStaleInactive_get)
  with marked show ?thesis
    using StartHeartbeatChecker_append [of r timeout evictAfter "t # mids" "[t']"] by simp
qed

text \<open>
  C21: the life of an agent after a heartbeat, whatever its status was before: sweeps up to the timeout after
  the heartbeat leave it active; the first sweep later than that marks it inactive since the sweep; sweeps
  within the eviction time leave it so; and the first sweep later than the eviction time removes it.
\<close>

theorem agent_lifecycle:
  assumes "registry_inv r" and "gm_get (nodes r) nid = Some n"
    and "\<forall>u \<in> set early. u \<le> now + checker_timeout timeout" and "now + checker_timeout timeout < t" and "t \<noteq> zero_time"
    and "0 \<le> evictAfter" and "evictAfter < int64_max"
    and "\<forall>u \<in> set mids. u \<le> t + evictAfter" and "t + evictAfter < t'"
    and "sweeps = StartHeartbeatChecker (Heartbeat r now nid) timeout evictAfter"
    and "seen = n\<lparr>an_LastSeen := now, an_Status := ''active'', an_inactiveSince := zero_time\<rparr>"
  shows "gm_get (nodes (sweeps early)) nid = Some seen \<and>
    gm_get (nodes (sweeps (early @ t # mids))) nid = Some (seen\<lparr>an_Status := ''inactive'', an_inactiveSince := t\<rparr>) \<and>
    gm_get (nodes (sweeps (early @ t # mids @ [t']))) nid = None"
proof -
  have k: "gm_get (nodes (sweeps early)) nid = Some seen"
    using heartbeat_keeps_active [OF assms(1-3)] assms(10,11) by simp
  have "registry_inv (sweeps early)"
    using assms(1) by (simp add: assms(10) Heartbeat_inv StartHeartbeatChecker_inv)
  note later = silent_agent_marked_then_evicted [OF this k _ _ assms(5-9), where timeout = timeout]
  from later show ?thesis
    using k assms(4) by (simp add: assms(10,11) StartHeartbeatChecker_append)
qed

theorem agent_lifecycle_witness:
  "let sweeps = StartHeartbeatChecker (Heartbeat demo_registry 100 ''a'') 50 1000 in
    map_option an_Status (gm_get (nodes (sweeps [120, 150])) ''a'') = Some ''active'' \<and>
    map_option an_Status (gm_get (nodes (sweeps [120, 150, 151, 160])) ''a'') = Some ''inactive'' \<and>
    gm_get (nodes (sweeps [120, 150, 151, 160, 1152])) ''a'' = None"
proof -
  have n: "gm_get (nodes demo_registry) ''a'' = Some (demo_node ''a'' 10)" by (simp add: demo_registry_def)
  have "\<forall>u \<in> set [120, 150]. u \<le> 100 + checker_timeout 50" "100 + checker_timeout 50 < 151" "151 \<noteq> zero_time"
    by (simp_all add: checker_timeout_def zero_time_def)
  from agent_lifecycle [OF demo_registry_inv n this, of 1000 "[160]" 1152, OF _ _ _ _ refl refl] show ?thesis
    by (simp add: int64_max_def Let_def)
qed

text \<open>
  Registration. An empty node id is refused and nothing changes. Otherwise the agent is active,
  last seen now, in the requested region (the default one when none is given); a first registration
  records host, address and version, a repeated one keeps the ones of the first registration, and no
  other agent is affected.
\<close>

lemma Register_effect:
  "(nid = [] \<longrightarrow> registry_Register r now nid host ip ver region = Inl ''node_id required'') \<and>
   (nid \<noteq> [] \<longrightarrow> (\<exists>r' n. registry_Register r now nid host ip ver region = Inr r' \<and>
      gm_get (nodes r') nid = Some n \<and>
      an_Status n = ''active'' \<and> an_LastSeen n = now \<and> an_inactiveSince n = zero_time \<and>
      an_Region n = (if region = [] then ''default'' else region) \<and>
      (case gm_get (nodes r) nid of
         None \<Rightarrow> an_NodeID n = nid \<and> an_Hostname n = host \<and> an_IP n = ip \<and> an_Version n = ver
                 \<and> an_Registered n = now
       | Some old \<Rightarrow> an_NodeID n = an_NodeID old \<and> an_Hostname n = an_Hostname old \<and> an_IP n = an_IP old
                 \<and> an_Version n = an_Version old \<and> an_Registered n = an_Registered old) \<and>
      (\<forall>j. j \<noteq> nid \<longrightarrow> gm_get (nodes r') j = gm_get (nodes r) j)))"
  by (auto simp: registry_Register_def normalizeRegion_def DefaultRegion_def Let_def split: option.split)

text \<open>
  The regions partition the registry: \<^verbatim>\<open>Regions\<close> is sorted without repetitions, and the agents
  listed region by region are exactly the agents listed at once, each once.
\<close>

lemma regions_partition:
  assumes "registry_inv r"
  shows "sorted (registry_Regions r) \<and> distinct (registry_Regions r) \<and>
    mset (concat (map (ListByRegion r) (registry_Regions r))) = mset (registry_List r)"
proof -
  have reg: "an_Region n \<noteq> []" if "n \<in> snd ` set (nodes r)" for n
    using that assms by (auto simp: registry_inv_def node_ok_def)
  have by_region: "ListByRegion r g = filter (\<lambda>n. an_Region n = g) (registry_List r)"
    if "g \<in> set (registry_Regions r)" for g
    using that reg by (auto simp: ListByRegion_def registry_List_def registry_Regions_def normalizeRegion_def)
  have "concat (map (ListByRegion r) (registry_Regions r)) =
      concat (map (\<lambda>g. filter (\<lambda>n. an_Region n = g) (registry_List r)) (registry_Regions r))"
    by (intro arg_cong [where f = concat] map_cong refl by_region)
  moreover have "distinct (registry_Regions r)" "sorted (registry_Regions r)"
    by (simp_all add: registry_Regions_def)
  moreover have "\<forall>n \<in> set (registry_List r). an_Region n \<in> set (registry_Regions r)"
    by (auto simp: registry_List_def registry_Regions_def)
  ultimately show ?thesis by (simp add: mset_concat_filter)
qed

text \<open>
  C37: an agent that was active when \<^verbatim>\<open>SetInactive\<close> marked it is never evicted, however many sweeps
  follow and however late: \<^verbatim>\<open>SetInactive\<close> does not record since when the agent is inactive, and the
  sweep evicts only agents with such a record.
\<close>

theorem SetInactive_never_evicted:
  assumes "registry_inv r" and "gm_get (nodes r) nid = Some n" and "an_Status n = ''active''"
  shows "gm_get (nodes (StartHeartbeatChecker (SetInactive r nid) timeout evictAfter ticks)) nid =
    Some (n\<lparr>an_Status := ''inactive''\<rparr>)"
proof (rule sweeps_stable)
  have z: "an_inactiveSince n = zero_time"
    using registry_inv_get [OF assms(1,2)] assms(3) by (simp add: node_ok_def)
  show "sweep_node t (checker_timeout timeout) evictAfter (n\<lparr>an_Status := ''inactive''\<rparr>) =
      Some (n\<lparr>an_Status := ''inactive''\<rparr>)" for t
    by (simp add: sweep_node_def z)
qed (use assms in \<open>auto simp: SetInactive_inv SetInactive_get\<close>)

theorem SetInactive_never_evicted_witness:
  "gm_get (nodes (StartHeartbeatChecker (SetInactive demo_registry ''a'') 50 1000 [10 ^ 18])) ''a'' =
    Some ((demo_node ''a'' 10)\<lparr>an_Status := ''inactive''\<rparr>)"
  by (rule SetInactive_never_evicted [OF demo_registry_inv])
    (simp_all add: demo_registry_def demo_node_def)

end
