(* ===== verification/Anomaly.thy ===== *)
theory Anomaly
  imports StoreTypes
begin

text \<open>
  Package \<^verbatim>\<open>internal/anomaly\<close>: per node and event type, the instants of the recent events, and the alert
  when more of them than a threshold fall into a sliding window. The detector forgets instants as it
  goes (\<^verbatim>\<open>prune\<close> at every event, \<^verbatim>\<open>gc\<close> for keys that went quiet); what it decides is compared here with
  the complete history of the events. The clock readings (non-decreasing, as Go's monotonic clock is)
  and the fresh alert id are arguments.
\<close>

section \<open>Model\<close>

record WindowConfig =
  wc_Duration :: duration
  wc_Threshold :: int

definition DefaultWindows :: "WindowConfig list" where
  "DefaultWindows =
     [\<lparr>wc_Duration = minute, wc_Threshold = 30\<rparr>, \<lparr>wc_Duration = 5 * minute, wc_Threshold = 100\<rparr>]"

record windowKey =
  wk_NodeID :: string
  wk_EventType :: string

record Detector =
  dt_windows :: "WindowConfig list"
  dt_timestamps :: "(windowKey, time list) gomap"

definition detector_New :: "WindowConfig list \<Rightarrow> Detector" where
  "detector_New windows =
     \<lparr>dt_windows = (if windows = [] then DefaultWindows else windows), dt_timestamps = []\<rparr>"

text \<open>\<^verbatim>\<open>d.timestamps[key]\<close>: a missing key reads as the nil slice.\<close>

definition timestamps_of :: "Detector \<Rightarrow> windowKey \<Rightarrow> time list" where
  "timestamps_of d key = (case gm_get (dt_timestamps d) key of None \<Rightarrow> [] | Some ts \<Rightarrow> ts)"

definition maxDuration :: "Detector \<Rightarrow> duration" where
  "maxDuration d = fold (\<lambda>w mx. if wc_Duration w > mx then wc_Duration w else mx) (dt_windows d) 0"

definition prune :: "Detector \<Rightarrow> windowKey \<Rightarrow> time \<Rightarrow> Detector" where
  "prune d key now =
     (let cutoff = time_add now (dur_neg (maxDuration d));
          ts = timestamps_of d key;
          i = length (takeWhile (\<lambda>t. t < cutoff) ts)
      in if 0 < i then d\<lparr>dt_timestamps := gm_put key (drop i ts) (dt_timestamps d)\<rparr> else d)"

fun count_from :: "time \<Rightarrow> time list \<Rightarrow> int" where
  "count_from cutoff [] = 0"
| "count_from cutoff (t # ts) = (if \<not> t < cutoff then 1 else 0) + count_from cutoff ts"

definition countWithin :: "Detector \<Rightarrow> windowKey \<Rightarrow> time \<Rightarrow> duration \<Rightarrow> int" where
  "countWithin d key now dur = count_from (time_add now (dur_neg dur)) (timestamps_of d key)"

text \<open>
  \<^verbatim>\<open>%q\<close> of an event type. The types the collector records are ASCII (\<^verbatim>\<open>eventTypeName\<close>); bytes beyond
  ASCII are copied.
\<close>

definition quote_byte :: "char \<Rightarrow> string" where
  "quote_byte c =
     (let n = (of_char c :: nat) in
      if c = CHR 0x22 \<or> c = CHR 0x5C then [CHR 0x5C, c]
      else if n = 7 then [CHR 0x5C, CHR ''a''] else if n = 8 then [CHR 0x5C, CHR ''b'']
      else if n = 12 then [CHR 0x5C, CHR ''f''] else if n = 10 then [CHR 0x5C, CHR ''n'']
      else if n = 13 then [CHR 0x5C, CHR ''r''] else if n = 9 then [CHR 0x5C, CHR ''t'']
      else if n = 11 then [CHR 0x5C, CHR ''v'']
      else if n < 32 \<or> n = 127 then [CHR 0x5C, CHR ''x''] @ hex_encode [c]
      else [c])"

definition sprintf_q :: "string \<Rightarrow> string" where
  "sprintf_q s = [CHR 0x22] @ concat (map quote_byte s) @ [CHR 0x22]"

definition anomaly_message :: "int \<Rightarrow> string \<Rightarrow> WindowConfig \<Rightarrow> string" where
  "anomaly_message cnt etype w =
     ''anomaly: '' @ fmt_int cnt @ '' '' @ sprintf_q etype @ '' events in '' @ duration_string (wc_Duration w) @
     '' exceeds threshold '' @ fmt_int (wc_Threshold w)"

definition anomaly_alert :: "string \<Rightarrow> time \<Rightarrow> Event \<Rightarrow> int \<Rightarrow> WindowConfig \<Rightarrow> Alert" where
  "anomaly_alert uuid now event cnt w =
     \<lparr>al_AlertID = uuid, al_RuleID = ''anomaly_'' @ ev_Type event, al_NodeID = ev_NodeID event,
      al_EventID = ev_EventID event, al_Timestamp = now, al_Message = anomaly_message cnt (ev_Type event) w,
      al_Severity = ''warning''\<rparr>"

text \<open>The loop over the windows of \<^verbatim>\<open>Record\<close>, which stops at the first breach.\<close>

fun breach_loop :: "Detector \<Rightarrow> string \<Rightarrow> time \<Rightarrow> Event \<Rightarrow> WindowConfig list \<Rightarrow> Alert list" where
  "breach_loop d uuid now event [] = []"
| "breach_loop d uuid now event (w # ws) =
     (let cnt = countWithin d \<lparr>wk_NodeID = ev_NodeID event, wk_EventType = ev_Type event\<rparr> now (wc_Duration w)
      in if cnt > wc_Threshold w then [anomaly_alert uuid now event cnt w]
         else breach_loop d uuid now event ws)"

definition Record :: "Detector \<Rightarrow> time \<Rightarrow> string \<Rightarrow> Event \<Rightarrow> Alert list \<times> Detector" where
  "Record d now uuid event =
     (let key = \<lparr>wk_NodeID = ev_NodeID event, wk_EventType = ev_Type event\<rparr>;
          d1 = d\<lparr>dt_timestamps := gm_put key (timestamps_of d key @ [now]) (dt_timestamps d)\<rparr>;
          d2 = prune d1 key now
      in (breach_loop d2 uuid now event (dt_windows d2), d2))"

text \<open>
  \<^verbatim>\<open>int(d.Seconds())\<close> and its siblings truncate towards zero. (A \<^verbatim>\<open>float64\<close> separates the quotient from
  the next integer for all durations below 2000 hours.)
\<close>

definition durationLabel :: "duration \<Rightarrow> string" where
  "durationLabel d =
     (if d < minute then fmt_int (trunc_div d second) @ ''s''
      else if d < hour then fmt_int (trunc_div d minute) @ ''m''
      else fmt_int (trunc_div d hour) @ ''h'')"

definition inner_map :: "(string, (string, int) gomap) gomap \<Rightarrow> string \<Rightarrow> (string, int) gomap" where
  "inner_map result etype = (case gm_get result etype of None \<Rightarrow> [] | Some m \<Rightarrow> m)"

definition stats_window ::
  "time \<Rightarrow> string \<Rightarrow> time list \<Rightarrow> WindowConfig \<Rightarrow> (string, (string, int) gomap) gomap \<Rightarrow> (string, (string, int) gomap) gomap" where
  "stats_window now etype ts w result =
     (let label = durationLabel (wc_Duration w);
          cnt = count_from (time_add now (dur_neg (wc_Duration w))) ts;
          m = inner_map result etype
      in gm_put etype (gm_put label (gm_count m label + cnt) m) result)"

definition stats_key ::
  "WindowConfig list \<Rightarrow> time \<Rightarrow> windowKey \<times> time list \<Rightarrow> (string, (string, int) gomap) gomap \<Rightarrow> (string, (string, int) gomap) gomap" where
  "stats_key windows now entry result =
     (case entry of (key, ts) \<Rightarrow>
        let etype = wk_EventType key;
            result1 = (if gm_get result etype = None then gm_put etype [] result else result)
        in fold (stats_window now etype ts) windows result1)"

definition WindowStats :: "Detector \<Rightarrow> time \<Rightarrow> (string, (string, int) gomap) gomap" where
  "WindowStats d now = fold (stats_key (dt_windows d) now) (dt_timestamps d) []"

definition detector_gc :: "Detector \<Rightarrow> time \<Rightarrow> Detector" where
  "detector_gc d now =
     (let cutoff = time_add now (dur_neg (maxDuration d))
      in d\<lparr>dt_timestamps := gm_range (\<lambda>key ts m. if ts = [] \<or> last ts < cutoff then gm_del key m else m)
            (dt_timestamps d)\<rparr>)"

text \<open>\<^verbatim>\<open>StartGC\<close>: one \<^verbatim>\<open>gc\<close> at each of the ticks that fire before the context is done.\<close>

definition StartGC :: "Detector \<Rightarrow> time list \<Rightarrow> Detector" where
  "StartGC d ticks = fold (\<lambda>now d. detector_gc d now) ticks d"

section \<open>The history, and the runs of the detector\<close>

definition event_window_key :: "Event \<Rightarrow> windowKey" where
  "event_window_key e = \<lparr>wk_NodeID = ev_NodeID e, wk_EventType = ev_Type e\<rparr>"

type_synonym history = "(windowKey \<times> time) list"

definition times_of :: "history \<Rightarrow> windowKey \<Rightarrow> time list" where
  "times_of h key = map snd (filter (\<lambda>(k, _). k = key) h)"

text \<open>The number of recorded events of a key that are at most \<open>dur\<close> old.\<close>

definition recent :: "history \<Rightarrow> windowKey \<Rightarrow> time \<Rightarrow> duration \<Rightarrow> int" where
  "recent h key now dur = int (length (filter (\<lambda>t. now - dur \<le> t) (times_of h key)))"

inductive det_run :: "WindowConfig list \<Rightarrow> Detector \<Rightarrow> history \<Rightarrow> time \<Rightarrow> bool" for windows where
  start: "det_run windows (detector_New windows) [] now"
| recorded: "det_run windows d h t \<Longrightarrow> t \<le> now \<Longrightarrow> Record d now uuid e = (alerts, d') \<Longrightarrow>
    det_run windows d' (h @ [(event_window_key e, now)]) now"
| collect: "det_run windows d h t \<Longrightarrow> t \<le> now \<Longrightarrow> det_run windows (detector_gc d now) h now"

section \<open>What the detector remembers\<close>

text \<open>
  The instants held for a key are the end of its history; what is missing is older than the longest
  window.
\<close>

definition remembers :: "Detector \<Rightarrow> history \<Rightarrow> time \<Rightarrow> bool" where
  "remembers d h t =
     (gm_wf (dt_timestamps d) \<and>
      (\<forall>(_, u) \<in> set h. u \<le> t) \<and>
      (\<forall>key. \<exists>old. times_of h key = old @ timestamps_of d key \<and> (\<forall>u \<in> set old. u < t - maxDuration d)
        \<and> sorted (times_of h key)))"

lemma maxDuration_ge: "0 \<le> maxDuration d" "w \<in> set (dt_windows d) \<Longrightarrow> wc_Duration w \<le> maxDuration d"
proof -
  have "mx \<le> fold (\<lambda>w mx. if wc_Duration w > mx then wc_Duration w else mx) ws mx \<and>
      (\<forall>w \<in> set ws. wc_Duration w \<le> fold (\<lambda>w mx. if wc_Duration w > mx then wc_Duration w else mx) ws mx)" for ws mx
  proof (induction ws arbitrary: mx)
    case (Cons w ws)
    from Cons [of "if wc_Duration w > mx then wc_Duration w else mx"] show ?case by auto
  qed simp
  then show "0 \<le> maxDuration d" "w \<in> set (dt_windows d) \<Longrightarrow> wc_Duration w \<le> maxDuration d"
    by (auto simp: maxDuration_def)
qed

lemma cutoff_eq: "time_add now (dur_neg (maxDuration d)) = now - maxDuration d"
  using maxDuration_ge(1) [of d] by (intro time_add_dur_neg) (simp add: int64_min_def)

lemma count_from_filter: "count_from c ts = int (length (filter (\<lambda>t. c \<le> t) ts))"
  by (induction ts) auto

lemma times_of_snoc [simp]:
  "times_of (h @ [(k, t)]) key = times_of h key @ (if k = key then [t] else [])"
  by (simp add: times_of_def)

lemma timestamps_of_put [simp]:
  "timestamps_of (d\<lparr>dt_timestamps := gm_put k ts (dt_timestamps d)\<rparr>) key = (if key = k then ts else timestamps_of d key)"
  by (simp add: timestamps_of_def)

lemma prune_facts:
  "dt_windows (prune d key now) = dt_windows d"
  "gm_wf (dt_timestamps d) \<Longrightarrow> gm_wf (dt_timestamps (prune d key now))"
  "timestamps_of (prune d key now) k =
    (if k = key then dropWhile (\<lambda>t. t < now - maxDuration d) (timestamps_of d key) else timestamps_of d k)"
  by (auto simp: prune_def cutoff_eq Let_def dropWhile_eq_drop)

lemma maxDuration_cong: "dt_windows d = dt_windows d' \<Longrightarrow> maxDuration d = maxDuration d'"
  by (simp add: maxDuration_def)

lemma Record_facts:
  assumes "Record d now uuid e = (alerts, d')"
  shows "dt_windows d' = dt_windows d"
    and "gm_wf (dt_timestamps d) \<Longrightarrow> gm_wf (dt_timestamps d')"
    and "timestamps_of d' k = (if k = event_window_key e
      then dropWhile (\<lambda>t. t < now - maxDuration d) (timestamps_of d k @ [now]) else timestamps_of d k)"
    and "alerts = breach_loop d' uuid now e (dt_windows d)"
proof -
  have mx: "maxDuration (d\<lparr>dt_timestamps := m\<rparr>) = maxDuration d" for m by (rule maxDuration_cong) simp
  have al: "alerts = breach_loop d' uuid now e (dt_windows d')"
    using assms by (auto simp: Record_def Let_def)
  let ?k = "event_window_key e"
  let ?d1 = "d\<lparr>dt_timestamps := gm_put ?k (timestamps_of d ?k @ [now]) (dt_timestamps d)\<rparr>"
  have d': "d' = prune ?d1 ?k now"
    using assms by (simp add: Record_def Let_def event_window_key_def)
  show win: "dt_windows d' = dt_windows d" unfolding d' by (simp add: prune_facts)
  show "gm_wf (dt_timestamps d) \<Longrightarrow> gm_wf (dt_timestamps d')" unfolding d' by (simp add: prune_facts)
  show "timestamps_of d' k = (if k = ?k
      then dropWhile (\<lambda>t. t < now - maxDuration d) (timestamps_of d k @ [now]) else timestamps_of d k)"
    unfolding d' prune_facts(3) mx by simp
  show "alerts = breach_loop d' uuid now e (dt_windows d)" using al win by simp
qed

lemma detector_gc_facts:
  assumes "gm_wf (dt_timestamps d)"
  shows "dt_windows (detector_gc d now) = dt_windows d"
    and "gm_wf (dt_timestamps (detector_gc d now))"
    and "gm_get (dt_timestamps (detector_gc d now)) k =
      (case gm_get (dt_timestamps d) k of None \<Rightarrow> None
       | Some ts \<Rightarrow> if ts = [] \<or> last ts < now - maxDuration d then None else Some ts)"
proof -
  let ?f = "\<lambda>(key :: windowKey) ts. if ts = [] \<or> last ts < now - maxDuration d then None else Some ts"
  let ?body = "\<lambda>key ts m. if ts = [] \<or> last ts < now - maxDuration d then gm_del key m else m"
  show "dt_windows (detector_gc d now) = dt_windows d" by (simp add: detector_gc_def Let_def)
  show "gm_wf (dt_timestamps (detector_gc d now))"
    unfolding detector_gc_def Let_def cutoff_eq by (auto intro: gm_range_wf assms)
  have "gm_get (gm_range ?body (dt_timestamps d)) k = Option.bind (gm_get (dt_timestamps d) k) (?f k)"
    by (rule gm_range_present [OF _ assms]) auto
  then show "gm_get (dt_timestamps (detector_gc d now)) k =
      (case gm_get (dt_timestamps d) k of None \<Rightarrow> None
       | Some ts \<Rightarrow> if ts = [] \<or> last ts < now - maxDuration d then None else Some ts)"
    unfolding detector_gc_def Let_def cutoff_eq by (simp split: option.split)
qed

lemma remembersE:
  assumes "remembers d h t"
  obtains old where "times_of h key = old @ timestamps_of d key" "\<forall>u \<in> set old. u < t - maxDuration d"
    "sorted (times_of h key)"
  using assms unfolding remembers_def by blast

lemma remembers_later: "remembers d h t \<Longrightarrow> t \<le> now \<Longrightarrow> remembers d h now"
  unfolding remembers_def by (fastforce intro: less_le_trans)

lemma remembers_Record:
  assumes "remembers d h t" and "t \<le> now" and "Record d now uuid e = (alerts, d')"
  shows "remembers d' (h @ [(event_window_key e, now)]) now"
proof -
  let ?k = "event_window_key e" and ?h = "h @ [(event_window_key e, now)]"
  have r: "remembers d h now" using assms(1,2) by (rule remembers_later)
  have mx: "maxDuration d' = maxDuration d" using Record_facts(1) [OF assms(3)] by (rule maxDuration_cong)
  have "\<exists>old. times_of ?h key = old @ timestamps_of d' key \<and> (\<forall>u \<in> set old. u < now - maxDuration d') \<and> sorted (times_of ?h key)"
    for key
  proof -
    obtain old where o: "times_of h key = old @ timestamps_of d key" "\<forall>u \<in> set old. u < now - maxDuration d"
      "sorted (times_of h key)" using r by (rule remembersE)
    have le: "\<forall>u \<in> set (times_of h key). u \<le> now" using r by (auto simp: remembers_def times_of_def)
    show ?thesis
    proof (cases "key = ?k")
      case False
      then show ?thesis using o mx Record_facts(3) [OF assms(3), of key] by auto
    next
      case True
      let ?P = "\<lambda>u. u < now - maxDuration d" and ?ts = "timestamps_of d key @ [now]"
      have "times_of ?h key = (old @ takeWhile ?P ?ts) @ timestamps_of d' key"
        using o True Record_facts(3) [OF assms(3), of key] by simp
      moreover have "\<forall>u \<in> set (old @ takeWhile ?P ?ts). u < now - maxDuration d'"
        using o(2) mx by (auto dest: set_takeWhileD)
      moreover have "sorted (times_of ?h key)" using o(3) le True by (auto simp: sorted_append)
      ultimately show ?thesis by blast
    qed
  qed
  then show ?thesis
    using r Record_facts(2) [OF assms(3)] by (auto simp: remembers_def)
qed

lemma remembers_gc:
  assumes "remembers d h t" and "t \<le> now"
  shows "remembers (detector_gc d now) h now"
proof -
  have r: "remembers d h now" using assms by (rule remembers_later)
  then have wf: "gm_wf (dt_timestamps d)" by (simp add: remembers_def)
  have mx: "maxDuration (detector_gc d now) = maxDuration d" using detector_gc_facts(1) [OF wf] by (rule maxDuration_cong)
  have "\<exists>old. times_of h key = old @ timestamps_of (detector_gc d now) key \<and> (\<forall>u \<in> set old. u < now - maxDuration d) \<and> sorted (times_of h key)"
    for key
  proof -
    obtain old where o: "times_of h key = old @ timestamps_of d key" "\<forall>u \<in> set old. u < now - maxDuration d"
      "sorted (times_of h key)" using r by (rule remembersE)
    show ?thesis
    proof (cases "timestamps_of (detector_gc d now) key = timestamps_of d key")
      case True
      then show ?thesis using o by auto
    next
      case False
      let ?ts = "timestamps_of d key"
      have gone: "timestamps_of (detector_gc d now) key = []" "?ts \<noteq> []" "last ?ts < now - maxDuration d"
        using False detector_gc_facts(3) [OF wf, of now key] by (auto simp: timestamps_of_def split: option.splits if_splits)
      have "sorted ?ts" using o(1,3) by (simp add: sorted_append)
      then have "u \<le> last ?ts" if "u \<in> set ?ts" for u
        using that by (rule sorted_le_last)
      then have "\<forall>u \<in> set ?ts. u < now - maxDuration d" using gone(3) by fastforce
      then show ?thesis using o gone by (intro exI [of _ "old @ ?ts"]) auto
    qed
  qed
  then show ?thesis using r detector_gc_facts(2) [OF wf] mx by (simp add: remembers_def)
qed

lemma det_run_windows:
  "det_run windows d h t \<Longrightarrow> dt_windows d = dt_windows (detector_New windows) \<and> remembers d h t"
proof (induction rule: det_run.induct)
  case (start now)
  show ?case by (simp add: remembers_def detector_New_def timestamps_of_def times_of_def)
next
  case (recorded d h t now uuid e alerts d')
  then show ?case using Record_facts(1) remembers_Record by auto
next
  case (collect d h t now)
  then have "gm_wf (dt_timestamps d)" by (simp add: remembers_def)
  with collect show ?case by (auto simp: detector_gc_facts(1) intro: remembers_gc)
qed

text \<open>Within the longest window nothing that counts has been forgotten.\<close>

lemma remembers_count:
  assumes "remembers d h now" and "w \<in> set (dt_windows d)" and "int64_min < wc_Duration w"
  shows "countWithin d key now (wc_Duration w) = recent h key now (wc_Duration w)"
proof -
  obtain old where o: "times_of h key = old @ timestamps_of d key" "\<forall>u \<in> set old. u < now - maxDuration d"
    using assms(1) by (rule remembersE)
  have "filter (\<lambda>u. now - wc_Duration w \<le> u) old = []"
    using o(2) maxDuration_ge(2) [OF assms(2)] by (fastforce simp: filter_empty_conv)
  then show ?thesis
    using assms(3) by (simp add: countWithin_def recent_def count_from_filter time_add_dur_neg o(1))
qed

lemma breach_loop_find:
  "breach_loop d uuid now e ws =
    (case find (\<lambda>w. wc_Threshold w < countWithin d (event_window_key e) now (wc_Duration w)) ws of
       None \<Rightarrow> [] | Some w \<Rightarrow> [anomaly_alert uuid now e (countWithin d (event_window_key e) now (wc_Duration w)) w])"
  by (induction ws) (auto simp: event_window_key_def Let_def)

section \<open>The aggregated counts\<close>

definition stat :: "(string, (string, int) gomap) gomap \<Rightarrow> string \<Rightarrow> string \<Rightarrow> int" where
  "stat result etype label = gm_count (inner_map result etype) label"

lemma stat_put: "stat (gm_put etype m result) y l = (if y = etype then gm_count m l else stat result y l)"
  by (simp add: stat_def inner_map_def)

lemma gm_count_put: "gm_count (gm_put k v m) j = (if j = k then v else gm_count m j)"
  by (simp add: gm_count_def)

lemma stat_window:
  "stat (stats_window now etype ts w result) y l = stat result y l +
    (if y = etype \<and> l = durationLabel (wc_Duration w) then count_from (time_add now (dur_neg (wc_Duration w))) ts else 0)"
  by (simp add: stats_window_def Let_def stat_put gm_count_put) (simp add: stat_def)

lemma stat_windows:
  "stat (fold (stats_window now etype ts) ws result) y l = stat result y l +
    (if y = etype then \<Sum>w\<leftarrow>filter (\<lambda>w. durationLabel (wc_Duration w) = l) ws. count_from (time_add now (dur_neg (wc_Duration w))) ts
     else 0)"
  by (induction ws arbitrary: result) (auto simp: stat_window)

lemma stat_key:
  "stat (stats_key ws now (key, ts) result) y l = stat result y l +
    (if y = wk_EventType key then \<Sum>w\<leftarrow>filter (\<lambda>w. durationLabel (wc_Duration w) = l) ws. count_from (time_add now (dur_neg (wc_Duration w))) ts
     else 0)"
proof -
  have "stat (if gm_get result etype = None then gm_put etype [] result else result) y l = stat result y l" for etype
    by (auto simp: stat_put gm_count_def) (simp add: stat_def inner_map_def gm_count_def)
  then show ?thesis by (simp add: stats_key_def Let_def stat_windows)
qed

lemma stat_keys:
  "stat (fold (stats_key ws now) entries result) y l = stat result y l +
    (\<Sum>(key, ts)\<leftarrow>entries. if y = wk_EventType key
       then \<Sum>w\<leftarrow>filter (\<lambda>w. durationLabel (wc_Duration w) = l) ws. count_from (time_add now (dur_neg (wc_Duration w))) ts else 0)"
  by (induction entries arbitrary: result) (auto simp: stat_key)

definition type_recent :: "history \<Rightarrow> string \<Rightarrow> time \<Rightarrow> duration \<Rightarrow> int" where
  "type_recent h etype now dur = int (length (filter (\<lambda>(k, t). wk_EventType k = etype \<and> now - dur \<le> t) h))"

text \<open>The events of a type are the events of its keys, key by key.\<close>

lemma type_recent_split:
  assumes "distinct keys" and "\<And>k. k \<notin> set keys \<Longrightarrow> wk_EventType k = etype \<Longrightarrow> recent h k now dur = 0"
  shows "type_recent h etype now dur = (\<Sum>k\<leftarrow>keys. if etype = wk_EventType k then recent h k now dur else 0)"
proof -
  have rec: "recent h k now dur = int (length (filter (\<lambda>(k', t). k' = k \<and> now - dur \<le> t) h))" for h k
    by (induction h) (auto simp: recent_def times_of_def)
  have "(\<Sum>k\<leftarrow>keys. if etype = wk_EventType k then recent h k now dur else 0) =
      int (length (filter (\<lambda>(k, t). k \<in> set keys \<and> wk_EventType k = etype \<and> now - dur \<le> t) h))" for h
    using assms(1)
  proof (induction keys)
    case (Cons k keys)
    have "int (length (filter (\<lambda>(j, t). j \<in> set (k # keys) \<and> wk_EventType j = etype \<and> now - dur \<le> t) h)) =
        (if etype = wk_EventType k then recent h k now dur else 0) +
        int (length (filter (\<lambda>(j, t). j \<in> set keys \<and> wk_EventType j = etype \<and> now - dur \<le> t) h))"
    proof (cases "etype = wk_EventType k")
      case True
      show ?thesis
        unfolding rec if_P [OF True] of_nat_add [symmetric] of_nat_eq_iff
        by (rule length_filter_disjoint) (use True Cons.prems in auto)
    next
      case False
      then have "(\<lambda>(j, t). j \<in> set (k # keys) \<and> wk_EventType j = etype \<and> now - dur \<le> t) =
          (\<lambda>(j, t). j \<in> set keys \<and> wk_EventType j = etype \<and> now - dur \<le> t)" by auto
      with False show ?thesis by simp
    qed
    with Cons show ?case by simp
  qed simp
  moreover have "filter (\<lambda>(k, t). k \<in> set keys \<and> wk_EventType k = etype \<and> now - dur \<le> t) h =
      filter (\<lambda>(k, t). wk_EventType k = etype \<and> now - dur \<le> t) h"
  proof (rule filter_cong [OF refl])
    fix x assume x: "x \<in> set h"
    obtain k t where kt: "x = (k, t)" by (cases x)
    have "k \<in> set keys" if "wk_EventType k = etype" "now - dur \<le> t"
    proof (rule ccontr)
      assume "k \<notin> set keys"
      with assms(2) that(1) have "filter (\<lambda>(k', t). k' = k \<and> now - dur \<le> t) h = []" by (simp add: rec)
      with x kt that(2) show False by (auto simp: filter_empty_conv)
    qed
    then show "(case x of (k, t) \<Rightarrow> k \<in> set keys \<and> wk_EventType k = etype \<and> now - dur \<le> t) =
        (case x of (k, t) \<Rightarrow> wk_EventType k = etype \<and> now - dur \<le> t)" using kt by auto
  qed
  ultimately show ?thesis by (simp add: type_recent_def)
qed

section \<open>Properties\<close>

text \<open>
  C9: forgetting is invisible. In every run of the detector, however often old instants are pruned and
  quiet keys collected, \<^verbatim>\<open>Record\<close> decides exactly as if it had kept every event ever recorded: it raises
  one alert, for the first configured window in which the node's events of that type, the new one
  included, number more than the threshold, and none when there is no such window.
\<close>

theorem Record_decides_by_history:
  assumes "det_run windows d h t" and "t \<le> now" and "Record d now uuid e = (alerts, d')"
    and "\<forall>w \<in> set (dt_windows d). int64_min < wc_Duration w"
  shows "alerts =
    (let h' = h @ [(event_window_key e, now)];
         n = (\<lambda>w. recent h' (event_window_key e) now (wc_Duration w))
     in case find (\<lambda>w. n w > wc_Threshold w) (dt_windows d) of
          None \<Rightarrow> [] | Some w \<Rightarrow> [anomaly_alert uuid now e (n w) w])"
proof -
  let ?k = "event_window_key e" and ?h = "h @ [(event_window_key e, now)]"
  have r: "remembers d' ?h now" using remembers_Record det_run_windows assms(1-3) by blast
  note f = Record_facts [OF assms(3)]
  have c: "countWithin d' ?k now (wc_Duration w) = recent ?h ?k now (wc_Duration w)" if "w \<in> set (dt_windows d)" for w
    using remembers_count [OF r] that assms(4) f(1) by auto
  have "find (\<lambda>w. wc_Threshold w < countWithin d' ?k now (wc_Duration w)) (dt_windows d) =
      find (\<lambda>w. wc_Threshold w < recent ?h ?k now (wc_Duration w)) (dt_windows d)"
    by (rule find_cong [OF refl]) (simp add: c)
  then show ?thesis
    unfolding f(4) breach_loop_find Let_def using c
    by (cases "find (\<lambda>w. wc_Threshold w < recent ?h ?k now (wc_Duration w)) (dt_windows d)")
      (auto dest: find_in_set)
qed

text \<open>One window of a minute that allows one event, and two events ten nanoseconds apart.\<close>

definition demo_windows :: "WindowConfig list" where
  "demo_windows = [\<lparr>wc_Duration = minute, wc_Threshold = 1\<rparr>]"

lemma demo_run:
  obtains d1 d2 alerts where "Record (detector_New demo_windows) 10 ''u1'' (demo_event ''e1'' ''n'' ''exec'') = ([], d1)"
    "Record d1 20 ''u2'' (demo_event ''e2'' ''n'' ''exec'') = (alerts, d2)"
    "det_run demo_windows d1 [(event_window_key (demo_event ''e1'' ''n'' ''exec''), 10)] 10"
    "dt_windows d1 = demo_windows"
proof -
  obtain al d1 where r: "Record (detector_New demo_windows) 10 ''u1'' (demo_event ''e1'' ''n'' ''exec'') = (al, d1)"
    by (meson surj_pair)
  have run: "det_run demo_windows d1 ([] @ [(event_window_key (demo_event ''e1'' ''n'' ''exec''), 10)]) 10"
    by (rule det_run.recorded [OF det_run.start [of _ 10] _ r]) simp
  have w: "dt_windows d1 = demo_windows" using Record_facts(1) [OF r] by (simp add: detector_New_def demo_windows_def)
  have rec: "remembers d1 ([] @ [(event_window_key (demo_event ''e1'' ''n'' ''exec''), 10)]) 10"
    using det_run_windows [OF run] by simp
  have "countWithin d1 (event_window_key (demo_event ''e1'' ''n'' ''exec'')) 10 minute \<le> 1"
    using remembers_count [OF rec, of "\<lparr>wc_Duration = minute, wc_Threshold = 1\<rparr>"] w
    by (simp add: demo_windows_def recent_def times_of_def duration_units int64_min_def)
  then have "al = []"
    unfolding Record_facts(4) [OF r] breach_loop_find by (simp add: detector_New_def demo_windows_def)
  moreover obtain alerts d2 where "Record d1 20 ''u2'' (demo_event ''e2'' ''n'' ''exec'') = (alerts, d2)"
    by (meson surj_pair)
  ultimately show thesis using that r run w by simp
qed

theorem Record_decides_by_history_witness:
  "\<exists>d1 alerts d2. Record (detector_New demo_windows) 10 ''u1'' (demo_event ''e1'' ''n'' ''exec'') = ([], d1) \<and>
    Record d1 20 ''u2'' (demo_event ''e2'' ''n'' ''exec'') = (alerts, d2) \<and> map al_EventID alerts = [''e2'']"
proof -
  obtain d1 d2 alerts where r: "Record (detector_New demo_windows) 10 ''u1'' (demo_event ''e1'' ''n'' ''exec'') = ([], d1)"
    "Record d1 20 ''u2'' (demo_event ''e2'' ''n'' ''exec'') = (alerts, d2)"
    "det_run demo_windows d1 [(event_window_key (demo_event ''e1'' ''n'' ''exec''), 10)] 10"
    "dt_windows d1 = demo_windows"
    by (rule demo_run)
  have "map al_EventID alerts = [''e2'']"
    using Record_decides_by_history [OF r(3) _ r(2)] r(4)
    by (simp add: demo_windows_def recent_def times_of_def event_window_key_def demo_event_def duration_units
        int64_min_def anomaly_alert_def Let_def)
  with r(1,2) show ?thesis by metis
qed

text \<open>
  C30: the counts shown are the counts of the history: for every event type and every configured window,
  \<^verbatim>\<open>WindowStats\<close> reports, under the window's label, the number of events of that type recorded on all
  nodes within the window, provided no two windows have the same label.
\<close>

theorem WindowStats_counts_history:
  assumes "det_run windows d h t" and "t \<le> now"
    and "distinct (map (\<lambda>w. durationLabel (wc_Duration w)) (dt_windows d))"
    and "w \<in> set (dt_windows d)" and "int64_min < wc_Duration w"
  shows "stat (WindowStats d now) etype (durationLabel (wc_Duration w)) = type_recent h etype now (wc_Duration w)"
proof -
  let ?dur = "wc_Duration w" and ?c = "time_add now (dur_neg (wc_Duration w))"
  have r: "remembers d h now" using det_run_windows [OF assms(1)] remembers_later assms(2) by blast
  then have wf: "gm_wf (dt_timestamps d)" by (simp add: remembers_def)
  have rec: "recent h k now ?dur = count_from ?c (timestamps_of d k)" for k
    using remembers_count [OF r assms(4,5), of k] by (simp add: countWithin_def)
  have one: "filter (\<lambda>v. durationLabel (wc_Duration v) = durationLabel ?dur) (dt_windows d) = [w]"
    using assms(3,4) by (rule filter_distinct_key)
  have ts: "timestamps_of d k = ts" if "(k, ts) \<in> set (dt_timestamps d)" for k ts
    using that wf by (simp add: timestamps_of_def gm_get_in_set)
  have none: "recent h k now ?dur = 0" if "k \<notin> set (map fst (dt_timestamps d))" for k
  proof -
    have "gm_get (dt_timestamps d) k = None" using that by (simp add: map_of_eq_None_iff)
    then show ?thesis by (simp add: rec timestamps_of_def)
  qed
  have "stat (WindowStats d now) etype (durationLabel ?dur) =
      (\<Sum>(k, ts)\<leftarrow>dt_timestamps d. if etype = wk_EventType k then count_from ?c ts else 0)"
    unfolding WindowStats_def stat_keys one by (simp add: stat_def inner_map_def gm_count_def cong: if_cong)
  also have "\<dots> = (\<Sum>k\<leftarrow>map fst (dt_timestamps d). if etype = wk_EventType k then recent h k now ?dur else 0)"
    unfolding map_map by (intro arg_cong [where f = sum_list] map_cong refl) (auto simp: rec ts)
  also have "\<dots> = type_recent h etype now ?dur"
    by (rule type_recent_split [symmetric]) (use wf none in \<open>auto simp: gm_wf_def\<close>)
  finally show ?thesis .
qed

theorem WindowStats_counts_history_witness:
  "\<exists>d1. Record (detector_New demo_windows) 10 ''u1'' (demo_event ''e1'' ''n'' ''exec'') = ([], d1) \<and>
    stat (WindowStats d1 20) ''exec'' ''1m'' = 1"
proof -
  obtain d1 where r: "Record (detector_New demo_windows) 10 ''u1'' (demo_event ''e1'' ''n'' ''exec'') = ([], d1)"
    "det_run demo_windows d1 [(event_window_key (demo_event ''e1'' ''n'' ''exec''), 10)] 10"
    "dt_windows d1 = demo_windows"
    by (rule demo_run)
  have l: "durationLabel minute = ''1m''"
    by (simp add: durationLabel_def trunc_div_def duration_units fmt_int_def fmt_dec.simps [of 1] digit_char_def char_of_eq_iff)
  have "stat (WindowStats d1 20) ''exec'' (durationLabel (wc_Duration \<lparr>wc_Duration = minute, wc_Threshold = 1\<rparr>)) =
      type_recent [(event_window_key (demo_event ''e1'' ''n'' ''exec''), 10)] ''exec'' 20
        (wc_Duration \<lparr>wc_Duration = minute, wc_Threshold = 1\<rparr>)"
    by (rule WindowStats_counts_history [OF r(2)])
      (simp_all add: r(3) demo_windows_def duration_units int64_min_def)
  moreover have "type_recent [(event_window_key (demo_event ''e1'' ''n'' ''exec''), 10)] ''exec'' 20 minute = 1"
    by (simp add: type_recent_def event_window_key_def demo_event_def duration_units)
  ultimately show ?thesis using r(1) by (auto simp: l)
qed

text \<open>
  The detector does not leak: after a collection exactly the keys remain that have an event within
  the longest window, whatever nodes and types were ever seen.
\<close>

lemma gc_keeps_recent_keys:
  assumes "det_run windows d h t" and "t \<le> now"
  shows "gm_get (dt_timestamps (detector_gc d now)) k \<noteq> None \<longleftrightarrow> 0 < recent h k now (maxDuration d)"
proof -
  have r: "remembers d h now" using det_run_windows [OF assms(1)] remembers_later assms(2) by blast
  then have wf: "gm_wf (dt_timestamps d)" by (simp add: remembers_def)
  obtain old where o: "times_of h k = old @ timestamps_of d k" "\<forall>u \<in> set old. u < now - maxDuration d"
    "sorted (times_of h k)" using r by (rule remembersE)
  let ?ts = "timestamps_of d k"
  have "recent h k now (maxDuration d) = int (length (filter (\<lambda>u. now - maxDuration d \<le> u) ?ts))"
    using o(1,2) by (force simp: recent_def filter_empty_conv)
  moreover have "u \<le> last ?ts" if "u \<in> set ?ts" for u
    using o(1,3) that by (auto simp: sorted_append intro: sorted_le_last)
  then have "filter (\<lambda>u. now - maxDuration d \<le> u) ?ts \<noteq> [] \<longleftrightarrow> ?ts \<noteq> [] \<and> \<not> last ?ts < now - maxDuration d"
    using last_in_set [of ?ts] by (fastforce simp: filter_empty_conv not_less)
  ultimately show ?thesis
    using detector_gc_facts(3) [OF wf, of now k] by (auto simp: timestamps_of_def split: option.splits)
qed

end
