(* ===== verification/Alerting.thy ===== *)
theory Alerting
  imports StoreTypes
begin

text \<open>
  Package \<^verbatim>\<open>internal/alerting\<close>: the rules, their validation, and the engine that matches an event's
  payload against them. Three things the package calls are arguments: the YAML decoder and the file
  system of \<^verbatim>\<open>LoadRules\<close>, the regular expressions (\<^verbatim>\<open>compile\<close> returns the matcher of a pattern, or an
  error) and \<^verbatim>\<open>strconv.ParseFloat\<close>. The alert ids and the clock readings are sequences, one element per
  alert.

  Shown: validation accepts exactly the well-formed rule sets; the engine returns one alert per matching
  rule, in rule order; with a validated rule set the engine's error branches are never reached; what
  a condition on a missing field and on a number does.
\<close>

section \<open>Model\<close>

record Condition =
  co_Field :: string
  co_Operator :: string
  co_Value :: string

record Rule =
  ru_ID :: string
  ru_Description :: string
  ru_EventType :: string
  ru_Conditions :: "Condition list"
  ru_Severity :: string
  ru_Message :: string

type_synonym RuleSet = "Rule list"

definition validEventTypes :: "string list" where
  "validEventTypes = [''exec'', ''tcp'', ''file'', ''*'']"

definition validOperators :: "string list" where
  "validOperators = [''eq'', ''contains'', ''regex'', ''gt'', ''lt'']"

type_synonym regexp_compile = "string \<Rightarrow> string + (string \<Rightarrow> bool)"

subsection \<open>Loading and validating\<close>

datatype load_error = RulesFileMissing string string | ReadError string | YamlError string

definition LoadRules ::
  "(string \<Rightarrow> string option) \<Rightarrow> (string \<Rightarrow> string + string) \<Rightarrow> (string \<Rightarrow> string + RuleSet) \<Rightarrow> string
    \<Rightarrow> load_error + RuleSet" where
  "LoadRules os_stat os_read yaml path =
     (if path = [] then Inr []
      else case os_stat path of
        Some err \<Rightarrow> Inl (RulesFileMissing path err)
      | None \<Rightarrow> (case os_read path of
          Inl err \<Rightarrow> Inl (ReadError err)
        | Inr data \<Rightarrow> (case yaml data of Inl err \<Rightarrow> Inl (YamlError err) | Inr ruleset \<Rightarrow> Inr ruleset)))"

text \<open>The errors of \<^verbatim>\<open>Validate\<close>, with the index of the rule, its id, and the index of the condition.\<close>

datatype rule_error =
    EmptyID nat
  | DuplicateID nat string
  | UnknownEventType nat string string
  | NoConditions nat string
  | UnknownOperator nat string nat string
  | InvalidRegex nat string nat string string

fun validate_conditions :: "regexp_compile \<Rightarrow> nat \<Rightarrow> string \<Rightarrow> nat \<Rightarrow> Condition list \<Rightarrow> rule_error option" where
  "validate_conditions compile i rid j [] = None"
| "validate_conditions compile i rid j (cond # conds) =
     (if co_Operator cond \<notin> set validOperators then Some (UnknownOperator i rid j (co_Operator cond))
      else if co_Operator cond = ''regex'' then
        (case compile (co_Value cond) of
           Inl err \<Rightarrow> Some (InvalidRegex i rid j (co_Value cond) err)
         | Inr _ \<Rightarrow> validate_conditions compile i rid (Suc j) conds)
      else validate_conditions compile i rid (Suc j) conds)"

fun validate_rules :: "regexp_compile \<Rightarrow> string list \<Rightarrow> nat \<Rightarrow> Rule list \<Rightarrow> rule_error option" where
  "validate_rules compile seenIDs i [] = None"
| "validate_rules compile seenIDs i (rule # rules) =
     (if ru_ID rule = [] then Some (EmptyID i)
      else if ru_ID rule \<in> set seenIDs then Some (DuplicateID i (ru_ID rule))
      else if ru_EventType rule \<notin> set validEventTypes then Some (UnknownEventType i (ru_ID rule) (ru_EventType rule))
      else if ru_Conditions rule = [] then Some (NoConditions i (ru_ID rule))
      else case validate_conditions compile i (ru_ID rule) 0 (ru_Conditions rule) of
        Some err \<Rightarrow> Some err
      | None \<Rightarrow> validate_rules compile (ru_ID rule # seenIDs) (Suc i) rules)"

definition Validate :: "regexp_compile \<Rightarrow> RuleSet \<Rightarrow> rule_error option" where
  "Validate compile rs = validate_rules compile [] 0 rs"

subsection \<open>The engine\<close>

text \<open>A \<^verbatim>\<open>float64\<close> as its value: a number, an infinity, or not a number.\<close>

datatype f64 = Fin rat | PosInf | NegInf | NaN

fun f64_less :: "f64 \<Rightarrow> f64 \<Rightarrow> bool" where
  "f64_less NaN _ = False"
| "f64_less _ NaN = False"
| "f64_less (Fin a) (Fin b) = (a < b)"
| "f64_less NegInf NegInf = False"
| "f64_less NegInf _ = True"
| "f64_less _ PosInf = True"
| "f64_less _ _ = False"

definition f64_gt :: "f64 \<Rightarrow> f64 \<Rightarrow> bool" where "f64_gt a b = f64_less b a"

type_synonym parse_float = "string \<Rightarrow> f64 option"

record env =
  compile :: regexp_compile
  ParseFloat :: parse_float

record Engine =
  en_rules :: RuleSet

definition engine_New :: "RuleSet option \<Rightarrow> Engine" where
  "engine_New rules = \<lparr>en_rules = (case rules of None \<Rightarrow> [] | Some rs \<Rightarrow> rs)\<rparr>"

text \<open>
  A decoded object: of two members with the same name the last one counts. A payload that is \<^verbatim>\<open>null\<close>
  decodes to the nil map, a payload of another kind to an error.
\<close>

definition obj_get :: "(string \<times> json) list \<Rightarrow> string \<Rightarrow> json option" where
  "obj_get ms k = map_of (rev ms) k"

fun payload_map :: "json \<Rightarrow> (string \<times> json) list option" where
  "payload_map (JObj ms) = Some ms"
| "payload_map JNull = Some []"
| "payload_map _ = None"

fun walk_path :: "json \<Rightarrow> string list \<Rightarrow> json option" where
  "walk_path current [] = Some current"
| "walk_path (JObj ms) (part # parts) =
     (case obj_get ms part of None \<Rightarrow> None | Some v \<Rightarrow> walk_path v parts)"
| "walk_path _ (part # parts) = None"

definition getFieldValue :: "(string \<times> json) list \<Rightarrow> string \<Rightarrow> json option" where
  "getFieldValue payload fieldPath = walk_path (JObj payload) (Split fieldPath (CHR ''.''))"

fun toFloat64 :: "parse_float \<Rightarrow> json \<Rightarrow> f64 option" where
  "toFloat64 pf (JNum n) = Some (Fin (of_int n))"
| "toFloat64 pf (JStr s) = pf s"
| "toFloat64 pf _ = None"

definition compareNumeric :: "parse_float \<Rightarrow> json \<Rightarrow> string \<Rightarrow> (f64 \<Rightarrow> f64 \<Rightarrow> bool) \<Rightarrow> bool" where
  "compareNumeric pf value target cmp =
     (case toFloat64 pf value of
        None \<Rightarrow> False
      | Some a \<Rightarrow> (case pf target of None \<Rightarrow> False | Some b \<Rightarrow> cmp a b))"

definition matchCondition :: "env \<Rightarrow> (string \<times> json) list \<Rightarrow> Condition \<Rightarrow> bool" where
  "matchCondition E payload cond =
     (case getFieldValue payload (co_Field cond) of
        None \<Rightarrow> False
      | Some v \<Rightarrow>
          if co_Operator cond = ''eq'' then sprintf_v v = co_Value cond
          else if co_Operator cond = ''contains'' then Contains (sprintf_v v) (co_Value cond)
          else if co_Operator cond = ''regex'' then
            (case compile E (co_Value cond) of Inl err \<Rightarrow> False | Inr re \<Rightarrow> re (sprintf_v v))
          else if co_Operator cond = ''gt'' then compareNumeric (ParseFloat E) v (co_Value cond) f64_gt
          else if co_Operator cond = ''lt'' then compareNumeric (ParseFloat E) v (co_Value cond) f64_less
          else False)"

definition matchConditions :: "env \<Rightarrow> Event \<Rightarrow> Condition list \<Rightarrow> bool" where
  "matchConditions E event conditions =
     (if conditions = [] then False
      else case payload_map (ev_Payload event) of
        None \<Rightarrow> False
      | Some payload \<Rightarrow> list_all (matchCondition E payload) conditions)"

fun evaluate_rules ::
  "env \<Rightarrow> (nat \<Rightarrow> string) \<Rightarrow> (nat \<Rightarrow> time) \<Rightarrow> Event \<Rightarrow> Alert list \<Rightarrow> Rule list \<Rightarrow> Alert list" where
  "evaluate_rules E uuid clock event alerts [] = alerts"
| "evaluate_rules E uuid clock event alerts (rule # rules) =
     (if ru_EventType rule \<noteq> ''*'' \<and> ru_EventType rule \<noteq> ev_Type event
      then evaluate_rules E uuid clock event alerts rules
      else if matchConditions E event (ru_Conditions rule) then
        evaluate_rules E uuid clock event
          (alerts @ [\<lparr>al_AlertID = uuid (length alerts), al_RuleID = ru_ID rule, al_NodeID = ev_NodeID event,
             al_EventID = ev_EventID event, al_Timestamp = clock (length alerts),
             al_Message = ru_Message rule, al_Severity = ru_Severity rule\<rparr>]) rules
      else evaluate_rules E uuid clock event alerts rules)"

definition Evaluate :: "env \<Rightarrow> Engine \<Rightarrow> (nat \<Rightarrow> string) \<Rightarrow> (nat \<Rightarrow> time) \<Rightarrow> Event \<Rightarrow> Alert list" where
  "Evaluate E engine uuid clock event = evaluate_rules E uuid clock event [] (en_rules engine)"

section \<open>Specifications\<close>

definition condition_ok :: "regexp_compile \<Rightarrow> Condition \<Rightarrow> bool" where
  "condition_ok rx cond =
     (co_Operator cond \<in> {''eq'', ''contains'', ''regex'', ''gt'', ''lt''} \<and>
      (co_Operator cond = ''regex'' \<longrightarrow> (\<exists>re. rx (co_Value cond) = Inr re)))"

definition rule_ok :: "regexp_compile \<Rightarrow> Rule \<Rightarrow> bool" where
  "rule_ok rx rule =
     (ru_ID rule \<noteq> [] \<and> ru_EventType rule \<in> {''exec'', ''tcp'', ''file'', ''*''} \<and> ru_Conditions rule \<noteq> [] \<and>
      (\<forall>cond \<in> set (ru_Conditions rule). condition_ok rx cond))"

definition rule_matches :: "env \<Rightarrow> Event \<Rightarrow> Rule \<Rightarrow> bool" where
  "rule_matches E event rule =
     ((ru_EventType rule = ''*'' \<or> ru_EventType rule = ev_Type event) \<and> ru_Conditions rule \<noteq> [] \<and>
      (\<exists>payload. payload_map (ev_Payload event) = Some payload \<and>
        (\<forall>cond \<in> set (ru_Conditions rule). matchCondition E payload cond)))"

definition alert_for :: "Event \<Rightarrow> Rule \<Rightarrow> string \<times> time \<Rightarrow> Alert" where
  "alert_for event rule stamp =
     \<lparr>al_AlertID = fst stamp, al_RuleID = ru_ID rule, al_NodeID = ev_NodeID event, al_EventID = ev_EventID event,
      al_Timestamp = snd stamp, al_Message = ru_Message rule, al_Severity = ru_Severity rule\<rparr>"

lemma matchConditions_iff:
  "matchConditions E event conds \<longleftrightarrow> conds \<noteq> [] \<and> (\<exists>payload. payload_map (ev_Payload event) = Some payload \<and>
    (\<forall>cond \<in> set conds. matchCondition E payload cond))"
  by (auto simp: matchConditions_def list_all_iff split: option.splits)

lemma validate_conditions_None:
  "validate_conditions rx i rid j conds = None \<longleftrightarrow> (\<forall>cond \<in> set conds. condition_ok rx cond)"
  by (induction conds arbitrary: j) (auto simp: condition_ok_def validOperators_def split: sum.splits)

lemma validate_rules_None:
  "validate_rules rx seen i rules = None \<longleftrightarrow>
    (\<forall>rule \<in> set rules. rule_ok rx rule) \<and> distinct (map ru_ID rules) \<and> set (map ru_ID rules) \<inter> set seen = {}"
proof (induction rules arbitrary: seen i)
  case (Cons a rules)
  have "validate_rules rx seen i (a # rules) = None \<longleftrightarrow>
      rule_ok rx a \<and> ru_ID a \<notin> set seen \<and> validate_rules rx (ru_ID a # seen) (Suc i) rules = None"
    using validate_conditions_None [of rx i "ru_ID a" 0 "ru_Conditions a"]
    by (cases "validate_conditions rx i (ru_ID a) 0 (ru_Conditions a)") (auto simp: rule_ok_def validEventTypes_def)
  with Cons show ?case by auto
qed simp

lemma evaluate_rules_spec:
  "evaluate_rules E uuid clock event alerts rules =
    alerts @ map (\<lambda>(n, rule). alert_for event rule (uuid n, clock n))
      (List.enumerate (length alerts) (filter (rule_matches E event) rules))"
proof (induction rules arbitrary: alerts)
  case (Cons rule rules)
  have "rule_matches E event rule \<longleftrightarrow>
      (ru_EventType rule = ''*'' \<or> ru_EventType rule = ev_Type event) \<and> matchConditions E event (ru_Conditions rule)"
    by (simp add: rule_matches_def matchConditions_iff)
  then show ?case using Cons by (auto simp: alert_for_def)
qed simp

text \<open>The meaning of the five operators on a field value; only these occur in a validated rule set.\<close>

definition condition_holds :: "env \<Rightarrow> (string \<times> json) list \<Rightarrow> Condition \<Rightarrow> bool" where
  "condition_holds E payload cond =
     (\<exists>v. getFieldValue payload (co_Field cond) = Some v \<and>
       (co_Operator cond = ''eq'' \<and> sprintf_v v = co_Value cond \<or>
        co_Operator cond = ''contains'' \<and> (\<exists>a b. sprintf_v v = a @ co_Value cond @ b) \<or>
        co_Operator cond = ''regex'' \<and> projr (compile E (co_Value cond)) (sprintf_v v) \<or>
        (\<exists>a b. toFloat64 (ParseFloat E) v = Some a \<and> ParseFloat E (co_Value cond) = Some b \<and>
          (co_Operator cond = ''gt'' \<and> f64_less b a \<or> co_Operator cond = ''lt'' \<and> f64_less a b))))"

lemma Contains_iff: "Contains s sub \<longleftrightarrow> (\<exists>a b. s = a @ sub @ b)"
proof (induction s)
  case (Cons x s)
  show ?case
  proof
    assume "Contains (x # s) sub"
    then consider "HasPrefix (x # s) sub" | "Contains s sub" by auto
    then show "\<exists>a b. x # s = a @ sub @ b"
    proof cases
      case 1
      then obtain b where "x # s = sub @ b" by (auto simp: HasPrefix_iff)
      then show ?thesis by (intro exI [of _ "[]"] exI [of _ b]) simp
    next
      case 2
      with Cons obtain a b where "s = a @ sub @ b" by blast
      then show ?thesis by (intro exI [of _ "x # a"] exI [of _ b]) simp
    qed
  next
    assume "\<exists>a b. x # s = a @ sub @ b"
    then obtain a b where ab: "x # s = a @ sub @ b" by blast
    show "Contains (x # s) sub"
    proof (cases a)
      case Nil
      then have "HasPrefix (x # s) sub" using ab by simp
      then show ?thesis by simp
    next
      case (Cons y a')
      then have "s = a' @ sub @ b" using ab by simp
      then show ?thesis using Cons.IH by auto
    qed
  qed
qed auto

lemma matchCondition_holds:
  assumes "condition_ok (compile E) cond"
  shows "matchCondition E payload cond \<longleftrightarrow> condition_holds E payload cond"
proof (cases "getFieldValue payload (co_Field cond)")
  case None
  then show ?thesis by (simp add: matchCondition_def condition_holds_def)
next
  case (Some v)
  have num: "compareNumeric pf v x cmp \<longleftrightarrow> (\<exists>a b. toFloat64 pf v = Some a \<and> pf x = Some b \<and> cmp a b)" for pf x cmp
    by (auto simp: compareNumeric_def split: option.splits)
  consider "co_Operator cond = ''eq''" | "co_Operator cond = ''contains''" | re where "co_Operator cond = ''regex''" "compile E (co_Value cond) = Inr re"
    | "co_Operator cond = ''gt''" | "co_Operator cond = ''lt''"
    using assms by (auto simp: condition_ok_def)
  then show ?thesis
    by cases (simp_all add: matchCondition_def condition_holds_def Some Contains_iff num f64_gt_def)
qed

section \<open>Properties\<close>

text \<open>
  C32: \<^verbatim>\<open>Validate\<close> accepts a rule set exactly when every rule has an id, a known event type and at least
  one condition, no id occurs twice, and every condition has a known operator and, for \<^verbatim>\<open>regex\<close>, a
  pattern that compiles.
\<close>

theorem Validate_iff:
  "Validate rx rs = None \<longleftrightarrow> distinct (map ru_ID rs) \<and>
    (\<forall>rule \<in> set rs. ru_ID rule \<noteq> [] \<and> ru_EventType rule \<in> {''exec'', ''tcp'', ''file'', ''*''} \<and>
       ru_Conditions rule \<noteq> [] \<and>
       (\<forall>cond \<in> set (ru_Conditions rule). co_Operator cond \<in> {''eq'', ''contains'', ''regex'', ''gt'', ''lt''} \<and>
          (co_Operator cond = ''regex'' \<longrightarrow> (\<exists>re. rx (co_Value cond) = Inr re))))"
  by (auto simp: Validate_def validate_rules_None rule_ok_def condition_ok_def)

definition demo_rule :: "string \<Rightarrow> string \<Rightarrow> string \<Rightarrow> string \<Rightarrow> Rule" where
  "demo_rule i f op v = \<lparr>ru_ID = i, ru_Description = [], ru_EventType = ''exec'',
     ru_Conditions = [\<lparr>co_Field = f, co_Operator = op, co_Value = v\<rparr>], ru_Severity = ''warning'', ru_Message = ''m''\<rparr>"

definition demo_env :: env where
  "demo_env = \<lparr>compile = (\<lambda>p. Inr (\<lambda>s. s = p)), ParseFloat = (\<lambda>s. map_option (\<lambda>n. Fin (of_int n)) (Atoi s))\<rparr>"

theorem Validate_iff_witness:
  "Validate (compile demo_env) [demo_rule ''r'' ''pid'' ''eq'' ''7''] = None \<and>
   Validate (compile demo_env) [demo_rule ''r'' ''pid'' ''ne'' ''7''] \<noteq> None"
  using Validate_iff [of "compile demo_env" "[demo_rule ''r'' ''pid'' ''eq'' ''7'']"]
    Validate_iff [of "compile demo_env" "[demo_rule ''r'' ''pid'' ''ne'' ''7'']"]
  by (simp add: demo_rule_def)

text \<open>
  C19: with a validated rule set, \<^verbatim>\<open>Evaluate\<close> returns exactly one alert for each rule that applies to the
  event's type and all of whose conditions hold, in the order of the rules, carrying the rule's id,
  message and severity and the event's node and id; no rule gives two alerts for one event, and no
  condition fails for a reason other than not holding.
\<close>

theorem Evaluate_spec:
  assumes "Validate (compile E) rules = None"
  shows "map (\<lambda>a. (al_RuleID a, al_NodeID a, al_EventID a, al_Message a, al_Severity a))
      (Evaluate E (engine_New (Some rules)) uuid clock event) =
    map (\<lambda>rule. (ru_ID rule, ev_NodeID event, ev_EventID event, ru_Message rule, ru_Severity rule))
      (filter (\<lambda>rule. (ru_EventType rule = ''*'' \<or> ru_EventType rule = ev_Type event) \<and>
         (\<exists>payload. payload_map (ev_Payload event) = Some payload \<and>
           (\<forall>cond \<in> set (ru_Conditions rule). condition_holds E payload cond))) rules) \<and>
    distinct (map al_RuleID (Evaluate E (engine_New (Some rules)) uuid clock event))"
proof -
  let ?ms = "filter (rule_matches E event) rules"
  have ok: "rule_ok (compile E) rule" if "rule \<in> set rules" for rule
    using assms that by (auto simp: Validate_def validate_rules_None)
  have ev: "Evaluate E (engine_New (Some rules)) uuid clock event =
      map (\<lambda>(n, rule). alert_for event rule (uuid n, clock n)) (List.enumerate 0 ?ms)"
    by (simp add: Evaluate_def engine_New_def evaluate_rules_spec)
  have ids: "map f (map (\<lambda>(n, rule). alert_for event rule (uuid n, clock n)) (List.enumerate k rs)) =
      map g rs" if "\<And>n rule. f (alert_for event rule (uuid n, clock n)) = g rule"
    for f :: "Alert \<Rightarrow> 'b" and g k rs
    by (induction rs arbitrary: k) (auto simp: that)
  have "?ms = filter (\<lambda>rule. (ru_EventType rule = ''*'' \<or> ru_EventType rule = ev_Type event) \<and>
         (\<exists>payload. payload_map (ev_Payload event) = Some payload \<and>
           (\<forall>cond \<in> set (ru_Conditions rule). condition_holds E payload cond))) rules"
    by (rule filter_cong [OF refl]) (use ok in \<open>auto simp: rule_matches_def rule_ok_def matchCondition_holds\<close>)
  moreover have "distinct (map ru_ID ?ms)"
    using assms by (auto simp: Validate_def validate_rules_None intro: distinct_map_filter)
  ultimately show ?thesis unfolding ev by (subst (1 2) ids) (auto simp: alert_for_def)
qed

theorem Evaluate_spec_witness:
  "map al_RuleID (Evaluate demo_env (engine_New (Some [demo_rule ''r'' ''pid'' ''eq'' ''7'', demo_rule ''s'' ''pid'' ''eq'' ''8'']))
     (\<lambda>n. ''u'') (\<lambda>n. 0) (demo_event ''e'' ''n'' ''exec'')) = [''r'']"
proof -
  let ?rules = "[demo_rule ''r'' ''pid'' ''eq'' ''7'', demo_rule ''s'' ''pid'' ''eq'' ''8'']"
  let ?als = "Evaluate demo_env (engine_New (Some ?rules)) (\<lambda>n. ''u'') (\<lambda>n. 0) (demo_event ''e'' ''n'' ''exec'')"
  have v: "Validate (compile demo_env) ?rules = None"
    by (simp add: Validate_def validEventTypes_def validOperators_def demo_rule_def)
  have seven: "fmt_g 7 = ''7''"
    by (simp add: fmt_g_def fmt_dec.simps [of 7] digit_char_def char_of_eq_iff)
  have "map fst (map (\<lambda>a. (al_RuleID a, al_NodeID a, al_EventID a, al_Message a, al_Severity a)) ?als) = [''r'']"
    unfolding conjunct1 [OF Evaluate_spec [OF v]]
    by (simp add: demo_rule_def demo_event_def condition_holds_def getFieldValue_def obj_get_def seven)
  then show ?thesis by (simp add: comp_def)
qed

text \<open>
  C38: comparing a number with \<^verbatim>\<open>eq\<close>: a condition whose value is the decimal form of the field's number
  holds exactly when the number has at most six digits. From 1000000 on the number is rendered with an
  exponent, so the condition never holds although the numbers are equal.
\<close>

theorem eq_condition_on_number:
  assumes "getFieldValue payload (co_Field cond) = Some (JNum n)" and "0 \<le> n"
    and "co_Operator cond = ''eq''" and "co_Value cond = fmt_int n"
  shows "matchCondition E payload cond \<longleftrightarrow> n < 1000000"
proof (cases "n < 1000000")
  case True
  then show ?thesis using assms fmt_g_small [of n] by (simp add: matchCondition_def)
next
  case False
  then show ?thesis using assms fmt_g_large [of n n] by (simp add: matchCondition_def)
qed

theorem eq_condition_on_number_witness:
  "\<not> matchCondition demo_env [(''pid'', JNum 1234567)] \<lparr>co_Field = ''pid'', co_Operator = ''eq'', co_Value = fmt_int 1234567\<rparr> \<and>
   matchCondition demo_env [(''pid'', JNum 7)] \<lparr>co_Field = ''pid'', co_Operator = ''eq'', co_Value = fmt_int 7\<rparr>"
proof -
  have g: "getFieldValue [(''pid'', JNum k)] (co_Field \<lparr>co_Field = ''pid'', co_Operator = ''eq'', co_Value = v\<rparr>) = Some (JNum k)" for k v
    by (simp add: getFieldValue_def obj_get_def)
  show ?thesis
    using eq_condition_on_number [OF g, of 1234567 "fmt_int 1234567" demo_env] eq_condition_on_number [OF g, of 7 "fmt_int 7" demo_env]
    by simp
qed

end
