(* ===== verification/Notify.thy ===== *)
theory Notify
  imports StoreTypes
begin

text \<open>
  Package \<^verbatim>\<open>internal/notify\<close>: the dispatcher that passes alerts to Slack and e-mail behind a severity
  floor and a cooldown per rule and node, with at most 32 dispatches in flight. The outside world is an
  argument: the answer of the HTTP client, the SMTP server's answer to each command, the environment
  variables, \<^verbatim>\<open>time.ParseDuration\<close>.

  Shown: the bound on the dispatches in flight, and that no alert is lost unaccounted, over every
  interleaving of the goroutines; that the cooldown separates the notifications of one rule and node
  and suppresses nothing else; what an e-mail says and when the SMTP conversation delivers it; how long a
  dispatch takes, and that its channels share one deadline; which channels the environment configures.
\<close>

section \<open>Model\<close>

definition severityRank :: "(string, int) gomap" where
  "severityRank =
     [(''info'', 0), (''low'', 0), (''warning'', 1), (''warn'', 1), (''medium'', 1),
      (''high'', 2), (''critical'', 2), (''error'', 2)]"

definition rankOf :: "string \<Rightarrow> int" where
  "rankOf severity = gm_count severityRank (ToLower (TrimSpace severity))"

subsection \<open>Channels\<close>

text \<open>Of the HTTP client of a Slack notifier only its timeout is kept; when none is given it is ten seconds.\<close>

record SlackNotifier =
  sl_webhookURL :: string
  sl_clientTimeout :: duration

definition NewSlackNotifier :: "string \<Rightarrow> duration option \<Rightarrow> SlackNotifier" where
  "NewSlackNotifier webhookURL client =
     \<lparr>sl_webhookURL = webhookURL, sl_clientTimeout = (case client of None \<Rightarrow> 10 * second | Some timeout \<Rightarrow> timeout)\<rparr>"

datatype smtp_auth = PlainAuth string string string string

record EmailNotifier =
  em_addr :: string
  em_auth :: "smtp_auth option"
  em_from :: string
  em_to :: "string list"

record EmailConfig =
  ec_Addr :: string
  ec_Username :: string
  ec_Password :: string
  ec_From :: string
  ec_To :: "string list"

definition crlf :: string where "crlf = [CHR 0x0D, CHR 0x0A]"

definition formatSlackText :: "Alert \<Rightarrow> string" where
  "formatSlackText a =
     '':rotating_light: *['' @ al_Severity a @ '']* '' @ al_Message a @ [CHR 0x0A] @
     ''> node: `'' @ al_NodeID a @ ''`  rule: `'' @ al_RuleID a @ ''`  event: `'' @ al_EventID a @
     ''`  at '' @ format_RFC3339 (al_Timestamp a)"

record slackPayload =
  sp_Text :: string

definition slackPayload_json :: "slackPayload \<Rightarrow> json" where
  "slackPayload_json p = JObj [(''text'', JStr (sp_Text p))]"

text \<open>
  \<open>new_request\<close> is the error of \<^verbatim>\<open>http.NewRequestWithContext\<close> for a URL, if any. \<open>do\<close> is the client: for a
  deadline (the earlier of the context's and its own timeout, where it has one), the instant of the call, a URL
  and a document it gives the status of the response or an error, and the instant at which it returns. The
  result is what \<^verbatim>\<open>Send\<close> returns, and when.
\<close>

datatype send_error = BuildRequest string | PostFailed string | SlackStatus int | NoRecipients | SendMail string

definition slack_Send ::
  "(string \<Rightarrow> string option) \<Rightarrow> (time \<Rightarrow> time \<Rightarrow> string \<Rightarrow> json \<Rightarrow> (string + int) \<times> time) \<Rightarrow> time \<Rightarrow> time
    \<Rightarrow> SlackNotifier \<Rightarrow> Alert \<Rightarrow> send_error option \<times> time" where
  "slack_Send new_request do deadline t s a =
     (let body = slackPayload_json \<lparr>sp_Text = formatSlackText a\<rparr>;
          until = (if 0 < sl_clientTimeout s then min deadline (time_add t (sl_clientTimeout s)) else deadline) in
      case new_request (sl_webhookURL s) of
        Some err \<Rightarrow> (Some (BuildRequest err), t)
      | None \<Rightarrow> (case do until t (sl_webhookURL s) body of
          (Inl err, t') \<Rightarrow> (Some (PostFailed err), t')
        | (Inr status, t') \<Rightarrow> (if status < 200 \<or> status \<ge> 300 then Some (SlackStatus status) else None, t')))"

definition NewEmailNotifier :: "EmailConfig \<Rightarrow> EmailNotifier" where
  "NewEmailNotifier cfg =
     (let auth = (if ec_Username cfg \<noteq> [] then
          (let host = (case before_last (ec_Addr cfg) (CHR '':'') of Some h \<Rightarrow> h | None \<Rightarrow> ec_Addr cfg)
           in Some (PlainAuth [] (ec_Username cfg) (ec_Password cfg) host))
        else None)
      in \<lparr>em_addr = ec_Addr cfg, em_auth = auth, em_from = ec_From cfg, em_to = ec_To cfg\<rparr>)"

definition email_subject :: "Alert \<Rightarrow> string" where
  "email_subject a = ''[SentinelMesh]['' @ al_Severity a @ ''] '' @ al_Message a"

definition email_body :: "Alert \<Rightarrow> string" where
  "email_body a =
     ''A SentinelMesh alert was triggered.'' @ crlf @ crlf @
     ''Severity: '' @ al_Severity a @ crlf @
     ''Message:  '' @ al_Message a @ crlf @
     ''Node:     '' @ al_NodeID a @ crlf @
     ''Rule:     '' @ al_RuleID a @ crlf @
     ''Event:    '' @ al_EventID a @ crlf @
     ''Time:     '' @ format_RFC3339 (al_Timestamp a) @ crlf"

definition buildMessage :: "EmailNotifier \<Rightarrow> Alert \<Rightarrow> string" where
  "buildMessage e a =
     ''From: '' @ em_from e @ crlf @
     ''To: '' @ Join (em_to e) '', '' @ crlf @
     ''Subject: '' @ email_subject a @ crlf @
     ''MIME-Version: 1.0'' @ crlf @
     ''Content-Type: text/plain; charset='' @ [CHR 0x22] @ ''utf-8'' @ [CHR 0x22] @ crlf @
     crlf @
     email_body a"

subsection \<open>The SMTP conversation\<close>

text \<open>
  The operations of \<^verbatim>\<open>sendMailContext\<close> on the connection, in order. The server is a function from what
  has been done so far and the next operation to an error, or none; \<open>has_auth\<close> says whether it announces
  the AUTH extension. The result is the error returned, and the operations performed. \<open>Hello\<close> is the greeting
  the SMTP client sends once, before the first command that needs it: before the AUTH extension is looked up
  when there are credentials, before MAIL otherwise. When it fails, the lookup finds no extension and MAIL
  returns the failure, so that the conversation ends with that error in both cases. Closing the connection, as
  the deferred calls do on every path, is not recorded.
\<close>

datatype smtp_op =
    Dial string
  | SetDeadline
  | NewClient string
  | Hello
  | Auth smtp_auth
  | Mail string
  | Rcpt string
  | DataCmd
  | WriteMsg string
  | CloseData
  | Quit

type_synonym smtp_server = "smtp_op list \<Rightarrow> smtp_op \<Rightarrow> string option"

fun smtp_run :: "smtp_server \<Rightarrow> smtp_op list \<Rightarrow> smtp_op list \<Rightarrow> string option \<times> smtp_op list" where
  "smtp_run srv trace [] = (None, trace)"
| "smtp_run srv trace (operation # ops) =
     (case srv trace operation of
        Some err \<Rightarrow> (Some err, trace @ [operation])
      | None \<Rightarrow> smtp_run srv (trace @ [operation]) ops)"

text \<open>
  \<open>split_host\<close> is \<^verbatim>\<open>net.SplitHostPort\<close> (the host, or nothing on error); \<open>deadline\<close> says whether the
  context has a deadline (the dispatcher's contexts do). The message is handed to the server with
  \<^verbatim>\<open>CloseData\<close>; \<^verbatim>\<open>Quit\<close> ends the session.
\<close>

definition smtp_script :: "bool \<Rightarrow> bool \<Rightarrow> string \<Rightarrow> string \<Rightarrow> smtp_auth option \<Rightarrow> string \<Rightarrow> string list \<Rightarrow> string \<Rightarrow> smtp_op list" where
  "smtp_script deadline has_auth addr host a from to msg =
     [Dial addr] @ (if deadline then [SetDeadline] else []) @ [NewClient host, Hello] @
     (case a of None \<Rightarrow> [] | Some au \<Rightarrow> if has_auth then [Auth au] else []) @
     [Mail from] @ map Rcpt to @ [DataCmd, WriteMsg msg, CloseData, Quit]"

definition sendMailContext ::
  "smtp_server \<Rightarrow> (string \<Rightarrow> string option) \<Rightarrow> bool \<Rightarrow> bool \<Rightarrow> string \<Rightarrow> smtp_auth option \<Rightarrow> string \<Rightarrow> string list \<Rightarrow> string
    \<Rightarrow> string option \<times> smtp_op list" where
  "sendMailContext srv split_host deadline has_auth addr a from to msg =
     (let host = (case split_host addr of None \<Rightarrow> addr | Some h \<Rightarrow> h)
      in smtp_run srv [] (smtp_script deadline has_auth addr host a from to msg))"

definition email_Send ::
  "smtp_server \<Rightarrow> (string \<Rightarrow> string option) \<Rightarrow> bool \<Rightarrow> EmailNotifier \<Rightarrow> Alert \<Rightarrow> send_error option \<times> smtp_op list" where
  "email_Send srv split_host has_auth e a =
     (if em_to e = [] then (Some NoRecipients, [])
      else case sendMailContext srv split_host True has_auth (em_addr e) (em_auth e) (em_from e) (em_to e) (buildMessage e a) of
        (Some err, tr) \<Rightarrow> (Some (SendMail err), tr)
      | (None, tr) \<Rightarrow> (None, tr))"

subsection \<open>The dispatcher\<close>

datatype notifier = Slack SlackNotifier | Email EmailNotifier

definition notifier_Name :: "notifier \<Rightarrow> string" where
  "notifier_Name n = (case n of Slack _ \<Rightarrow> ''slack'' | Email _ \<Rightarrow> ''email'')"

definition maxConcurrentDispatch :: nat where "maxConcurrentDispatch = 32"

record Dispatcher =
  dp_notifiers :: "notifier list"
  dp_cooldown :: duration
  dp_minRank :: int
  dp_timeout :: duration
  dp_lastSent :: "(string, time) gomap"
  dp_dropped :: "64 word"

record Options =
  op_Notifiers :: "notifier list"
  op_Cooldown :: duration
  op_MinSeverity :: string
  op_SendTimeout :: duration

definition NewDispatcher :: "Options \<Rightarrow> Dispatcher" where
  "NewDispatcher opts =
     (let minSev = (if op_MinSeverity opts = [] then ''warning'' else op_MinSeverity opts);
          timeout = (if op_SendTimeout opts \<le> 0 then 10 * second else op_SendTimeout opts)
      in \<lparr>dp_notifiers = op_Notifiers opts, dp_cooldown = op_Cooldown opts, dp_minRank = rankOf minSev,
          dp_timeout = timeout, dp_lastSent = [], dp_dropped = 0\<rparr>)"

definition Enabled :: "Dispatcher \<Rightarrow> bool" where
  "Enabled d = (dp_notifiers d \<noteq> [])"

definition cooldown_key :: "string \<Rightarrow> string \<Rightarrow> string" where
  "cooldown_key rule node = rule @ [CHR 0x00] @ node"

definition shouldSend :: "Dispatcher \<Rightarrow> time \<Rightarrow> Alert \<Rightarrow> bool \<times> Dispatcher" where
  "shouldSend d now a =
     (if rankOf (al_Severity a) < dp_minRank d then (False, d)
      else if dp_cooldown d \<le> 0 then (True, d)
      else
        let key = cooldown_key (al_RuleID a) (al_NodeID a) in
        if (case gm_get (dp_lastSent d) key of Some lst \<Rightarrow> time_sub now lst < dp_cooldown d | None \<Rightarrow> False)
        then (False, d)
        else (True, d\<lparr>dp_lastSent := gm_put key now (dp_lastSent d)\<rparr>))"

text \<open>
  What the notifiers reach: the HTTP client, and for a context's deadline and the instant of the call the
  SMTP server and the instant at which a conversation has ended; \<^verbatim>\<open>nw_auth\<close> says whether the server at an
  address announces the AUTH extension. \<^verbatim>\<open>notifier_Send\<close> is the method \<^verbatim>\<open>Send\<close> of the interface \<^verbatim>\<open>Notifier\<close>.
\<close>

record network =
  nw_NewRequest :: "string \<Rightarrow> string option"
  nw_Do :: "time \<Rightarrow> time \<Rightarrow> string \<Rightarrow> json \<Rightarrow> (string + int) \<times> time"
  nw_smtp :: "time \<Rightarrow> time \<Rightarrow> smtp_server"
  nw_smtp_end :: "time \<Rightarrow> time \<Rightarrow> smtp_op list \<Rightarrow> time"
  nw_SplitHostPort :: "string \<Rightarrow> string option"
  nw_auth :: "string \<Rightarrow> bool"

definition notifier_Send :: "network \<Rightarrow> time \<Rightarrow> time \<Rightarrow> notifier \<Rightarrow> Alert \<Rightarrow> send_error option \<times> time" where
  "notifier_Send nw deadline t n a =
     (case n of
        Slack s \<Rightarrow> slack_Send (nw_NewRequest nw) (nw_Do nw) deadline t s a
      | Email e \<Rightarrow> (case email_Send (nw_smtp nw deadline t) (nw_SplitHostPort nw) (nw_auth nw (em_addr e)) e a of
          (err, tr) \<Rightarrow> (err, if tr = [] then t else nw_smtp_end nw deadline t tr)))"

text \<open>
  \<^verbatim>\<open>Dispatch\<close>: each attempted delivery with its outcome and the instant at which it ended, in the order of the
  notifiers. A failure does not keep the next notifier from being tried, but one context, made at \<open>start\<close>, is
  the context of all of them.
\<close>

fun send_all :: "network \<Rightarrow> time \<Rightarrow> time \<Rightarrow> Alert \<Rightarrow> notifier list \<Rightarrow> (notifier \<times> send_error option \<times> time) list" where
  "send_all nw deadline t a [] = []"
| "send_all nw deadline t a (n # ns) =
     (case notifier_Send nw deadline t n a of (err, t') \<Rightarrow> (n, err, t') # send_all nw deadline t' a ns)"

definition Dispatch ::
  "network \<Rightarrow> Dispatcher \<Rightarrow> time \<Rightarrow> time \<Rightarrow> Alert \<Rightarrow> (notifier \<times> send_error option \<times> time) list \<times> Dispatcher" where
  "Dispatch nw d now start a =
     (if \<not> Enabled d then ([], d)
      else case shouldSend d now a of
        (False, d') \<Rightarrow> ([], d')
      | (True, d') \<Rightarrow> (send_all nw (time_add start (dp_timeout d')) start a (dp_notifiers d'), d'))"

text \<open>
  The goroutines \<^verbatim>\<open>DispatchAsync\<close> has started and that still hold their slot of the semaphore: an alert
  waits for the gate (\<^verbatim>\<open>shouldSend\<close>) or, past it, is being sent.
\<close>

datatype phase = AtGate | Sending

record notify_state =
  ns_disp :: Dispatcher
  ns_running :: "(Alert \<times> phase) list"

definition DispatchAsync :: "notify_state \<Rightarrow> Alert \<Rightarrow> notify_state" where
  "DispatchAsync s a =
     (if \<not> Enabled (ns_disp s) then s
      else if length (ns_running s) < maxConcurrentDispatch
      then s\<lparr>ns_running := ns_running s @ [(a, AtGate)]\<rparr>
      else s\<lparr>ns_disp := (ns_disp s)\<lparr>dp_dropped := dp_dropped (ns_disp s) + 1\<rparr>\<rparr>)"

text \<open>The warning is logged for the first alert dropped and for every hundredth.\<close>

definition drop_logged :: "64 word \<Rightarrow> bool" where
  "drop_logged n = (n = 1 \<or> n mod 100 = 0)"

definition drop_nth :: "nat \<Rightarrow> 'a list \<Rightarrow> 'a list" where
  "drop_nth i xs = take i xs @ drop (Suc i) xs"

text \<open>
  The goroutine at position \<open>i\<close> passes the gate at \<open>now\<close>, or ends there; a goroutine that has sent its
  alert ends. Both release the slot when they end.
\<close>

definition goroutine_gate :: "notify_state \<Rightarrow> nat \<Rightarrow> time \<Rightarrow> notify_state" where
  "goroutine_gate s i now =
     (case ns_running s ! i of (a, _) \<Rightarrow>
        (case shouldSend (ns_disp s) now a of
           (False, d) \<Rightarrow> s\<lparr>ns_disp := d, ns_running := drop_nth i (ns_running s)\<rparr>
         | (True, d) \<Rightarrow> s\<lparr>ns_disp := d, ns_running := (ns_running s)[i := (a, Sending)]\<rparr>))"

definition goroutine_done :: "notify_state \<Rightarrow> nat \<Rightarrow> notify_state" where
  "goroutine_done s i = s\<lparr>ns_running := drop_nth i (ns_running s)\<rparr>"

subsection \<open>Configuration from the environment\<close>

definition splitAndTrim :: "string \<Rightarrow> string list" where
  "splitAndTrim csv = filter (\<lambda>p. p \<noteq> []) (map TrimSpace (Split csv (CHR '','')))"

definition envSlackWebhook :: string where [simp]: "envSlackWebhook = ''SENTINEL_SLACK_WEBHOOK_URL''"
definition envSMTPAddr :: string where [simp]: "envSMTPAddr = ''SENTINEL_SMTP_ADDR''"
definition envSMTPUser :: string where [simp]: "envSMTPUser = ''SENTINEL_SMTP_USER''"
definition envSMTPPassword :: string where [simp]: "envSMTPPassword = ''SENTINEL_SMTP_PASSWORD''"
definition envSMTPFrom :: string where [simp]: "envSMTPFrom = ''SENTINEL_SMTP_FROM''"
definition envSMTPTo :: string where [simp]: "envSMTPTo = ''SENTINEL_SMTP_TO''"
definition envCooldown :: string where [simp]: "envCooldown = ''SENTINEL_NOTIFY_COOLDOWN''"
definition envMinSeverity :: string where [simp]: "envMinSeverity = ''SENTINEL_NOTIFY_MIN_SEVERITY''"

definition defaultCooldown :: duration where "defaultCooldown = 5 * minute"

definition DispatcherFromEnv :: "(string \<Rightarrow> duration option) \<Rightarrow> (string \<Rightarrow> string) \<Rightarrow> Dispatcher" where
  "DispatcherFromEnv ParseDuration Getenv =
     (let url = TrimSpace (Getenv envSlackWebhook);
          slack = (if url \<noteq> [] then [Slack (NewSlackNotifier url None)] else []);
          addr = TrimSpace (Getenv envSMTPAddr);
          to = splitAndTrim (Getenv envSMTPTo);
          from = TrimSpace (Getenv envSMTPFrom);
          email = (if addr \<noteq> [] \<and> from \<noteq> [] \<and> to \<noteq> [] then
            [Email (NewEmailNotifier \<lparr>ec_Addr = addr, ec_Username = TrimSpace (Getenv envSMTPUser),
               ec_Password = Getenv envSMTPPassword, ec_From = from, ec_To = to\<rparr>)] else []);
          v = TrimSpace (Getenv envCooldown);
          cooldown = (if v \<noteq> [] then (case ParseDuration v of Some d \<Rightarrow> d | None \<Rightarrow> defaultCooldown) else defaultCooldown)
      in NewDispatcher \<lparr>op_Notifiers = slack @ email, op_Cooldown = cooldown,
           op_MinSeverity = TrimSpace (Getenv envMinSeverity), op_SendTimeout = 0\<rparr>)"

section \<open>Runs of the dispatcher\<close>

text \<open>
  Every interleaving of calls of \<^verbatim>\<open>DispatchAsync\<close> with the steps of the goroutines, with the fate of each
  alert as a label.
\<close>

datatype notify_label = Accepted Alert | Dropped Alert | Suppressed Alert | Passed Alert time | Finished Alert

inductive notify_run :: "Dispatcher \<Rightarrow> notify_label list \<Rightarrow> notify_state \<Rightarrow> bool" for d0 where
  start: "notify_run d0 [] \<lparr>ns_disp = d0, ns_running = []\<rparr>"
| async: "notify_run d0 ls s \<Longrightarrow> Enabled (ns_disp s) \<Longrightarrow>
    notify_run d0 (ls @ [if DispatchAsync s a = s\<lparr>ns_running := ns_running s @ [(a, AtGate)]\<rparr> then Accepted a else Dropped a])
      (DispatchAsync s a)"
| gate: "notify_run d0 ls s \<Longrightarrow> i < length (ns_running s) \<Longrightarrow> ns_running s ! i = (a, AtGate) \<Longrightarrow>
    notify_run d0 (ls @ [if fst (shouldSend (ns_disp s) now a) then Passed a now else Suppressed a]) (goroutine_gate s i now)"
| finish: "notify_run d0 ls s \<Longrightarrow> i < length (ns_running s) \<Longrightarrow> ns_running s ! i = (a, Sending) \<Longrightarrow>
    notify_run d0 (ls @ [Finished a]) (goroutine_done s i)"

definition alerts_by :: "(notify_label \<Rightarrow> Alert list) \<Rightarrow> notify_label list \<Rightarrow> Alert multiset" where
  "alerts_by f ls = mset (concat (map f ls))"

definition accepted :: "notify_label \<Rightarrow> Alert list" where
  "accepted l = (case l of Accepted a \<Rightarrow> [a] | _ \<Rightarrow> [])"
definition dropped :: "notify_label \<Rightarrow> Alert list" where
  "dropped l = (case l of Dropped a \<Rightarrow> [a] | _ \<Rightarrow> [])"
definition suppressed :: "notify_label \<Rightarrow> Alert list" where
  "suppressed l = (case l of Suppressed a \<Rightarrow> [a] | _ \<Rightarrow> [])"
definition finished :: "notify_label \<Rightarrow> Alert list" where
  "finished l = (case l of Finished a \<Rightarrow> [a] | _ \<Rightarrow> [])"

definition pass_times :: "notify_label list \<Rightarrow> string \<Rightarrow> string \<Rightarrow> time list" where
  "pass_times ls rule node =
     concat (map (\<lambda>l. case l of Passed a t \<Rightarrow> if al_RuleID a = rule \<and> al_NodeID a = node then [t] else [] | _ \<Rightarrow> []) ls)"

lemmas label_defs = accepted_def dropped_def suppressed_def finished_def

lemma alerts_by_snoc [simp]: "alerts_by f (ls @ [l]) = alerts_by f ls + mset (f l)"
  by (simp add: alerts_by_def)

lemma alerts_by_Nil [simp]: "alerts_by f [] = {#}"
  by (simp add: alerts_by_def)

lemma mset_drop_nth: "i < length xs \<Longrightarrow> add_mset (xs ! i) (mset (drop_nth i xs)) = mset xs"
  unfolding drop_nth_def by (subst (3) id_take_nth_drop [of i xs]) simp_all

lemma length_drop_nth: "length (drop_nth i xs) \<le> length xs"
  by (simp add: drop_nth_def)

lemma shouldSend_frame:
  "dp_notifiers (snd (shouldSend d now a)) = dp_notifiers d" "dp_dropped (snd (shouldSend d now a)) = dp_dropped d"
  "dp_cooldown (snd (shouldSend d now a)) = dp_cooldown d" "dp_minRank (snd (shouldSend d now a)) = dp_minRank d"
  "dp_timeout (snd (shouldSend d now a)) = dp_timeout d"
  by (simp_all add: shouldSend_def Let_def)

lemma goroutine_gate_facts:
  assumes "i < length (ns_running s)" and "ns_running s ! i = (a, AtGate)"
  shows "ns_disp (goroutine_gate s i now) = snd (shouldSend (ns_disp s) now a)"
    and "fst (shouldSend (ns_disp s) now a) \<Longrightarrow> ns_running (goroutine_gate s i now) = (ns_running s)[i := (a, Sending)]"
    and "\<not> fst (shouldSend (ns_disp s) now a) \<Longrightarrow> ns_running (goroutine_gate s i now) = drop_nth i (ns_running s)"
  using assms by (auto simp: goroutine_gate_def split: prod.splits bool.splits)

definition accounted :: "notify_label list \<Rightarrow> notify_state \<Rightarrow> bool" where
  "accounted ls s =
     (length (ns_running s) \<le> maxConcurrentDispatch \<and>
      alerts_by accepted ls = alerts_by suppressed ls + alerts_by finished ls + mset (map fst (ns_running s)) \<and>
      dp_dropped (ns_disp s) = of_nat (size (alerts_by dropped ls)))"

lemma accounted_async:
  assumes "accounted ls s" and "Enabled (ns_disp s)"
  shows "accounted (ls @ [if DispatchAsync s a = s\<lparr>ns_running := ns_running s @ [(a, AtGate)]\<rparr> then Accepted a else Dropped a])
    (DispatchAsync s a)"
proof (cases "length (ns_running s) < maxConcurrentDispatch")
  case True
  then have "DispatchAsync s a = s\<lparr>ns_running := ns_running s @ [(a, AtGate)]\<rparr>"
    using assms(2) by (simp add: DispatchAsync_def)
  then show ?thesis using assms(1) True by (simp add: accounted_def label_defs)
next
  case False
  then have d: "DispatchAsync s a = s\<lparr>ns_disp := (ns_disp s)\<lparr>dp_dropped := dp_dropped (ns_disp s) + 1\<rparr>\<rparr>"
    using assms(2) by (simp add: DispatchAsync_def)
  then have "ns_running (DispatchAsync s a) = ns_running s" by simp
  then have "DispatchAsync s a \<noteq> s\<lparr>ns_running := ns_running s @ [(a, AtGate)]\<rparr>"
    by (metis append_self_conv list.distinct(1) notify_state.select_convs(2) notify_state.surjective notify_state.update_convs(2))
  then show ?thesis using assms(1) d by (simp add: accounted_def label_defs)
qed

lemma accounted_gate:
  assumes "accounted ls s" and "i < length (ns_running s)" and "ns_running s ! i = (a, AtGate)"
  shows "accounted (ls @ [if fst (shouldSend (ns_disp s) now a) then Passed a now else Suppressed a]) (goroutine_gate s i now)"
proof (cases "fst (shouldSend (ns_disp s) now a)")
  case True
  have "map fst ((ns_running s)[i := (a, Sending)]) = map fst (ns_running s)"
    using assms(2,3) by (simp add: map_update list_update_same_conv)
  then show ?thesis
    using assms(1) True goroutine_gate_facts [OF assms(2,3), of now]
    by (simp add: accounted_def label_defs shouldSend_frame)
next
  case False
  have "mset (map fst (ns_running s)) = add_mset a (mset (map fst (drop_nth i (ns_running s))))"
    using mset_drop_nth [OF assms(2)] assms(3) by (metis fst_conv image_mset_add_mset mset_map)
  then show ?thesis
    using assms(1) False goroutine_gate_facts [OF assms(2,3), of now]
    by (auto simp: accounted_def label_defs shouldSend_frame intro: le_trans [OF length_drop_nth])
qed

lemma accounted_finish:
  assumes "accounted ls s" and "i < length (ns_running s)" and "ns_running s ! i = (a, Sending)"
  shows "accounted (ls @ [Finished a]) (goroutine_done s i)"
proof -
  have "mset (map fst (ns_running s)) = add_mset a (mset (map fst (drop_nth i (ns_running s))))"
    using mset_drop_nth [OF assms(2)] assms(3) by (metis fst_conv image_mset_add_mset mset_map)
  then show ?thesis
    using assms(1)
    by (auto simp: accounted_def label_defs goroutine_done_def intro: le_trans [OF length_drop_nth])
qed

lemma notify_run_accounted: "notify_run d0 ls s \<Longrightarrow> dp_dropped d0 = 0 \<Longrightarrow> accounted ls s"
  by (induction rule: notify_run.induct)
    (simp_all add: accounted_async accounted_gate accounted_finish accounted_def [of "[]"])

section \<open>The cooldown against the history\<close>

text \<open>The key separates rule and node as long as node ids contain no zero byte.\<close>

lemma cooldown_key_inject:
  "CHR 0x00 \<notin> set n \<Longrightarrow> CHR 0x00 \<notin> set n' \<Longrightarrow> cooldown_key r n = cooldown_key r' n' \<longleftrightarrow> r = r' \<and> n = n'"
  using append_sep_right_inject [of r "CHR 0x00" n r' n'] by (auto simp: cooldown_key_def)

definition label_node_ok :: "notify_label \<Rightarrow> bool" where
  "label_node_ok l =
     (case l of Passed a _ \<Rightarrow> CHR 0x00 \<notin> set (al_NodeID a) | Suppressed a \<Rightarrow> CHR 0x00 \<notin> set (al_NodeID a) | _ \<Rightarrow> True)"

text \<open>\<^verbatim>\<open>lastSent\<close> holds the latest pass of each rule and node, and the passes are a cooldown apart.\<close>

definition cooled :: "notify_label list \<Rightarrow> Dispatcher \<Rightarrow> bool" where
  "cooled ls d =
     (\<forall>rule node. CHR 0x00 \<notin> set node \<longrightarrow>
        gm_get (dp_lastSent d) (cooldown_key rule node) =
          (if pass_times ls rule node = [] then None else Some (last (pass_times ls rule node))) \<and>
        sorted_wrt (\<lambda>t u. t + dp_cooldown d \<le> u) (pass_times ls rule node))"

lemma pass_times_snoc [simp]:
  "pass_times (ls @ [l]) rule node = pass_times ls rule node @
    (case l of Passed a t \<Rightarrow> if al_RuleID a = rule \<and> al_NodeID a = node then [t] else [] | _ \<Rightarrow> [])"
  by (simp add: pass_times_def)

lemma sorted_wrt_snoc_last:
  assumes "sorted_wrt (\<lambda>t u. t + c \<le> u) ts" and "(0 :: int) \<le> c" and "ts \<noteq> [] \<Longrightarrow> last ts + c \<le> now"
  shows "sorted_wrt (\<lambda>t u. t + c \<le> u) (ts @ [now])"
proof -
  have "t \<le> last ts" if "t \<in> set ts" for t
    using assms(1) that
  proof (induction ts)
    case (Cons x ts)
    show ?case
    proof (cases "ts = []")
      case False
      then have "x + c \<le> last ts" using Cons.prems(1) by simp
      then have "x \<le> last ts" using assms(2) by simp
      with False Cons show ?thesis by auto
    qed (use Cons.prems in simp)
  qed simp
  then show ?thesis using assms(1,3) by (fastforce simp: sorted_wrt_append)
qed

lemma cooled_pass:
  assumes "cooled ls d" and "CHR 0x00 \<notin> set (al_NodeID a)"
    and "sorted_wrt (\<lambda>t u. t + dp_cooldown d \<le> u) (pass_times ls (al_RuleID a) (al_NodeID a) @ [now])"
  shows "cooled (ls @ [Passed a now]) (d\<lparr>dp_lastSent := gm_put (cooldown_key (al_RuleID a) (al_NodeID a)) now (dp_lastSent d)\<rparr>)"
  unfolding cooled_def
proof (intro allI impI)
  let ?k = "cooldown_key (al_RuleID a) (al_NodeID a)"
  fix rule node assume n: "CHR 0x00 \<notin> set node"
  have k: "cooldown_key rule node = ?k \<longleftrightarrow> rule = al_RuleID a \<and> node = al_NodeID a"
    using cooldown_key_inject [OF n assms(2)] .
  have old: "gm_get (dp_lastSent d) (cooldown_key rule node) =
      (if pass_times ls rule node = [] then None else Some (last (pass_times ls rule node)))"
    "sorted_wrt (\<lambda>t u. t + dp_cooldown d \<le> u) (pass_times ls rule node)"
    using assms(1) n by (auto simp: cooled_def)
  show "gm_get (dp_lastSent (d\<lparr>dp_lastSent := gm_put ?k now (dp_lastSent d)\<rparr>)) (cooldown_key rule node) =
      (if pass_times (ls @ [Passed a now]) rule node = [] then None else Some (last (pass_times (ls @ [Passed a now]) rule node))) \<and>
    sorted_wrt (\<lambda>t u. t + dp_cooldown (d\<lparr>dp_lastSent := gm_put ?k now (dp_lastSent d)\<rparr>) \<le> u)
      (pass_times (ls @ [Passed a now]) rule node)"
    using old assms(3) k by (cases "rule = al_RuleID a \<and> node = al_NodeID a") auto
qed

lemma shouldSend_cooled:
  assumes "cooled ls d" and "0 < dp_cooldown d" and "dp_cooldown d \<le> int64_max"
    and "CHR 0x00 \<notin> set (al_NodeID a)"
  shows "fst (shouldSend d now a) \<longleftrightarrow> dp_minRank d \<le> rankOf (al_Severity a) \<and>
      (pass_times ls (al_RuleID a) (al_NodeID a) = [] \<or>
       dp_cooldown d \<le> now - last (pass_times ls (al_RuleID a) (al_NodeID a)))"
    and "cooled (ls @ [if fst (shouldSend d now a) then Passed a now else Suppressed a]) (snd (shouldSend d now a))"
proof -
  let ?ts = "pass_times ls (al_RuleID a) (al_NodeID a)"
  let ?k = "cooldown_key (al_RuleID a) (al_NodeID a)"
  have sub: "time_sub now u < dp_cooldown d \<longleftrightarrow> now - u < dp_cooldown d" for u
    using time_sub_less [of "dp_cooldown d"] assms(2,3) by (simp add: valid_duration_def int64_min_def)
  have get: "gm_get (dp_lastSent d) ?k = (if ?ts = [] then None else Some (last ?ts))"
    and srt: "sorted_wrt (\<lambda>t u. t + dp_cooldown d \<le> u) ?ts"
    using assms(1,4) by (auto simp: cooled_def)
  show iff: "fst (shouldSend d now a) \<longleftrightarrow> dp_minRank d \<le> rankOf (al_Severity a) \<and>
      (?ts = [] \<or> dp_cooldown d \<le> now - last ?ts)"
    using get assms(2) by (auto simp: shouldSend_def Let_def sub)
  show "cooled (ls @ [if fst (shouldSend d now a) then Passed a now else Suppressed a]) (snd (shouldSend d now a))"
  proof (cases "fst (shouldSend d now a)")
    case False
    then have "snd (shouldSend d now a) = d" by (auto simp: shouldSend_def Let_def split: if_splits)
    with False assms(1) show ?thesis by (simp add: cooled_def)
  next
    case True
    then have d: "snd (shouldSend d now a) = d\<lparr>dp_lastSent := gm_put ?k now (dp_lastSent d)\<rparr>"
      using assms(2) by (auto simp: shouldSend_def Let_def split: if_splits)
    have "sorted_wrt (\<lambda>t u. t + dp_cooldown d \<le> u) (?ts @ [now])"
      by (rule sorted_wrt_snoc_last) (use srt iff True assms(2) in auto)
    from cooled_pass [OF assms(1,4) this] show ?thesis using True d by simp
  qed
qed

lemma cooled_frame:
  "dp_lastSent d = dp_lastSent d' \<Longrightarrow> dp_cooldown d = dp_cooldown d' \<Longrightarrow> cooled ls d = cooled ls d'"
  by (simp add: cooled_def)

lemma cooled_other:
  "cooled ls d \<Longrightarrow> (case l of Passed _ _ \<Rightarrow> False | _ \<Rightarrow> True) \<Longrightarrow> cooled (ls @ [l]) d"
  by (auto simp: cooled_def split: notify_label.splits)

lemma DispatchAsync_frame:
  "dp_lastSent (ns_disp (DispatchAsync s a)) = dp_lastSent (ns_disp s)"
  "dp_cooldown (ns_disp (DispatchAsync s a)) = dp_cooldown (ns_disp s)"
  "dp_minRank (ns_disp (DispatchAsync s a)) = dp_minRank (ns_disp s)"
  by (simp_all add: DispatchAsync_def)

lemma notify_run_cooled:
  assumes "notify_run d0 ls s" and "dp_lastSent d0 = []" and "0 < dp_cooldown d0" and "dp_cooldown d0 \<le> int64_max"
    and "list_all label_node_ok ls"
  shows "cooled ls (ns_disp s) \<and> dp_cooldown (ns_disp s) = dp_cooldown d0 \<and> dp_minRank (ns_disp s) = dp_minRank d0"
  using assms
proof (induction rule: notify_run.induct)
  case start
  then show ?case by (simp add: cooled_def pass_times_def)
next
  case (async ls s a)
  then show ?case
    using cooled_frame [OF DispatchAsync_frame(1,2)] by (auto simp: DispatchAsync_frame intro: cooled_other)
next
  case (gate ls s i a now)
  have ok: "CHR 0x00 \<notin> set (al_NodeID a)"
    using gate.prems(4) by (auto simp: label_node_ok_def split: if_splits)
  show ?case
    using gate goroutine_gate_facts(1) [OF gate.hyps(2,3), of now] shouldSend_cooled(2) [OF _ _ _ ok]
    by (simp add: shouldSend_frame)
next
  case (finish ls s i a)
  then show ?case by (auto simp: goroutine_done_def intro: cooled_other)
qed

section \<open>Properties\<close>

text \<open>
  C8: however the calls of \<^verbatim>\<open>DispatchAsync\<close> and the goroutines interleave, at most 32 dispatches are in
  flight, and every alert handed to an enabled dispatcher is accounted for: it was dropped and counted,
  or it was accepted, and then it was suppressed at the gate, has been sent, or is still in flight.
\<close>

theorem dispatch_bounded_and_accounted:
  assumes "notify_run (NewDispatcher opts) ls s"
  shows "length (ns_running s) \<le> 32 \<and>
    alerts_by accepted ls = alerts_by suppressed ls + alerts_by finished ls + mset (map fst (ns_running s)) \<and>
    dp_dropped (ns_disp s) = of_nat (size (alerts_by dropped ls))"
  using notify_run_accounted [OF assms]
  by (simp add: accounted_def NewDispatcher_def maxConcurrentDispatch_def Let_def)

definition demo_options :: Options where
  "demo_options = \<lparr>op_Notifiers = [Slack (NewSlackNotifier ''u'' None)], op_Cooldown = minute, op_MinSeverity = [], op_SendTimeout = 0\<rparr>"

lemma demo_dispatcher: "Enabled (NewDispatcher demo_options)" "dp_lastSent (NewDispatcher demo_options) = []"
  "dp_cooldown (NewDispatcher demo_options) = minute"
  by (simp_all add: Enabled_def NewDispatcher_def demo_options_def)

lemma demo_accept:
  "notify_run (NewDispatcher demo_options) [Accepted a] \<lparr>ns_disp = NewDispatcher demo_options, ns_running = [(a, AtGate)]\<rparr>"
  using notify_run.async [OF notify_run.start, of "NewDispatcher demo_options" a] demo_dispatcher(1)
  by (simp add: DispatchAsync_def maxConcurrentDispatch_def)

theorem dispatch_bounded_and_accounted_witness:
  "notify_run (NewDispatcher demo_options) [Accepted (demo_alert ''r'' ''n'')]
      \<lparr>ns_disp = NewDispatcher demo_options, ns_running = [(demo_alert ''r'' ''n'', AtGate)]\<rparr> \<and>
    alerts_by accepted [Accepted (demo_alert ''r'' ''n'')] = {#demo_alert ''r'' ''n''#}"
  using demo_accept dispatch_bounded_and_accounted [OF demo_accept]
  by (simp add: alerts_by_def label_defs)

text \<open>
  C20: the cooldown, over every run, for node ids without a zero byte: whether an alert passes the gate is
  decided by its severity and by the passes of its own rule and node alone (it passes when there was none,
  or the latest is at least a cooldown ago), and any two notifications of one rule and node are at least
  a cooldown apart.
\<close>

theorem cooldown_by_history:
  assumes "notify_run d0 ls s" and "dp_lastSent d0 = []" and "0 < dp_cooldown d0" and "dp_cooldown d0 \<le> int64_max"
    and "list_all label_node_ok ls" and "CHR 0x00 \<notin> set (al_NodeID a)"
  shows "(fst (shouldSend (ns_disp s) now a) \<longleftrightarrow> dp_minRank d0 \<le> rankOf (al_Severity a) \<and>
      (pass_times ls (al_RuleID a) (al_NodeID a) = [] \<or>
       dp_cooldown d0 \<le> now - last (pass_times ls (al_RuleID a) (al_NodeID a)))) \<and>
    sorted_wrt (\<lambda>t u. t + dp_cooldown d0 \<le> u) (pass_times ls (al_RuleID a) (al_NodeID a))"
proof -
  note c = notify_run_cooled [OF assms(1-5)]
  then have "sorted_wrt (\<lambda>t u. t + dp_cooldown d0 \<le> u) (pass_times ls (al_RuleID a) (al_NodeID a))"
    using assms(6) by (auto simp: cooled_def)
  moreover have "0 < dp_cooldown (ns_disp s)" "dp_cooldown (ns_disp s) \<le> int64_max" using c assms(3,4) by auto
  from shouldSend_cooled(1) [OF _ this assms(6)] c show ?thesis using calculation by metis
qed

theorem cooldown_by_history_witness:
  "fst (shouldSend (NewDispatcher demo_options) 5 (demo_alert ''r'' ''n'')) \<and>
   \<not> fst (shouldSend (snd (shouldSend (NewDispatcher demo_options) 5 (demo_alert ''r'' ''n''))) (5 + second) (demo_alert ''r'' ''n''))"
proof -
  let ?a = "demo_alert ''r'' ''n''" and ?d = "NewDispatcher demo_options"
  have rank: "dp_minRank ?d \<le> rankOf (al_Severity ?a)"
    by (simp add: NewDispatcher_def demo_options_def demo_alert_def)
  have nz: "CHR 0x00 \<notin> set (al_NodeID ?a)" by (simp add: demo_alert_def)
  have cd: "0 < dp_cooldown ?d" "dp_cooldown ?d \<le> int64_max"
    by (simp_all add: demo_dispatcher duration_units int64_max_def)
  have one: "fst (shouldSend ?d 5 ?a)"
    using cooldown_by_history [OF demo_accept [of ?a] demo_dispatcher(2) cd _ nz, of 5] rank
    by (simp add: pass_times_def label_node_ok_def)
  let ?s = "\<lparr>ns_disp = ?d, ns_running = [(?a, AtGate)]\<rparr>"
  have run: "notify_run ?d ([Accepted ?a] @ [if fst (shouldSend (ns_disp ?s) 5 ?a) then Passed ?a 5 else Suppressed ?a]) (goroutine_gate ?s 0 5)"
    by (rule notify_run.gate [OF demo_accept]) simp_all
  have "ns_disp (goroutine_gate ?s 0 5) = snd (shouldSend ?d 5 ?a)"
    using goroutine_gate_facts(1) [of 0 ?s ?a 5] by simp
  with cooldown_by_history [OF run demo_dispatcher(2) cd _ nz, of "5 + second"] one nz show ?thesis
    by (simp add: pass_times_def label_node_ok_def demo_dispatcher duration_units)
qed











definition demo_email :: EmailNotifier where
  "demo_email = NewEmailNotifier \<lparr>ec_Addr = ''mx:25'', ec_Username = [], ec_Password = [], ec_From = ''a@b'', ec_To = [''c@d'']\<rparr>"

lemma demo_email_parts:
  "em_addr demo_email = ''mx:25''" "em_auth demo_email = None" "em_from demo_email = ''a@b''" "em_to demo_email = [''c@d'']"
  by (simp_all add: demo_email_def NewEmailNotifier_def)


lemma smtp_run_result:
  assumes "smtp_run srv trace ops = (res, tr)"
  shows "\<exists>k \<le> length ops. tr = trace @ take k ops \<and>
    (\<forall>j < k. res = None \<or> Suc j < k \<longrightarrow> srv (trace @ take j ops) (ops ! j) = None) \<and>
    (res = None \<longrightarrow> k = length ops) \<and> (\<forall>err. res = Some err \<longrightarrow> 0 < k \<and> srv (trace @ take (k - 1) ops) (ops ! (k - 1)) = Some err)"
  using assms
proof (induction ops arbitrary: trace)
  case Nil
  then show ?case by simp
next
  case (Cons x xs)
  show ?case
  proof (cases "srv trace x")
    case (Some err)
    then show ?thesis using Cons.prems by (intro exI [of _ 1]) auto
  next
    case None
    then have "smtp_run srv (trace @ [x]) xs = (res, tr)" using Cons.prems by simp
    from Cons.IH [OF this] obtain k where k: "k \<le> length xs" "tr = (trace @ [x]) @ take k xs"
      "\<forall>j < k. res = None \<or> Suc j < k \<longrightarrow> srv ((trace @ [x]) @ take j xs) (xs ! j) = None"
      "res = None \<longrightarrow> k = length xs"
      "\<forall>err. res = Some err \<longrightarrow> 0 < k \<and> srv ((trace @ [x]) @ take (k - 1) xs) (xs ! (k - 1)) = Some err" by blast
    show ?thesis
    proof (intro exI [of _ "Suc k"] conjI allI impI)
      fix j assume j: "j < Suc k" "res = None \<or> Suc j < Suc k"
      show "srv (trace @ take j (x # xs)) ((x # xs) ! j) = None"
        using k(3) j None by (cases j) auto
    next
      fix err assume "res = Some err"
      then show "srv (trace @ take (Suc k - 1) (x # xs)) ((x # xs) ! (Suc k - 1)) = Some err"
        using k(5) by (cases k) auto
    qed (use k in auto)
  qed
qed

text \<open>An operation of a script that occurs before another one has been accepted when that one was tried.\<close>

lemma smtp_run_accepted:
  assumes "smtp_run srv [] (xs @ y # zs) = (res, tr)" and "y \<notin> set xs" and "y \<in> set tr" and "x \<in> set xs"
  shows "\<exists>i < length tr. tr ! i = x \<and> srv (take i tr) x = None"
proof -
  let ?ops = "xs @ y # zs"
  obtain k where k: "k \<le> length ?ops" "tr = take k ?ops"
    "\<forall>j < k. res = None \<or> Suc j < k \<longrightarrow> srv (take j ?ops) (?ops ! j) = None"
    using smtp_run_result [OF assms(1)] by auto
  have "length xs < k"
  proof (rule ccontr)
    assume "\<not> length xs < k"
    then have "set tr \<subseteq> set xs" using k(2) by (auto dest: in_set_takeD)
    with assms(2,3) show False by auto
  qed
  moreover obtain i where i: "i < length xs" "xs ! i = x" using assms(4) by (auto simp: in_set_conv_nth)
  ultimately have "i < length tr \<and> tr ! i = x \<and> srv (take i tr) x = None"
    using k(1,2) k(3) [rule_format, of i] by (auto simp: nth_append min_def)
  then show ?thesis by blast
qed

lemma smtp_run_all:
  "(\<And>k. k < length ops \<Longrightarrow> srv (trace @ take k ops) (ops ! k) = None) \<Longrightarrow> smtp_run srv trace ops = (None, trace @ ops)"
proof (induction ops arbitrary: trace)
  case (Cons x xs)
  have "srv trace x = None" using Cons.prems [of 0] by simp
  moreover have "smtp_run srv (trace @ [x]) xs = (None, (trace @ [x]) @ xs)"
    by (rule Cons.IH) (use Cons.prems [of "Suc k" for k] in simp)
  ultimately show ?case by simp
qed simp

lemma smtp_run_refused:
  assumes "k < length ops" and "\<And>j. j < k \<Longrightarrow> srv (trace @ take j ops) (ops ! j) = None"
    and "srv (trace @ take k ops) (ops ! k) = Some err"
  shows "smtp_run srv trace ops = (Some err, trace @ take (Suc k) ops)"
  using assms
proof (induction ops arbitrary: trace k)
  case (Cons x xs)
  show ?case
  proof (cases k)
    case 0
    then show ?thesis using Cons.prems(3) by simp
  next
    case (Suc n)
    have "srv trace x = None" using Cons.prems(2) [of 0] Suc by simp
    moreover have "smtp_run srv (trace @ [x]) xs = (Some err, (trace @ [x]) @ take (Suc n) xs)"
      by (rule Cons.IH) (use Cons.prems(1,3) Cons.prems(2) [of "Suc j" for j] Suc in simp_all)
    ultimately show ?thesis using Suc by simp
  qed
qed simp

text \<open>
  C35: delivery by e-mail. \<^verbatim>\<open>Send\<close> performs the operations of the conversation in their order (dial, deadline,
  greeting, credentials when the server takes them, sender, each recipient, message) and reports success exactly
  when there is a recipient and the server accepts every one; at the first one it refuses, \<^verbatim>\<open>Send\<close> stops and
  reports that error. The message written is the alert's, and it is only ever written after the server has
  accepted each recipient.
\<close>

theorem email_Send_delivers:
  assumes "conversation = [Dial (em_addr e), SetDeadline,
        NewClient (case split_host (em_addr e) of None \<Rightarrow> em_addr e | Some h \<Rightarrow> h), Hello] @
      (if has_auth then (case em_auth e of None \<Rightarrow> [] | Some au \<Rightarrow> [Auth au]) else []) @
      [Mail (em_from e)] @ map Rcpt (em_to e) @ [DataCmd, WriteMsg (buildMessage e a), CloseData, Quit]"
    and "email_Send srv split_host has_auth e a = (res, tr)"
  shows "(res = None \<longleftrightarrow> em_to e \<noteq> [] \<and> (\<forall>k < length conversation. srv (take k conversation) (conversation ! k) = None)) \<and>
    (res = None \<longrightarrow> tr = conversation) \<and>
    (em_to e = [] \<longrightarrow> res = Some NoRecipients \<and> tr = []) \<and>
    (\<forall>k err. em_to e \<noteq> [] \<and> k < length conversation \<and>
       (\<forall>j < k. srv (take j conversation) (conversation ! j) = None) \<and> srv (take k conversation) (conversation ! k) = Some err \<longrightarrow>
       res = Some (SendMail err) \<and> tr = take (Suc k) conversation) \<and>
    (\<forall>m. WriteMsg m \<in> set tr \<longrightarrow> m = buildMessage e a \<and>
      (\<forall>r \<in> set (em_to e). \<exists>i < length tr. tr ! i = Rcpt r \<and> srv (take i tr) (Rcpt r) = None))"
proof (cases "em_to e = []")
  case True
  then show ?thesis using assms(2) by (auto simp: email_Send_def)
next
  case False
  have script: "smtp_script True has_auth (em_addr e) (case split_host (em_addr e) of None \<Rightarrow> em_addr e | Some h \<Rightarrow> h)
      (em_auth e) (em_from e) (em_to e) (buildMessage e a) = conversation"
    by (auto simp: smtp_script_def assms(1) split: option.splits)
  obtain r where run: "smtp_run srv [] conversation = (r, tr)" and r: "res = map_option SendMail r"
    using assms(2) False by (auto simp: email_Send_def sendMailContext_def Let_def script split: prod.splits option.splits)
  have all: "r = None \<and> tr = conversation" if "\<forall>k < length conversation. srv (take k conversation) (conversation ! k) = None"
    using smtp_run_all [of conversation srv "[]"] run that by simp
  have stop: "r = Some err \<and> tr = take (Suc k) conversation"
    if "k < length conversation" "\<forall>j < k. srv (take j conversation) (conversation ! j) = None"
      "srv (take k conversation) (conversation ! k) = Some err" for k err
    using smtp_run_refused [of k conversation srv "[]" err] run that by simp
  have all': "\<forall>k < length conversation. srv (take k conversation) (conversation ! k) = None" if "r = None"
    using smtp_run_result [OF run] that by auto
  define xs where "xs = [Dial (em_addr e), SetDeadline, NewClient (case split_host (em_addr e) of None \<Rightarrow> em_addr e | Some h \<Rightarrow> h), Hello] @
      (if has_auth then (case em_auth e of None \<Rightarrow> [] | Some au \<Rightarrow> [Auth au]) else []) @ [Mail (em_from e)]"
  have xs: "conversation = (xs @ map Rcpt (em_to e) @ [DataCmd]) @ WriteMsg (buildMessage e a) # [CloseData, Quit]"
    unfolding assms(1) xs_def by simp
  have no_msg: "WriteMsg m \<notin> set xs" for m by (cases has_auth; cases "em_auth e") (simp_all add: xs_def)
  have "m = buildMessage e a" if "WriteMsg m \<in> set tr" for m
    using that smtp_run_result [OF run] no_msg by (auto simp: xs dest!: in_set_takeD)
  moreover have "\<exists>i < length tr. tr ! i = Rcpt c \<and> srv (take i tr) (Rcpt c) = None"
    if "WriteMsg (buildMessage e a) \<in> set tr" "c \<in> set (em_to e)" for c
    by (rule smtp_run_accepted [OF run [unfolded xs]]) (use that no_msg in auto)
  ultimately have msg: "\<forall>m. WriteMsg m \<in> set tr \<longrightarrow> m = buildMessage e a \<and>
      (\<forall>c \<in> set (em_to e). \<exists>i < length tr. tr ! i = Rcpt c \<and> srv (take i tr) (Rcpt c) = None)" by blast
  have r': "res = None \<longleftrightarrow> r = None" by (simp add: r)
  have stop': "res = Some (SendMail err) \<and> tr = take (Suc k) conversation"
    if "em_to e \<noteq> [] \<and> k < length conversation \<and> (\<forall>j < k. srv (take j conversation) (conversation ! j) = None) \<and>
      srv (take k conversation) (conversation ! k) = Some err" for k err
    using stop [of k err] that r by simp
  show ?thesis
  proof (intro conjI)
    show "res = None \<longleftrightarrow> em_to e \<noteq> [] \<and> (\<forall>k < length conversation. srv (take k conversation) (conversation ! k) = None)"
      unfolding r' using False all all' by blast
    show "res = None \<longrightarrow> tr = conversation" unfolding r' using all all' by blast
    show "em_to e = [] \<longrightarrow> res = Some NoRecipients \<and> tr = []" using False by simp
  qed (use stop' msg in blast)+
qed

theorem email_Send_delivers_witness:
  "email_Send (\<lambda>h x. None) (\<lambda>s. None) False demo_email (demo_alert ''r'' ''n'') =
     (None, [Dial ''mx:25'', SetDeadline, NewClient ''mx:25'', Hello, Mail ''a@b'', Rcpt ''c@d'', DataCmd,
             WriteMsg (buildMessage demo_email (demo_alert ''r'' ''n'')), CloseData, Quit]) \<and>
   email_Send (\<lambda>h x. if x = Rcpt ''c@d'' then Some ''550'' else None) (\<lambda>s. None) False demo_email (demo_alert ''r'' ''n'') =
     (Some (SendMail ''550''), [Dial ''mx:25'', SetDeadline, NewClient ''mx:25'', Hello, Mail ''a@b'', Rcpt ''c@d''])"
proof -
  let ?m = "buildMessage demo_email (demo_alert ''r'' ''n'')"
  let ?c = "[Dial ''mx:25'', SetDeadline, NewClient ''mx:25'', Hello, Mail ''a@b'', Rcpt ''c@d'', DataCmd, WriteMsg ?m, CloseData, Quit]"
  have c: "?c = [Dial (em_addr demo_email), SetDeadline,
        NewClient (case (\<lambda>s. None) (em_addr demo_email) of None \<Rightarrow> em_addr demo_email | Some h \<Rightarrow> h), Hello] @
      (if False then (case em_auth demo_email of None \<Rightarrow> [] | Some au \<Rightarrow> [Auth au]) else []) @
      [Mail (em_from demo_email)] @ map Rcpt (em_to demo_email) @ [DataCmd, WriteMsg ?m, CloseData, Quit]"
    by (simp add: demo_email_parts)
  note conv = email_Send_delivers [OF c]
  obtain r1 tr1 where 1: "email_Send (\<lambda>h x. None) (\<lambda>s. None) False demo_email (demo_alert ''r'' ''n'') = (r1, tr1)"
    by fastforce
  have to: "em_to demo_email \<noteq> []" by (simp add: demo_email_parts)
  then have "r1 = None" using conv [OF 1, THEN conjunct1] by blast
  then have ok: "r1 = None \<and> tr1 = ?c" using conv [OF 1] by blast
  let ?srv = "\<lambda>(h :: smtp_op list) x. if x = Rcpt ''c@d'' then Some ''550'' else None"
  obtain r2 tr2 where 2: "email_Send ?srv (\<lambda>s. None) False demo_email (demo_alert ''r'' ''n'') = (r2, tr2)"
    by fastforce
  have before: "\<forall>j < (5::nat). ?srv (take j ?c) (?c ! j) = None"
    by (simp add: numeral_nat All_less_Suc)
  have "em_to demo_email \<noteq> [] \<and> 5 < length ?c \<and> ?srv (take 5 ?c) (?c ! 5) = Some ''550''"
    by (simp add: demo_email_parts)
  then have "r2 = Some (SendMail ''550'') \<and> tr2 = take (Suc 5) ?c"
    using conv [OF 2] before by blast
  then show ?thesis using ok 1 2 by simp
qed

text \<open>
  The dispatcher configured from the environment is enabled exactly when a Slack webhook is set, or an
  SMTP server together with a sender and at least one recipient, blanks not counting; the e-mail channel
  never has an empty recipient.
\<close>

lemma DispatcherFromEnv_enabled:
  "(Enabled (DispatcherFromEnv pd env) \<longleftrightarrow>
      TrimSpace (env ''SENTINEL_SLACK_WEBHOOK_URL'') \<noteq> [] \<or>
      (TrimSpace (env ''SENTINEL_SMTP_ADDR'') \<noteq> [] \<and> TrimSpace (env ''SENTINEL_SMTP_FROM'') \<noteq> [] \<and>
       (\<exists>p \<in> set (Split (env ''SENTINEL_SMTP_TO'') (CHR '','')). TrimSpace p \<noteq> []))) \<and>
   (\<forall>e. Email e \<in> set (dp_notifiers (DispatcherFromEnv pd env)) \<longrightarrow> em_to e \<noteq> [] \<and> [] \<notin> set (em_to e))"
proof -
  have split: "splitAndTrim csv \<noteq> [] \<longleftrightarrow> (\<exists>p \<in> set (Split csv (CHR '','')). TrimSpace p \<noteq> [])" "[] \<notin> set (splitAndTrim csv)" for csv
    by (auto simp: splitAndTrim_def filter_empty_conv)
  show ?thesis
    unfolding DispatcherFromEnv_def Let_def NewDispatcher_def Enabled_def split(1) [symmetric]
    using split(2) by (auto simp: NewEmailNotifier_def Let_def)
qed

section \<open>One deadline for all channels\<close>

text \<open>
  What the network clients promise about a deadline: a call returns at most \<open>over\<close> after the deadline, or
  after its start when that is later, and a call made at or after the deadline fails without a connection.
\<close>

definition network_ok :: "network \<Rightarrow> duration \<Rightarrow> bool" where
  "network_ok nw over =
     (0 \<le> over \<and>
      (\<forall>deadline t url doc r t'. nw_Do nw deadline t url doc = (r, t') \<longrightarrow>
         t \<le> t' \<and> t' \<le> max t deadline + over \<and> (deadline \<le> t \<longrightarrow> isl r)) \<and>
      (\<forall>deadline t tr. t \<le> nw_smtp_end nw deadline t tr \<and> nw_smtp_end nw deadline t tr \<le> max t deadline + over) \<and>
      (\<forall>deadline t addr. deadline \<le> t \<longrightarrow> nw_smtp nw deadline t [] (Dial addr) \<noteq> None))"

lemma network_ok_Do:
  assumes "network_ok nw over" and "nw_Do nw until t url doc = (r, t')" and "until \<le> deadline"
  shows "t \<le> t'" "t' \<le> max t deadline + over" "deadline \<le> t \<Longrightarrow> isl r"
proof -
  have "t \<le> t' \<and> t' \<le> max t until + over \<and> (until \<le> t \<longrightarrow> isl r)"
    using assms(1,2) by (simp add: network_ok_def)
  then show "t \<le> t'" "t' \<le> max t deadline + over" "deadline \<le> t \<Longrightarrow> isl r" using assms(3) by auto
qed

lemma notifier_Send_time:
  assumes "network_ok nw over" and "notifier_Send nw deadline t n a = (err, t')"
  shows "t \<le> t'" and "t' \<le> max t deadline + over" and "deadline \<le> t \<Longrightarrow> err \<noteq> None"
proof -
  have over: "0 \<le> over" using assms(1) by (simp add: network_ok_def)
  have "t \<le> t' \<and> t' \<le> max t deadline + over \<and> (deadline \<le> t \<longrightarrow> err \<noteq> None)"
  proof (cases n)
    case (Slack s)
    define until where "until = (if 0 < sl_clientTimeout s then min deadline (time_add t (sl_clientTimeout s)) else deadline)"
    have u: "until \<le> deadline" by (simp add: until_def)
    obtain r u' where d: "nw_Do nw until t (sl_webhookURL s) (slackPayload_json \<lparr>sp_Text = formatSlackText a\<rparr>) = (r, u')"
      by fastforce
    show ?thesis
      using assms(2) Slack d network_ok_Do [OF assms(1) d u] over
      by (auto simp: notifier_Send_def slack_Send_def Let_def until_def [symmetric] split: option.splits sum.splits if_splits)
  next
    case (Email e)
    have "nw_smtp nw deadline t [] (Dial (em_addr e)) \<noteq> None" if "deadline \<le> t" using assms(1) that by (simp add: network_ok_def)
    moreover have "t \<le> nw_smtp_end nw deadline t tr" "nw_smtp_end nw deadline t tr \<le> max t deadline + over" for tr
      using assms(1) by (simp_all add: network_ok_def)
    ultimately show ?thesis
      using assms(2) Email over
      by (auto simp: notifier_Send_def email_Send_def sendMailContext_def smtp_script_def split: prod.splits if_splits option.splits)
  qed
  then show "t \<le> t'" and "t' \<le> max t deadline + over" and "deadline \<le> t \<Longrightarrow> err \<noteq> None" by auto
qed

lemma send_all_time:
  assumes "network_ok nw over" and "t \<le> deadline + u" and "0 \<le> u" and "i < length (send_all nw deadline t a ns)"
  shows "t \<le> snd (snd (send_all nw deadline t a ns ! i)) \<and>
    snd (snd (send_all nw deadline t a ns ! i)) \<le> deadline + u + (int i + 1) * over"
  using assms(2-4)
proof (induction ns arbitrary: t u i)
  case (Cons n ns)
  obtain err t' where s: "notifier_Send nw deadline t n a = (err, t')" by fastforce
  note T = notifier_Send_time(1,2) [OF assms(1) s]
  have over: "0 \<le> over" using assms(1) by (simp add: network_ok_def)
  have t': "t' \<le> deadline + (u + over)" using T(2) Cons.prems(1,2) by simp
  show ?case
  proof (cases i)
    case 0
    then show ?thesis using T(1) t' s by simp
  next
    case (Suc j)
    then show ?thesis using Cons.IH [OF t', of j] Cons.prems over T(1) s by (simp add: algebra_simps)
  qed
qed simp

lemma send_all_expired:
  assumes "network_ok nw over" and "deadline \<le> t" and "i < length (send_all nw deadline t a ns)"
  shows "fst (snd (send_all nw deadline t a ns ! i)) \<noteq> None"
  using assms(2,3)
proof (induction ns arbitrary: t i)
  case (Cons n ns)
  obtain err t' where s: "notifier_Send nw deadline t n a = (err, t')" by fastforce
  from Cons notifier_Send_time [OF assms(1) s] s show ?case by (cases i) auto
qed simp

lemma send_all_starved:
  assumes "network_ok nw over" and "i < j" and "j < length (send_all nw deadline t a ns)"
    and "deadline \<le> snd (snd (send_all nw deadline t a ns ! i))"
  shows "fst (snd (send_all nw deadline t a ns ! j)) \<noteq> None"
  using assms(2-4)
proof (induction ns arbitrary: t i j)
  case (Cons n ns)
  obtain err t' where s: "notifier_Send nw deadline t n a = (err, t')" by fastforce
  obtain k where k: "j = Suc k" using Cons.prems(1) by (cases j) auto
  show ?case
  proof (cases i)
    case 0
    then show ?thesis using send_all_expired [OF assms(1), of deadline t' k] Cons.prems s k by simp
  next
    case (Suc m)
    then show ?thesis using Cons.IH [of m k t'] Cons.prems s k by simp
  qed
qed simp

lemma send_all_order: "map fst (send_all nw deadline t a ns) = ns"
  by (induction ns arbitrary: t) (simp_all split: prod.splits)

text \<open>The gate of a goroutine is the one of the \<^verbatim>\<open>Dispatch\<close> it runs: both leave the same dispatcher.\<close>

lemma goroutine_gate_Dispatch:
  assumes "i < length (ns_running s)" and "ns_running s ! i = (a, AtGate)" and "Enabled (ns_disp s)"
  shows "ns_disp (goroutine_gate s i now) = snd (Dispatch nw (ns_disp s) now start a)"
  using assms(3) by (auto simp: goroutine_gate_facts(1) [OF assms(1,2)] Dispatch_def split: prod.splits bool.splits)

text \<open>
  C33: a dispatch, over a network that keeps deadlines. It tries every channel in order, whatever the others
  return, exactly when the dispatcher is enabled and the alert passes the gate, and it is over at most the
  dispatcher's timeout and one overrun per channel after it started, so that its slot is free again by then.
  The timeout is for all channels together: once a channel has used it up, every later one fails.
\<close>

theorem dispatch_one_deadline:
  assumes "network_ok nw over" and "0 \<le> dp_timeout d" and "Dispatch nw d now start a = (rs, d')"
    and "deadline = start + dp_timeout d"
  shows "map fst rs = (if Enabled d \<and> fst (shouldSend d now a) then dp_notifiers d else []) \<and>
    (\<forall>i < length rs. start \<le> snd (snd (rs ! i)) \<and> snd (snd (rs ! i)) \<le> deadline + (int i + 1) * over) \<and>
    (\<forall>i j. i < j \<and> j < length rs \<and> deadline \<le> snd (snd (rs ! i)) \<longrightarrow> fst (snd (rs ! j)) \<noteq> None)"
proof (cases "Enabled d \<and> fst (shouldSend d now a)")
  case True
  then have "rs = send_all nw deadline start a (dp_notifiers d)"
    using assms(3,4) shouldSend_frame(1,5) [of d now a] by (auto simp: Dispatch_def time_add_def split: prod.splits bool.splits)
  then show ?thesis
    using True send_all_order [of nw deadline start a "dp_notifiers d"] send_all_time [OF assms(1), of start deadline 0]
      send_all_starved [OF assms(1), of _ _ deadline start a] assms(2,4) by auto
next
  case False
  then have "rs = []" using assms(3) by (auto simp: Dispatch_def split: prod.splits bool.splits if_splits)
  then show ?thesis using False by auto
qed

text \<open>A webhook that never answers, and an SMTP server that would accept the message.\<close>

definition demo_hung :: network where
  "demo_hung = \<lparr>nw_NewRequest = (\<lambda>_. None), nw_Do = (\<lambda>until t url doc. (Inl [], max t until)),
     nw_smtp = (\<lambda>deadline t tr operation. if deadline \<le> t then Some [] else None), nw_smtp_end = (\<lambda>deadline t tr. t),
     nw_SplitHostPort = (\<lambda>_. None), nw_auth = (\<lambda>_. False)\<rparr>"

definition demo_both :: Options where
  "demo_both = demo_options\<lparr>op_Notifiers := [Slack (NewSlackNotifier ''u'' None), Email demo_email]\<rparr>"

theorem dispatch_one_deadline_witness:
  "\<exists>rs d'. Dispatch demo_hung (NewDispatcher demo_both) 5 5 (demo_alert ''r'' ''n'') = (rs, d') \<and>
    map fst rs = [Slack (NewSlackNotifier ''u'' None), Email demo_email] \<and> fst (snd (rs ! 1)) \<noteq> None \<and>
    fst (notifier_Send demo_hung (5 + 10 * second) 5 (Email demo_email) (demo_alert ''r'' ''n'')) = None"
proof -
  let ?d = "NewDispatcher demo_both" and ?a = "demo_alert ''r'' ''n''"
  obtain rs d' where r: "Dispatch demo_hung ?d 5 5 ?a = (rs, d')" by fastforce
  have ok: "network_ok demo_hung 0" by (simp add: network_ok_def demo_hung_def)
  have d: "dp_timeout ?d = 10 * second" "dp_notifiers ?d = [Slack (NewSlackNotifier ''u'' None), Email demo_email]"
    "Enabled ?d" "fst (shouldSend ?d 5 ?a)"
    by (simp_all add: NewDispatcher_def demo_both_def demo_options_def Enabled_def shouldSend_def demo_alert_def Let_def)
  have "0 \<le> dp_timeout ?d" using d by (simp add: second_def)
  note P = dispatch_one_deadline [OF ok this r refl]
  have "rs = send_all demo_hung (5 + 10 * second) 5 ?a (dp_notifiers ?d)"
    using r d shouldSend_frame(1,5) [of ?d 5 ?a] by (auto simp: Dispatch_def time_add_def split: prod.splits bool.splits)
  then have "5 + 10 * second \<le> snd (snd (rs ! 0))"
    using d by (simp add: notifier_Send_def slack_Send_def demo_hung_def NewSlackNotifier_def Let_def time_add_def second_def)
  moreover have "map fst rs = dp_notifiers ?d" using P d by simp
  moreover from this have "length rs = 2" using d by (metis length_map length_Cons list.size(3) numeral_2_eq_2)
  moreover have "fst (notifier_Send demo_hung (5 + 10 * second) 5 (Email demo_email) ?a) = None"
    by (simp add: notifier_Send_def email_Send_def sendMailContext_def smtp_script_def demo_hung_def demo_email_def
        NewEmailNotifier_def second_def)
  ultimately show ?thesis using P r d by (intro exI [of _ rs] exI [of _ d']) auto
qed

end
