(* ===== verification/Metrics.thy ===== *)
theory Metrics
  imports Go_Prelude
begin

text \<open>
  \<^verbatim>\<open>internal/otel/metrics.go\<close>: the three counters of the collector, as the counts per attribute set that
  the OpenTelemetry counters accumulate. Creating the instruments and serving them to Prometheus is the
  library's work; a failure to create one is an argument of the constructor.
\<close>

record MetricsProvider =
  mp_events :: "(string \<times> string, int) gomap"
  mp_alerts :: "(string \<times> string \<times> string, int) gomap"
  mp_store_write_failures :: "(string, int) gomap"

text \<open>\<open>errs\<close> are the errors of the exporter and of the three instruments, in the order of the calls.\<close>

definition NewMetricsProvider :: "string option list \<Rightarrow> string + MetricsProvider" where
  "NewMetricsProvider errs =
     (case find (\<lambda>e. e \<noteq> None) errs of
        Some (Some err) \<Rightarrow> Inl err
      | _ \<Rightarrow> Inr \<lparr>mp_events = [], mp_alerts = [], mp_store_write_failures = []\<rparr>)"

definition RecordEvent :: "MetricsProvider \<Rightarrow> string \<Rightarrow> string \<Rightarrow> MetricsProvider" where
  "RecordEvent mp eventType nodeID = mp\<lparr>mp_events := gm_incr (eventType, nodeID) (mp_events mp)\<rparr>"

definition RecordAlert :: "MetricsProvider \<Rightarrow> string \<Rightarrow> string \<Rightarrow> string \<Rightarrow> MetricsProvider" where
  "RecordAlert mp ruleID severity nodeID =
     mp\<lparr>mp_alerts := gm_incr (ruleID, severity, nodeID) (mp_alerts mp)\<rparr>"

definition RecordStoreWriteFailure :: "MetricsProvider \<Rightarrow> string \<Rightarrow> MetricsProvider" where
  "RecordStoreWriteFailure mp kind =
     mp\<lparr>mp_store_write_failures := gm_incr kind (mp_store_write_failures mp)\<rparr>"

end
