(* ===== verification/Traces.thy ===== *)
theory Traces
  imports StoreTypes
begin

text \<open>
  \<^verbatim>\<open>internal/otel/traces.go\<close>: the provider of distributed traces, and the one kind of span the collector makes,
  that of the evaluation of an event (\<^verbatim>\<open>internal/receiver/grpc.go\<close>). A tracer keeps the spans that have
  ended, for the exporter to send; without an endpoint it is the global one, which drops them. Creating the
  exporter and shutting the provider down are the library's work, and arguments; shutting down takes a
  context, of which only whether it has ended matters. A span here keeps all its events; the library's span
  keeps the last 128 unless configured otherwise.
\<close>

record span =
  sp_name :: string
  sp_attributes :: "(string \<times> string) list"
  sp_events :: "(string \<times> (string \<times> string) list) list"

record Tracer =
  tr_exports :: bool
  tr_ended :: "span list"

record TracesProvider =
  tp_tracer :: Tracer
  tp_closer :: "bool \<Rightarrow> string option"

definition NewTracesProvider ::
  "(string \<Rightarrow> string option) \<Rightarrow> (bool \<Rightarrow> string option) \<Rightarrow> string \<Rightarrow> string + TracesProvider" where
  "NewTracesProvider otlp shutdown otelEndpoint =
     (if otelEndpoint = [] then Inr \<lparr>tp_tracer = \<lparr>tr_exports = False, tr_ended = []\<rparr>, tp_closer = (\<lambda>ctx_done. None)\<rparr>
      else case otlp otelEndpoint of
        Some err \<Rightarrow> Inl err
      | None \<Rightarrow> Inr \<lparr>tp_tracer = \<lparr>tr_exports = True, tr_ended = []\<rparr>, tp_closer = shutdown\<rparr>)"

definition traces_Close :: "TracesProvider \<Rightarrow> bool \<Rightarrow> string option" where
  "traces_Close tp ctx_done = tp_closer tp ctx_done"

text \<open>The span of an evaluation: \<^verbatim>\<open>Start\<close> with its attributes, an event for each alert, and \<^verbatim>\<open>End\<close>.\<close>

definition evaluation_span :: "Event \<Rightarrow> span" where
  "evaluation_span e = \<lparr>sp_name = ''evaluate_alerts'',
     sp_attributes = [(''event.id'', ev_EventID e), (''event.type'', ev_Type e), (''node.id'', ev_NodeID e)], sp_events = []\<rparr>"

definition alert_triggered :: "span \<Rightarrow> Alert \<Rightarrow> span" where
  "alert_triggered sp a = sp\<lparr>sp_events := sp_events sp @
     [(''alert_triggered'', [(''rule.id'', al_RuleID a), (''severity'', al_Severity a), (''message'', al_Message a)])]\<rparr>"

definition span_End :: "span \<Rightarrow> Tracer \<Rightarrow> Tracer" where
  "span_End sp tr = (if tr_exports tr then tr\<lparr>tr_ended := tr_ended tr @ [sp]\<rparr> else tr)"

end
