(* ===== verification/RateLimit.thy ===== *)
theory RateLimit
  imports Go_Time
begin

text \<open>
  The token bucket of \<^verbatim>\<open>internal/receiver/grpc.go\<close> that limits the events of one stream. Its numbers are
  \<^verbatim>\<open>float64\<close>: they are rationals here, and every operation is followed by the rounding function \<open>rnd\<close>, an
  argument. (On processors where the compiler fuses a multiplication with an addition one of these roundings
  falls away; the model is that of the processors where it does not, like amd64.) Shown: over any sequence of calls the bucket admits no more events than its burst, plus
  its rate times the time that has passed, plus what rounding can add, which is bounded per call.
\<close>

section \<open>Model\<close>

definition streamEventsRateLimit :: rat where "streamEventsRateLimit = 2000"
definition streamEventsRateBurst :: rat where "streamEventsRateBurst = 4000"

record tokenBucket =
  tb_tokens :: rat
  tb_max :: rat
  tb_rate :: rat
  tb_last :: time

definition newTokenBucket :: "rat \<Rightarrow> rat \<Rightarrow> time \<Rightarrow> tokenBucket" where
  "newTokenBucket ratePerSec burst now =
     \<lparr>tb_tokens = burst, tb_max = burst, tb_rate = ratePerSec, tb_last = now\<rparr>"

text \<open>\<^verbatim>\<open>Duration.Seconds\<close>: the whole seconds plus the remaining nanoseconds over \<^verbatim>\<open>1e9\<close>.\<close>

definition dur_seconds :: "(rat \<Rightarrow> rat) \<Rightarrow> duration \<Rightarrow> rat" where
  "dur_seconds rnd d =
     (let sec = trunc_div d second; nsec = d - sec * second
      in rnd (of_int sec + rnd (of_int nsec / 1000000000)))"

definition allow :: "(rat \<Rightarrow> rat) \<Rightarrow> tokenBucket \<Rightarrow> time \<Rightarrow> bool \<times> tokenBucket" where
  "allow rnd b now =
     (let t = rnd (tb_tokens b + rnd (dur_seconds rnd (time_sub now (tb_last b)) * tb_rate b));
          t' = (if t > tb_max b then tb_max b else t);
          b' = b\<lparr>tb_tokens := t', tb_last := now\<rparr>
      in if t' < 1 then (False, b') else (True, b'\<lparr>tb_tokens := rnd (t' - 1)\<rparr>))"

text \<open>The number of events admitted by a sequence of calls at the given instants.\<close>

fun admitted :: "(rat \<Rightarrow> rat) \<Rightarrow> tokenBucket \<Rightarrow> time list \<Rightarrow> nat" where
  "admitted rnd b [] = 0"
| "admitted rnd b (now # ts) =
     (case allow rnd b now of (ok, b') \<Rightarrow> (if ok then 1 else 0) + admitted rnd b' ts)"

section \<open>The bound\<close>

text \<open>
  A rounding that keeps the sign and adds at most \<open>eps\<close> to numbers up to 10000. Rounding to the nearest
  \<^verbatim>\<open>float64\<close> is one, with \<open>eps = 2 ^ -40\<close>.
\<close>

definition rounding_ok :: "(rat \<Rightarrow> rat) \<Rightarrow> rat \<Rightarrow> bool" where
  "rounding_ok rnd eps =
     (0 \<le> eps \<and> eps \<le> 1 / 1000 \<and> (\<forall>x. 0 \<le> x \<longrightarrow> 0 \<le> rnd x) \<and> (\<forall>x. 0 \<le> x \<and> x \<le> 10000 \<longrightarrow> rnd x \<le> x + eps))"

definition bucket_ok :: "tokenBucket \<Rightarrow> bool" where
  "bucket_ok b = (tb_rate b = 2000 \<and> tb_max b = 4000 \<and> 0 \<le> tb_tokens b \<and> tb_tokens b \<le> 4000)"

lemma dur_seconds_bounds:
  assumes "rounding_ok rnd eps" and "0 \<le> d"
  shows "0 \<le> dur_seconds rnd d"
    and "(of_int d :: rat) \<le> 2 * 10 ^ 9 \<Longrightarrow> dur_seconds rnd d \<le> of_int d / 10 ^ 9 + 2 * eps"
proof -
  note R = assms(1) [unfolded rounding_ok_def]
  let ?s = "d div second" and ?n = "d mod second"
  have sec: "trunc_div d second = ?s" "d - ?s * second = ?n" "0 \<le> ?n" "?n < second" "0 \<le> ?s"
    using assms(2) by (auto simp: trunc_div_def second_def minus_div_mult_eq_mod)
  have n: "0 \<le> (of_int ?n :: rat) / 1000000000" "(of_int ?n :: rat) / 1000000000 \<le> 1"
    using sec by (auto simp: second_def divide_le_eq)
  have d: "(of_int d :: rat) / 10 ^ 9 = of_int ?s + of_int ?n / 1000000000"
  proof -
    have "(of_int d :: rat) = of_int (?s * second + ?n)" by (simp only: div_mult_mod_eq)
    also have "\<dots> = of_int ?s * 1000000000 + of_int ?n"
      unfolding of_int_add of_int_mult by (simp add: second_def)
    finally show ?thesis by (simp add: add_divide_distrib)
  qed
  have r0: "0 \<le> rnd (of_int ?n / 1000000000)" using R n by auto
  have rn: "rnd (of_int ?n / 1000000000) \<le> of_int ?n / 1000000000 + eps" using R n by auto
  have eq: "dur_seconds rnd d = rnd (of_int ?s + rnd (of_int ?n / 1000000000))"
    unfolding dur_seconds_def Let_def sec(1,2) ..
  have arg: "0 \<le> (of_int ?s :: rat) + rnd (of_int ?n / 1000000000)" using sec(5) r0 by simp
  then show "0 \<le> dur_seconds rnd d" unfolding eq using R by auto
  assume b: "(of_int d :: rat) \<le> 2 * 10 ^ 9"
  have "(of_int ?s :: rat) + rnd (of_int ?n / 1000000000) \<le> of_int d / 10 ^ 9 + eps" unfolding d using rn by linarith
  moreover have "(of_int d :: rat) / 10 ^ 9 \<le> 2" using b by (simp add: divide_le_eq)
  ultimately have "(of_int ?s :: rat) + rnd (of_int ?n / 1000000000) \<le> 10000" using R by linarith
  then have "dur_seconds rnd d \<le> (of_int ?s + rnd (of_int ?n / 1000000000)) + eps" unfolding eq using R arg by blast
  with rn show "dur_seconds rnd d \<le> of_int d / 10 ^ 9 + 2 * eps" unfolding d by linarith
qed

text \<open>What one call adds to the bucket, the event it admits included.\<close>

text \<open>The tokens after a refill over the duration \<open>d\<close>, before one is taken.\<close>

definition refilled :: "(rat \<Rightarrow> rat) \<Rightarrow> tokenBucket \<Rightarrow> duration \<Rightarrow> rat" where
  "refilled rnd b d = (let t = rnd (tb_tokens b + rnd (dur_seconds rnd d * tb_rate b)) in if t > tb_max b then tb_max b else t)"

lemma allow_refilled:
  "allow rnd b now = (let t = refilled rnd b (time_sub now (tb_last b))
     in if t < 1 then (False, b\<lparr>tb_tokens := t, tb_last := now\<rparr>)
        else (True, b\<lparr>tb_tokens := rnd (t - 1), tb_last := now\<rparr>))"
  by (simp add: allow_def refilled_def Let_def)

lemma refilled_bounds:
  assumes "rounding_ok rnd eps" and "bucket_ok b" and "0 \<le> d"
  shows "0 \<le> refilled rnd b d" "refilled rnd b d \<le> 4000"
    and "refilled rnd b d \<le> tb_tokens b + 2000 * (of_int d / 10 ^ 9) + 4002 * eps"
proof -
  note R = assms(1) [unfolded rounding_ok_def] and K = assms(2) [unfolded bucket_ok_def]
  define inc where "inc = rnd (dur_seconds rnd d * tb_rate b)"
  define t where "t = rnd (tb_tokens b + inc)"
  have r: "refilled rnd b d = (if t > tb_max b then tb_max b else t)" by (simp add: refilled_def t_def inc_def Let_def)
  have s0: "0 \<le> dur_seconds rnd d" using dur_seconds_bounds(1) [OF assms(1,3)] .
  then have inc0: "0 \<le> inc" using R K by (simp add: inc_def)
  then have "0 \<le> t" using R K by (simp add: t_def)
  then show b0: "0 \<le> refilled rnd b d" and b1: "refilled rnd b d \<le> 4000" using K by (auto simp: r)
  show "refilled rnd b d \<le> tb_tokens b + 2000 * (of_int d / 10 ^ 9) + 4002 * eps"
  proof (cases "(of_int d :: rat) \<le> 2 * 10 ^ 9")
    case False
    then have "2 \<le> (of_int d :: rat) / 10 ^ 9" by (simp add: le_divide_eq)
    then show ?thesis using b1 K R by linarith
  next
    case True
    then have s: "dur_seconds rnd d \<le> of_int d / 10 ^ 9 + 2 * eps" using dur_seconds_bounds(2) [OF assms(1,3)] by simp
    have two: "(of_int d :: rat) / 10 ^ 9 \<le> 2" using True by (simp add: divide_le_eq)
    have "dur_seconds rnd d * tb_rate b \<le> 10000" using s two R K by simp
    then have "inc \<le> dur_seconds rnd d * tb_rate b + eps" using R s0 K by (simp add: inc_def)
    then have i: "inc \<le> 2000 * (of_int d / 10 ^ 9) + 4001 * eps" using s K by simp
    then have "tb_tokens b + inc \<le> 10000" using two K R by linarith
    then have "t \<le> tb_tokens b + inc + eps" using R K inc0 by (simp add: t_def)
    then have "t \<le> tb_tokens b + 2000 * (of_int d / 10 ^ 9) + 4002 * eps" using i by linarith
    moreover have "refilled rnd b d \<le> t" by (simp add: r)
    ultimately show ?thesis by linarith
  qed
qed

lemma allow_step:
  assumes "rounding_ok rnd eps" and "bucket_ok b" and "tb_last b \<le> now" and "allow rnd b now = (ok, b')"
  shows "bucket_ok b' \<and> tb_last b' = now \<and>
    tb_tokens b' + (if ok then 1 else 0) \<le> tb_tokens b + 2000 * (of_int (now - tb_last b) / 10 ^ 9) + 4003 * eps"
proof -
  note R = assms(1) [unfolded rounding_ok_def] and K = assms(2) [unfolded bucket_ok_def]
  define d where "d = time_sub now (tb_last b)"
  have d: "0 \<le> d" "d \<le> now - tb_last b"
    using assms(3) by (auto simp: d_def time_sub_def int64_min_def int64_max_def)
  define t where "t = refilled rnd b d"
  note t = refilled_bounds [OF assms(1,2) d(1), folded t_def]
  have "(of_int d :: rat) / 10 ^ 9 \<le> of_int (now - tb_last b) / 10 ^ 9"
    using d(2) by (intro divide_right_mono) (simp_all only: of_int_le_iff, simp)
  then have main: "t + eps \<le> tb_tokens b + 2000 * (of_int (now - tb_last b) / 10 ^ 9) + 4003 * eps" using t(3) by linarith
  have b': "(ok, b') = (if t < 1 then (False, b\<lparr>tb_tokens := t, tb_last := now\<rparr>)
      else (True, b\<lparr>tb_tokens := rnd (t - 1), tb_last := now\<rparr>))"
    using assms(4) by (auto simp: allow_refilled t_def d_def Let_def split: if_splits)
  show ?thesis
  proof (cases "t < 1")
    case True
    have "t \<le> tb_tokens b + 2000 * (of_int (now - tb_last b) / 10 ^ 9) + 4003 * eps" using main R by linarith
    then show ?thesis using True b' t K by (simp add: bucket_ok_def)
  next
    case False
    have r: "0 \<le> rnd (t - 1)" "rnd (t - 1) \<le> t - 1 + eps" using R False t(2) by auto
    then have "rnd (t - 1) + 1 \<le> tb_tokens b + 2000 * (of_int (now - tb_last b) / 10 ^ 9) + 4003 * eps" using main by linarith
    moreover have "rnd (t - 1) \<le> 4000" using r(2) t(2) R by linarith
    ultimately show ?thesis using False b' r(1) K by (simp add: bucket_ok_def)
  qed
qed

lemma admitted_bound:
  assumes "rounding_ok rnd eps" and "bucket_ok b" and "sorted (tb_last b # ts)"
  shows "of_nat (admitted rnd b ts) \<le> tb_tokens b +
    2000 * (of_int (last (tb_last b # ts) - tb_last b) / 10 ^ 9) + of_nat (length ts) * (4003 * eps)"
  using assms(2,3)
proof (induction ts arbitrary: b)
  case Nil
  then show ?case by (simp add: bucket_ok_def)
next
  case (Cons now ts)
  obtain ok b' where a: "allow rnd b now = (ok, b')" by (cases "allow rnd b now")
  have le: "tb_last b \<le> now" using Cons.prems(2) by simp
  define k :: rat where "k = (if ok then 1 else 0)"
  note S = allow_step [OF assms(1) Cons.prems(1) le a, folded k_def]
  have IH: "of_nat (admitted rnd b' ts) \<le> tb_tokens b' +
      2000 * (of_int (last (now # ts) - now) / 10 ^ 9) + of_nat (length ts) * (4003 * eps)"
    using Cons.IH [of b'] S Cons.prems(2) by auto
  have split: "(of_int (last (now # ts) - tb_last b) :: rat) / 10 ^ 9 =
      of_int (last (now # ts) - now) / 10 ^ 9 + of_int (now - tb_last b) / 10 ^ 9"
    unfolding add_divide_distrib [symmetric] of_int_add [symmetric] by simp
  have l: "last (tb_last b # now # ts) = last (now # ts)" by simp
  have n: "(of_nat (length (now # ts)) :: rat) * (4003 * eps) = 4003 * eps + of_nat (length ts) * (4003 * eps)"
    by (simp add: distrib_right)
  have c: "(of_nat (admitted rnd b (now # ts)) :: rat) = k + of_nat (admitted rnd b' ts)"
    by (simp add: a k_def)
  define x y z :: rat where "x = of_int (last (now # ts) - now) / 10 ^ 9" and "y = of_int (now - tb_last b) / 10 ^ 9"
    and "z = of_nat (length ts) * (4003 * eps)"
  define w :: rat where "w = of_nat (admitted rnd b' ts)"
  have sum: "k + w \<le> tb_tokens b + 2000 * (x + y) + (4003 * eps + z)"
    if "tb_tokens b' + k \<le> tb_tokens b + 2000 * y + 4003 * eps" "w \<le> tb_tokens b' + 2000 * x + z"
    using add_mono [OF that] by (simp add: algebra_simps)
  show ?case
    unfolding l split n c
    using S [THEN conjunct2, THEN conjunct2] IH unfolding x_def [symmetric] y_def [symmetric] z_def [symmetric] w_def [symmetric]
    by (rule sum)
qed

section \<open>Properties\<close>

text \<open>
  The rate limit of a stream: of any sequence of \<open>n\<close> messages on a stream, arriving in order from the
  creation of its bucket at \<open>start\<close> on, at most 4000 are admitted plus 2000 for every second that has passed,
  plus a rounding error that stays below \<open>4003 * eps\<close> per message.
\<close>

lemma stream_rate_bounded:
  assumes "rounding_ok rnd eps" and "sorted (start # ts)"
  shows "of_nat (admitted rnd (newTokenBucket streamEventsRateLimit streamEventsRateBurst start) ts) \<le>
    4000 + 2000 * (of_int (last (start # ts) - start) / 10 ^ 9) + of_nat (length ts) * (4003 * eps)"
  using admitted_bound [of rnd eps "newTokenBucket streamEventsRateLimit streamEventsRateBurst start" ts] assms
  by (simp add: newTokenBucket_def streamEventsRateLimit_def streamEventsRateBurst_def bucket_ok_def)

end
