(* ===== verification/Validation.thy ===== *)
theory Validation
  imports StoreTypes
begin

text \<open>
  The messages of the gRPC service (\<^verbatim>\<open>proto/sentinel.proto\<close>, as the generated structs hold them) and
  the validation \<^verbatim>\<open>internal/receiver/grpc.go\<close> applies to them, with the normalised form an event is stored
  in. \<^verbatim>\<open>net.ParseIP\<close> is an argument: whether a string is an IP address.

  Shown: the character test is a test of the bytes; whatever event passes validation, every string of
  what is stored is short, printable ASCII, and the stored event can be encoded.
\<close>

section \<open>Messages\<close>

record ExecEvent =
  ex_Pid :: "32 word"
  ex_Ppid :: "32 word"
  ex_Comm :: string
  ex_Cmdline :: string
  ex_Cwd :: string
  ex_Uid :: "32 word"

record TcpEvent =
  tc_Pid :: "32 word"
  tc_Comm :: string
  tc_SrcIp :: string
  tc_SrcPort :: "32 word"
  tc_DstIp :: string
  tc_DstPort :: "32 word"
  tc_Direction :: string

record FileEvent =
  fi_Pid :: "32 word"
  fi_Comm :: string
  fi_Path :: string
  fi_Op :: string
  fi_Ret :: "32 word"

text \<open>The \<^verbatim>\<open>oneof\<close> of an event, or nothing; the getters of the generated code are the projections.\<close>

datatype payload = NoPayload | ExecPayload ExecEvent | TcpPayload TcpEvent | FilePayload FileEvent

record KernelEvent =
  ke_EventId :: string
  ke_NodeId :: string
  ke_Timestamp :: "64 word"
  ke_Type :: "32 word"
  ke_Payload :: payload

record RegisterRequest =
  rr_NodeId :: string
  rr_Hostname :: string
  rr_Ip :: string
  rr_Version :: string
  rr_Region :: string

definition EventType_EXEC :: "32 word" where "EventType_EXEC = 0"
definition EventType_TCP :: "32 word" where "EventType_TCP = 1"
definition EventType_FILE :: "32 word" where "EventType_FILE = 2"

section \<open>Validation\<close>

definition maxRegisterFieldLength :: nat where "maxRegisterFieldLength = 256"

definition isPrintableASCII :: "string \<Rightarrow> bool" where
  "isPrintableASCII s = list_all (\<lambda>r. \<not> (r < 0x20 \<or> r > 0x7e)) (runes (map of_char s))"

fun validateFields :: "(string \<times> string) list \<Rightarrow> string option" where
  "validateFields [] = None"
| "validateFields ((name, v) # fs) =
     (if length v > maxRegisterFieldLength
      then Some (name @ '' exceeds max length of '' @ fmt_int (int maxRegisterFieldLength) @ '' bytes'')
      else if \<not> isPrintableASCII v then Some (name @ '' must contain only printable ASCII characters'')
      else validateFields fs)"

definition validateIP :: "(string \<Rightarrow> bool) \<Rightarrow> string \<Rightarrow> string \<Rightarrow> string option" where
  "validateIP is_ip name v =
     (if v = [] then None
      else if length v > maxRegisterFieldLength
      then Some (name @ '' exceeds max length of '' @ fmt_int (int maxRegisterFieldLength) @ '' bytes'')
      else if \<not> is_ip v then Some (name @ '' is not a valid IP address'')
      else None)"

definition validateRegisterRequest :: "(string \<Rightarrow> bool) \<Rightarrow> RegisterRequest \<Rightarrow> string option" where
  "validateRegisterRequest is_ip req =
     (case validateFields [(''node_id'', rr_NodeId req), (''hostname'', rr_Hostname req),
        (''version'', rr_Version req), (''region'', rr_Region req)] of
        Some err \<Rightarrow> Some err
      | None \<Rightarrow> validateIP is_ip ''ip'' (rr_Ip req))"

definition validateKernelEvent :: "(string \<Rightarrow> bool) \<Rightarrow> KernelEvent \<Rightarrow> string option" where
  "validateKernelEvent is_ip e =
     (let fs = [(''node_id'', ke_NodeId e), (''event_id'', ke_EventId e)] in
      if ke_Type e = EventType_EXEC then
        (case ke_Payload e of
           ExecPayload x \<Rightarrow> validateFields (fs @
             [(''comm'', ex_Comm x), (''cmdline'', ex_Cmdline x), (''cwd'', ex_Cwd x)])
         | _ \<Rightarrow> validateFields fs)
      else if ke_Type e = EventType_TCP then
        (case ke_Payload e of
           TcpPayload t \<Rightarrow>
             (case validateFields (fs @ [(''comm'', tc_Comm t), (''direction'', tc_Direction t)]) of
                Some err \<Rightarrow> Some err
              | None \<Rightarrow> (case validateIP is_ip ''src_ip'' (tc_SrcIp t) of
                  Some err \<Rightarrow> Some err
                | None \<Rightarrow> validateIP is_ip ''dst_ip'' (tc_DstIp t)))
         | _ \<Rightarrow> validateFields fs)
      else if ke_Type e = EventType_FILE then
        (case ke_Payload e of
           FilePayload f \<Rightarrow> validateFields (fs @
             [(''comm'', fi_Comm f), (''path'', fi_Path f), (''op'', fi_Op f)])
         | _ \<Rightarrow> validateFields fs)
      else validateFields fs)"

section \<open>Normalisation\<close>

text \<open>The JSON of the generated structs: every member is omitted when it is zero or empty.\<close>

definition exec_json :: "ExecEvent \<Rightarrow> json" where
  "exec_json x = JObj (omit_num ''pid'' (uint (ex_Pid x)) @ omit_num ''ppid'' (uint (ex_Ppid x)) @
     omit_str ''comm'' (ex_Comm x) @ omit_str ''cmdline'' (ex_Cmdline x) @ omit_str ''cwd'' (ex_Cwd x) @
     omit_num ''uid'' (uint (ex_Uid x)))"

definition tcp_json :: "TcpEvent \<Rightarrow> json" where
  "tcp_json t = JObj (omit_num ''pid'' (uint (tc_Pid t)) @ omit_str ''comm'' (tc_Comm t) @
     omit_str ''src_ip'' (tc_SrcIp t) @ omit_num ''src_port'' (uint (tc_SrcPort t)) @
     omit_str ''dst_ip'' (tc_DstIp t) @ omit_num ''dst_port'' (uint (tc_DstPort t)) @
     omit_str ''direction'' (tc_Direction t))"

definition file_json :: "FileEvent \<Rightarrow> json" where
  "file_json f = JObj (omit_num ''pid'' (uint (fi_Pid f)) @ omit_str ''comm'' (fi_Comm f) @
     omit_str ''path'' (fi_Path f) @ omit_str ''op'' (fi_Op f) @ omit_num ''ret'' (sint (fi_Ret f)))"

definition eventTypeName :: "KernelEvent \<Rightarrow> string" where
  "eventTypeName e =
     (if ke_Type e = EventType_EXEC then ''exec''
      else if ke_Type e = EventType_TCP then ''tcp''
      else if ke_Type e = EventType_FILE then ''file''
      else ''unknown('' @ fmt_int (sint (ke_Type e)) @ '')'')"

text \<open>A payload of another kind than the event's type is not stored: the nil value encodes as \<^verbatim>\<open>null\<close>.\<close>

definition eventPayload :: "KernelEvent \<Rightarrow> json" where
  "eventPayload e =
     (if ke_Type e = EventType_EXEC then (case ke_Payload e of ExecPayload x \<Rightarrow> exec_json x | _ \<Rightarrow> JNull)
      else if ke_Type e = EventType_TCP then (case ke_Payload e of TcpPayload t \<Rightarrow> tcp_json t | _ \<Rightarrow> JNull)
      else if ke_Type e = EventType_FILE then (case ke_Payload e of FilePayload f \<Rightarrow> file_json f | _ \<Rightarrow> JNull)
      else JNull)"

definition stored_event :: "KernelEvent \<Rightarrow> Event" where
  "stored_event e =
     \<lparr>ev_EventID = ke_EventId e, ev_NodeID = ke_NodeId e, ev_Timestamp = time_unix0 (sint (ke_Timestamp e)),
      ev_Type = eventTypeName e, ev_Payload = eventPayload e\<rparr>"

section \<open>Facts\<close>

definition printable :: "string \<Rightarrow> bool" where
  "printable s = (\<forall>c \<in> set s. 0x20 \<le> (of_char c :: nat) \<and> (of_char c :: nat) \<le> 0x7e)"

definition field_ok :: "string \<Rightarrow> bool" where
  "field_ok s = (length s \<le> 256 \<and> printable s)"

lemma isPrintableASCII_iff: "isPrintableASCII s \<longleftrightarrow> printable s"
  using runes_ascii_range [of "0x7e" "map of_char s" "0x20"]
  by (simp add: isPrintableASCII_def printable_def list_all_iff not_less)

lemma validateFields_None: "validateFields fs = None \<longleftrightarrow> (\<forall>(name, v) \<in> set fs. field_ok v)"
  by (induction fs rule: validateFields.induct)
    (auto simp: field_ok_def isPrintableASCII_iff maxRegisterFieldLength_def)

declare validateFields.simps [simp del]

text \<open>What the receiver relies on of \<^verbatim>\<open>net.ParseIP\<close>: an address consists of hexadecimal digits, dots and colons.\<close>

definition ip_charset :: "(string \<Rightarrow> bool) \<Rightarrow> bool" where
  "ip_charset is_ip = (\<forall>s. is_ip s \<longrightarrow> set s \<subseteq> set ''0123456789abcdefABCDEF.:'')"

lemma validateIP_None: "ip_charset is_ip \<Longrightarrow> validateIP is_ip name v = None \<Longrightarrow> field_ok v"
  by (fastforce simp: validateIP_def field_ok_def ip_charset_def printable_def maxRegisterFieldLength_def split: if_splits)

fun json_strings :: "json \<Rightarrow> string list" where
  "json_strings (JStr s) = [s]"
| "json_strings (JArr xs) = concat (map json_strings xs)"
| "json_strings (JObj ms) = concat (map (\<lambda>(_, v). json_strings v) ms)"
| "json_strings _ = []"

lemma json_strings_omit [simp]:
  "concat (map (\<lambda>(_, v). json_strings v) (omit_num k n)) = []"
  "concat (map (\<lambda>(_, v). json_strings v) (omit_str k s)) = (if s = [] then [] else [s])"
  by (simp_all add: omit_num_def omit_str_def)

lemma fmt_int_chars: "c \<in> set (fmt_int i) \<Longrightarrow> is_digit c \<or> c = CHR ''-''"
  using fmt_dec_digits [of i] fmt_dec_digits [of "- i"] by (auto simp: fmt_int_def list_all_iff split: if_splits)

lemma digits10: "0 \<le> n \<Longrightarrow> n < 10 ^ 10 \<Longrightarrow> length (fmt_dec n) \<le> 10"
  using fmt_dec_length [of n 9] by simp

lemma eventTypeName_ok: "field_ok (eventTypeName e)"
proof -
  have p: "printable (fmt_int i)" for i
    using fmt_int_chars [of _ i] by (fastforce simp: printable_def is_digit_def)
  have l: "length (fmt_int (sint (w :: 32 word))) \<le> 11" for w
  proof -
    have "- (2 ^ 31) \<le> sint w" "sint w < 2 ^ 31" using sint_ge [of w] sint_lt [of w] by simp_all
    then show ?thesis using digits10 [of "- sint w"] digits10 [of "sint w"] by (auto simp: fmt_int_def)
  qed
  show ?thesis
    using p [of "sint (ke_Type e)"] l [of "ke_Type e"] by (auto simp: eventTypeName_def field_ok_def printable_def)
qed

lemma int64_time_ok: "json_time_ok (time_unix0 (sint (w :: 64 word)))"
proof -
  have "- (2 ^ 63) \<le> sint w" "sint w < 2 ^ 63" using sint_ge [of w] sint_lt [of w] by simp_all
  then show ?thesis by (simp add: json_time_ok_def time_unix0_def second_def year_9999_end_def)
qed

lemma stored_event_marshals: "\<exists>j. marshal_event (stored_event e) = Some j"
  by (simp add: marshal_event_def stored_event_def int64_time_ok)

lemma eventPayload_cases:
  "eventPayload e = JNull \<or>
   (\<exists>x. ke_Type e = EventType_EXEC \<and> ke_Payload e = ExecPayload x \<and> eventPayload e = exec_json x) \<or>
   (\<exists>t. ke_Type e = EventType_TCP \<and> ke_Payload e = TcpPayload t \<and> eventPayload e = tcp_json t) \<or>
   (\<exists>f. ke_Type e = EventType_FILE \<and> ke_Payload e = FilePayload f \<and> eventPayload e = file_json f)"
  by (cases "ke_Payload e") (simp_all add: eventPayload_def)

lemma validated_fields:
  assumes "ip_charset is_ip" and "validateKernelEvent is_ip e = None"
  shows "field_ok (ke_NodeId e) \<and> field_ok (ke_EventId e) \<and> (\<forall>s \<in> set (json_strings (eventPayload e)). field_ok s)"
proof -
  have ids: "field_ok (ke_NodeId e) \<and> field_ok (ke_EventId e)"
    using assms(2) by (auto simp: validateKernelEvent_def Let_def validateFields_None split: if_splits payload.splits option.splits)
  consider (ce) x where "ke_Type e = EventType_EXEC" "ke_Payload e = ExecPayload x"
    | (ct) t where "ke_Type e = EventType_TCP" "ke_Payload e = TcpPayload t"
    | (cf) f where "ke_Type e = EventType_FILE" "ke_Payload e = FilePayload f"
    | (cn) "eventPayload e = JNull"
    using eventPayload_cases [of e] by blast
  then have "\<forall>s \<in> set (json_strings (eventPayload e)). field_ok s"
  proof cases
    case ce
    then show ?thesis using assms(2)
      by (auto simp: validateKernelEvent_def validateFields_None eventPayload_def exec_json_def EventType_EXEC_def)
  next
    case ct
    then have "validateFields [(''comm'', tc_Comm t), (''direction'', tc_Direction t)] = None"
      "validateIP is_ip ''src_ip'' (tc_SrcIp t) = None" "validateIP is_ip ''dst_ip'' (tc_DstIp t) = None"
      using assms(2)
      by (auto simp: validateFields_None validateKernelEvent_def Let_def EventType_EXEC_def EventType_TCP_def split: if_splits option.splits)
    with ct show ?thesis using validateIP_None [OF assms(1)]
      by (auto simp: validateFields_None eventPayload_def tcp_json_def EventType_EXEC_def EventType_TCP_def split: if_splits)
  next
    case cf
    then show ?thesis using assms(2)
      by (auto simp: validateKernelEvent_def validateFields_None eventPayload_def file_json_def EventType_EXEC_def
          EventType_TCP_def EventType_FILE_def split: if_splits)
  next
    case cn
    then show ?thesis by simp
  qed
  with ids show ?thesis by blast
qed

section \<open>Properties\<close>

text \<open>
  C10: nothing unvalidated reaches the database: when an event passes \<^verbatim>\<open>validateKernelEvent\<close>, its id, its
  node id, its type name and every string of the stored payload have at most 256 bytes, all of them
  printable ASCII, whatever kind of payload came with whatever type; and the stored event can always be
  encoded.
\<close>

theorem validated_event_is_clean:
  assumes "ip_charset is_ip" and "validateKernelEvent is_ip e = None"
  shows "(\<forall>s \<in> {ev_EventID (stored_event e), ev_NodeID (stored_event e), ev_Type (stored_event e)} \<union>
       set (json_strings (ev_Payload (stored_event e))).
      length s \<le> 256 \<and> (\<forall>c \<in> set s. 0x20 \<le> (of_char c :: nat) \<and> (of_char c :: nat) \<le> 0x7e)) \<and>
    (\<exists>j. marshal_event (stored_event e) = Some j)"
  using validated_fields [OF assms] eventTypeName_ok [of e] stored_event_marshals [of e]
  by (auto simp: stored_event_def field_ok_def printable_def)

definition demo_kernel_event :: "string \<Rightarrow> string \<Rightarrow> KernelEvent" where
  "demo_kernel_event n i = \<lparr>ke_EventId = i, ke_NodeId = n, ke_Timestamp = 5, ke_Type = EventType_EXEC,
     ke_Payload = ExecPayload \<lparr>ex_Pid = 7, ex_Ppid = 1, ex_Comm = ''bash'', ex_Cmdline = [], ex_Cwd = ''/'', ex_Uid = 0\<rparr>\<rparr>"

lemma demo_kernel_event_valid: "validateKernelEvent (\<lambda>s. False) (demo_kernel_event ''n'' ''i'') = None"
  by (simp add: validateKernelEvent_def demo_kernel_event_def EventType_EXEC_def validateFields_None field_ok_def
      printable_def)

theorem validated_event_is_clean_witness:
  "ip_charset (\<lambda>s. False) \<and> validateKernelEvent (\<lambda>s. False) (demo_kernel_event ''n'' ''i'') = None \<and>
   (\<exists>j. marshal_event (stored_event (demo_kernel_event ''n'' ''i'')) = Some j)"
  using validated_event_is_clean [of "\<lambda>s. False" "demo_kernel_event ''n'' ''i''"] demo_kernel_event_valid
  by (simp add: ip_charset_def)

end
