(* ===== verification/Receiver.thy ===== *)
theory Receiver
  imports AgentTokens Registry Anomaly Alerting Notify Metrics Traces RateLimit Validation
begin

text \<open>
  The gRPC service of \<^verbatim>\<open>internal/receiver/grpc.go\<close>: authentication, \<^verbatim>\<open>Register\<close>, and the loop of
  \<^verbatim>\<open>StreamEvents\<close> over the messages of one stream, with everything it calls (registry, store, metrics,
  alert engine, anomaly detector, tracer, notifier). The state the handlers share is the record \<^verbatim>\<open>server\<close>.
  What one iteration of the loop reads from outside (the message, the clocks, the outcomes of the races
  with the store's contexts, fresh ids, the result of sending the acknowledgement) is the record
  \<^verbatim>\<open>iteration\<close>; a stream is a list of them. The gRPC library, the metadata of a call and the peer's address
  are arguments.

  The calls of a handler on the shared state are also given as a step relation (\<^verbatim>\<open>event_step\<close>), of which the
  handlers are sequences. Shown: who passes authentication; that a rejected message has no effect; that an
  authenticated stream acts for its own node only; that an acknowledged event has been stored; how many
  messages a stream can get acknowledged; what \<^verbatim>\<open>Register\<close> does.
\<close>

section \<open>Model\<close>

record 'db server =
  sv_st :: "'db Store"
  sv_reg :: registry
  sv_engine :: "Engine option"
  sv_detector :: "Detector option"
  sv_notifier :: notify_state
  sv_metrics :: "MetricsProvider option"
  sv_tracer :: Tracer
  sv_defaultRegion :: string

subsection \<open>Authentication\<close>

datatype grpc_error = Unauthenticated string | Internal string

text \<open>\<open>md\<close>: the values of the \<^verbatim>\<open>authorization\<close> metadata of the call, if the call has metadata at all.\<close>

definition checkAuth ::
  "hash_fn \<Rightarrow> 'db badger \<Rightarrow> 'db Store \<Rightarrow> time \<Rightarrow> race \<Rightarrow> bool \<Rightarrow> string list option \<Rightarrow> grpc_error + string" where
  "checkAuth sha256 B st t who authEnabled md =
     (if \<not> authEnabled then Inr []
      else case md of
        None \<Rightarrow> Inl (Unauthenticated ''missing metadata'')
      | Some [] \<Rightarrow> Inl (Unauthenticated ''missing authorization metadata'')
      | Some (v # vs) \<Rightarrow> (case CutPrefix v ''Bearer '' of
          None \<Rightarrow> Inl (Unauthenticated ''invalid token'')
        | Some got \<Rightarrow> (case LookupNodeID sha256 B st t who got of
            Inl err \<Rightarrow> Inl (Internal ''auth lookup failed'')
          | Inr (nodeID, ok) \<Rightarrow> if \<not> ok then Inl (Unauthenticated ''invalid token'') else Inr nodeID)))"

text \<open>
  Both interceptors run a handler with the node id in its context. The value of the context under the key of
  the id is an option; the handler is a function of the id it reads from the context, and the server.
\<close>

definition authedNodeIDFromContext :: "string option \<Rightarrow> string" where
  [simp]: "authedNodeIDFromContext ctx = (case ctx of None \<Rightarrow> [] | Some nodeID \<Rightarrow> nodeID)"

definition authInterceptor ::
  "hash_fn \<Rightarrow> 'db badger \<Rightarrow> time \<Rightarrow> race \<Rightarrow> bool \<Rightarrow> string list option \<Rightarrow> (string \<Rightarrow> 'db server \<Rightarrow> 'r \<times> 'db server)
    \<Rightarrow> 'db server \<Rightarrow> (grpc_error + 'r) \<times> 'db server" where
  "authInterceptor sha256 B t who authEnabled md handler sv =
     (case checkAuth sha256 B (sv_st sv) t who authEnabled md of
        Inl err \<Rightarrow> (Inl err, sv)
      | Inr nodeID \<Rightarrow> (case handler (authedNodeIDFromContext (Some nodeID)) sv of (r, sv') \<Rightarrow> (Inr r, sv')))"

subsection \<open>Register\<close>

definition peerIP :: "(string \<Rightarrow> string option) \<Rightarrow> string option \<Rightarrow> string" where
  "peerIP split_host peer =
     (case peer of
        None \<Rightarrow> []
      | Some addr \<Rightarrow> (case split_host addr of None \<Rightarrow> addr | Some host \<Rightarrow> host))"

definition receiver_Register ::
  "(string \<Rightarrow> bool) \<Rightarrow> (string \<Rightarrow> string option) \<Rightarrow> time \<Rightarrow> string option \<Rightarrow> RegisterRequest \<Rightarrow> string \<Rightarrow> 'db server
    \<Rightarrow> (bool \<times> string) \<times> 'db server" where
  "receiver_Register is_ip split_host now peer req authed sv =
     (case validateRegisterRequest is_ip req of
        Some err \<Rightarrow> ((False, err), sv)
      | None \<Rightarrow>
          if authed \<noteq> [] \<and> rr_NodeId req \<noteq> authed
          then ((False, ''node_id does not match authenticated identity''), sv)
          else
            let region = (if rr_Region req = [] then sv_defaultRegion sv else rr_Region req) in
            case registry_Register (sv_reg sv) now (rr_NodeId req) (rr_Hostname req) (peerIP split_host peer)
                   (rr_Version req) region of
              Inl err \<Rightarrow> ((False, err), sv)
            | Inr reg \<Rightarrow> ((True, ''registered''), sv\<lparr>sv_reg := reg\<rparr>))"

subsection \<open>Processing an event\<close>

datatype recv = EOF | RecvErr string | Msg KernelEvent

record iteration =
  it_done :: "string option"
  it_recv :: recv
  it_allow :: time
  it_heartbeat :: time
  it_received :: time
  it_save :: "time \<times> race"
  it_engine :: "nat \<Rightarrow> string \<times> time"
  it_detector :: "string \<times> time"
  it_alert :: "nat \<Rightarrow> time \<times> race"
  it_send :: "string option"

definition with_metrics :: "(MetricsProvider \<Rightarrow> MetricsProvider) \<Rightarrow> 'db server \<Rightarrow> 'db server" where
  "with_metrics f sv = sv\<lparr>sv_metrics := map_option f (sv_metrics sv)\<rparr>"

definition evaluate_alerts :: "env \<Rightarrow> iteration \<Rightarrow> Event \<Rightarrow> 'db server \<Rightarrow> Alert list \<times> 'db server" where
  "evaluate_alerts E it e sv =
     (let rule_alerts = (case sv_engine sv of None \<Rightarrow> []
        | Some engine \<Rightarrow> Evaluate E engine (\<lambda>n. fst (it_engine it n)) (\<lambda>n. snd (it_engine it n)) e)
      in case sv_detector sv of
        None \<Rightarrow> (rule_alerts, sv)
      | Some d \<Rightarrow> (case Record d (snd (it_detector it)) (fst (it_detector it)) e of
          (anomaly_alerts, d') \<Rightarrow> (rule_alerts @ anomaly_alerts, sv\<lparr>sv_detector := Some d'\<rparr>)))"

text \<open>The body of the loop over the alerts, and the loop.\<close>

definition alert_body :: "'db badger \<Rightarrow> time \<times> race \<Rightarrow> Alert \<Rightarrow> 'db server \<Rightarrow> store_error option \<times> 'db server" where
  "alert_body B w a sv =
     (case SaveAlert B (sv_st sv) (fst w) (snd w) a of
        (err, st') \<Rightarrow>
          let sv1 = sv\<lparr>sv_st := st'\<rparr>;
              sv2 = (if err \<noteq> None then with_metrics (\<lambda>mp. RecordStoreWriteFailure mp ''alert'') sv1 else sv1);
              sv3 = with_metrics (\<lambda>mp. RecordAlert mp (al_RuleID a) (al_Severity a) (al_NodeID a)) sv2
          in (err, sv3\<lparr>sv_notifier := DispatchAsync (sv_notifier sv3) a\<rparr>))"

fun alert_loop :: "'db badger \<Rightarrow> iteration \<Rightarrow> nat \<Rightarrow> bool \<Rightarrow> 'db server \<Rightarrow> Alert list \<Rightarrow> bool \<times> 'db server" where
  "alert_loop B it i saveOk sv [] = (saveOk, sv)"
| "alert_loop B it i saveOk sv (a # alerts) =
     (case alert_body B (it_alert it i) a sv of
        (err, sv') \<Rightarrow> alert_loop B it (Suc i) (saveOk \<and> err = None) sv' alerts)"

text \<open>
  The whole handling of a valid event. The span of the evaluation is local to the handler until it ends, so its
  events are added after the loop.
\<close>

definition process_event :: "env \<Rightarrow> 'db badger \<Rightarrow> iteration \<Rightarrow> KernelEvent \<Rightarrow> 'db server \<Rightarrow> bool \<times> 'db server" where
  "process_event E B it event sv =
     (let sv1 = sv\<lparr>sv_reg := Heartbeat (sv_reg sv) (it_heartbeat it) (ke_NodeId event)\<rparr>;
          e = stored_event event
      in case SaveEvent B (sv_st sv1) (it_received it) (fst (it_save it)) (snd (it_save it)) e of
        (err, st') \<Rightarrow>
          let sv2 = sv1\<lparr>sv_st := st'\<rparr>;
              sv3 = (if err \<noteq> None then with_metrics (\<lambda>mp. RecordStoreWriteFailure mp ''event'') sv2 else sv2);
              sv4 = with_metrics (\<lambda>mp. RecordEvent mp (ev_Type e) (ev_NodeID e)) sv3
          in case evaluate_alerts E it e sv4 of
            (alerts, sv5) \<Rightarrow> (case alert_loop B it 0 (err = None) sv5 alerts of
              (saveOk, sv6) \<Rightarrow>
                (saveOk, if sv_engine sv4 \<noteq> None \<or> sv_detector sv4 \<noteq> None
                   then sv6\<lparr>sv_tracer := span_End (foldl alert_triggered (evaluation_span e) alerts) (sv_tracer sv6)\<rparr> else sv6)))"

subsection \<open>The stream\<close>

text \<open>
  An iteration ends the handler with a result (an error, or none at the end of the stream) or goes on.
  It acknowledges at most one message; \<open>throttled\<close> counts the messages over the rate limit.
\<close>

datatype outcome = Return "string option" | Continue

record 'db stream =
  sm_server :: "'db server"
  sm_limiter :: tokenBucket
  sm_throttled :: "64 word"

definition send_ack :: "iteration \<Rightarrow> bool \<Rightarrow> 'db stream \<Rightarrow> outcome \<times> bool option \<times> 'db stream" where
  "send_ack it ok s = (case it_send it of Some err \<Rightarrow> (Return (Some err), Some ok, s) | None \<Rightarrow> (Continue, Some ok, s))"

definition stream_iteration ::
  "(rat \<Rightarrow> rat) \<Rightarrow> (string \<Rightarrow> bool) \<Rightarrow> env \<Rightarrow> 'db badger \<Rightarrow> string \<Rightarrow> iteration \<Rightarrow> 'db stream \<Rightarrow> outcome \<times> bool option \<times> 'db stream" where
  "stream_iteration rnd is_ip E B authed it s =
     (case it_done it of
        Some err \<Rightarrow> (Return (Some err), None, s)
      | None \<Rightarrow> (case it_recv it of
          EOF \<Rightarrow> (Return None, None, s)
        | RecvErr err \<Rightarrow> (Return (Some err), None, s)
        | Msg event \<Rightarrow> (case allow rnd (sm_limiter s) (it_allow it) of
            (ok, limiter) \<Rightarrow>
              let s1 = s\<lparr>sm_limiter := limiter\<rparr> in
              if \<not> ok then send_ack it False (s1\<lparr>sm_throttled := sm_throttled s + 1\<rparr>)
              else if validateKernelEvent is_ip event \<noteq> None then send_ack it False s1
              else if authed \<noteq> [] \<and> ke_NodeId event \<noteq> authed then send_ack it False s1
              else (case process_event E B it event (sm_server s1) of
                (saveOk, sv') \<Rightarrow> send_ack it saveOk (s1\<lparr>sm_server := sv'\<rparr>)))))"

text \<open>When the list ends the handler is waiting for the next message.\<close>

fun stream_loop ::
  "(rat \<Rightarrow> rat) \<Rightarrow> (string \<Rightarrow> bool) \<Rightarrow> env \<Rightarrow> 'db badger \<Rightarrow> string \<Rightarrow> bool list \<Rightarrow> 'db stream \<Rightarrow> iteration list
    \<Rightarrow> outcome \<times> bool list \<times> 'db stream" where
  "stream_loop rnd is_ip E B authed acks s [] = (Continue, acks, s)"
| "stream_loop rnd is_ip E B authed acks s (it # its) =
     (case stream_iteration rnd is_ip E B authed it s of
        (res, ack, s') \<Rightarrow>
          let acks' = acks @ (case ack of None \<Rightarrow> [] | Some b \<Rightarrow> [b])
          in case res of Return r \<Rightarrow> (Return r, acks', s')
             | Continue \<Rightarrow> stream_loop rnd is_ip E B authed acks' s' its)"

definition StreamEvents ::
  "(rat \<Rightarrow> rat) \<Rightarrow> (string \<Rightarrow> bool) \<Rightarrow> env \<Rightarrow> 'db badger \<Rightarrow> time \<Rightarrow> iteration list \<Rightarrow> string \<Rightarrow> 'db server
    \<Rightarrow> (outcome \<times> bool list) \<times> 'db server" where
  "StreamEvents rnd is_ip E B start its authed sv =
     (case stream_loop rnd is_ip E B authed []
             \<lparr>sm_server = sv, sm_limiter = newTokenBucket streamEventsRateLimit streamEventsRateBurst start, sm_throttled = 0\<rparr> its of
        (res, acks, s) \<Rightarrow> ((res, acks), sm_server s))"

subsection \<open>Serving and stopping\<close>

text \<open>
  The set-up of \<^verbatim>\<open>Serve\<close>: the listener and, when both files are given, the TLS credentials can fail; the
  result is the options the gRPC server is created with.
\<close>

definition maxConcurrentStreams :: "32 word" where "maxConcurrentStreams = 256"
definition maxRecvMsgSize :: int where "maxRecvMsgSize = 4 * 1024 * 1024"
definition grpcShutdownGracePeriod :: duration where "grpcShutdownGracePeriod = 10 * second"
definition storeOpTimeout :: duration where "storeOpTimeout = 5 * second"

datatype serve_error = ListenError string | TLSError string | ServeFailed string

text \<open>
  How serving ends: the gRPC server returns without an error, with the one that says it was stopped, which
  counts as none, or with another.
\<close>

datatype grpc_exit = GrpcNil | ErrServerStopped | GrpcFailed string

definition serve_result :: "grpc_exit \<Rightarrow> serve_error option" where
  "serve_result e = (case e of GrpcFailed err \<Rightarrow> Some (ServeFailed err) | _ \<Rightarrow> None)"

record server_options =
  so_creds :: bool
  so_MaxConcurrentStreams :: "32 word"
  so_MaxRecvMsgSize :: int
  so_MinTime :: duration
  so_PermitWithoutStream :: bool

definition server_opts :: "bool \<Rightarrow> server_options" where
  "server_opts creds = \<lparr>so_creds = creds, so_MaxConcurrentStreams = maxConcurrentStreams, so_MaxRecvMsgSize = maxRecvMsgSize,
     so_MinTime = 10 * second, so_PermitWithoutStream = True\<rparr>"

definition serve_setup ::
  "string option \<Rightarrow> (string \<Rightarrow> string \<Rightarrow> string option) \<Rightarrow> string \<Rightarrow> string \<Rightarrow> serve_error + server_options" where
  "serve_setup listen_err load_tls tlsCertFile tlsKeyFile =
     (case listen_err of
        Some err \<Rightarrow> Inl (ListenError err)
      | None \<Rightarrow>
          if tlsCertFile \<noteq> [] \<and> tlsKeyFile \<noteq> [] then
            (case load_tls tlsCertFile tlsKeyFile of Some err \<Rightarrow> Inl (TLSError err) | None \<Rightarrow> Inr (server_opts True))
          else Inr (server_opts False))"

text \<open>
  \<^verbatim>\<open>gracefulStopWithTimeout\<close>: \<open>graceful\<close> is how long \<^verbatim>\<open>GracefulStop\<close> would take, if it returns at all. The
  result is how long the call takes and whether the server was stopped by force.
\<close>

definition gracefulStopWithTimeout :: "duration option \<Rightarrow> duration \<Rightarrow> duration \<times> bool" where
  "gracefulStopWithTimeout graceful gracePeriod =
     (case graceful of
        Some d \<Rightarrow> if d < gracePeriod then (d, False) else (gracePeriod, True)
      | None \<Rightarrow> (gracePeriod, True))"

text \<open>
  \<^verbatim>\<open>Serve\<close> once it is set up: it blocks until the gRPC server ends by itself, or the context is done; then the
  server is stopped, and returns without an error when that is over. The result is the error returned, how
  long stopping took and whether the server was stopped by force.
\<close>

datatype serve_end = ServerEnded grpc_exit | StopSignal "duration option"

definition serve_until :: "serve_end \<Rightarrow> serve_error option \<times> duration \<times> bool" where
  "serve_until e =
     (case e of
        ServerEnded x \<Rightarrow> (serve_result x, 0, False)
      | StopSignal graceful \<Rightarrow> (serve_result GrpcNil, gracefulStopWithTimeout graceful grpcShutdownGracePeriod))"

section \<open>The steps of a stream\<close>

text \<open>
  The calls a handler makes on the shared state for an event of node \<open>n\<close>. Each call is atomic by the lock
  of the component it goes to; between two of them other goroutines run. The relation is restricted to the
  writes whose keys are in \<open>K\<close>; without the restriction it is \<^verbatim>\<open>event_step\<close>.
\<close>

inductive event_step_on :: "string set \<Rightarrow> 'db badger \<Rightarrow> string \<Rightarrow> 'db server \<Rightarrow> 'db server \<Rightarrow> bool" for K B n where
  heartbeat: "event_step_on K B n sv (sv\<lparr>sv_reg := Heartbeat (sv_reg sv) t n\<rparr>)"
| save_event: "event_key received e \<in> K \<Longrightarrow> ev_NodeID e = n \<Longrightarrow> clock_ok received \<Longrightarrow>
    SaveEvent B (sv_st sv) received t who e = (err, st') \<Longrightarrow>
    event_step_on K B n sv (sv\<lparr>sv_st := st'\<rparr>)"
| save_alert: "alert_key a \<in> K \<Longrightarrow> al_NodeID a = n \<Longrightarrow> clock_ok (al_Timestamp a) \<Longrightarrow>
    SaveAlert B (sv_st sv) t who a = (err, st') \<Longrightarrow>
    event_step_on K B n sv (sv\<lparr>sv_st := st'\<rparr>)"
| detect: "sv_detector sv = Some d \<Longrightarrow> ev_NodeID e = n \<Longrightarrow> Record d t uuid e = (alerts, d') \<Longrightarrow>
    event_step_on K B n sv (sv\<lparr>sv_detector := Some d'\<rparr>)"
| metrics: "event_step_on K B n sv (with_metrics f sv)"
| trace: "event_step_on K B n sv (sv\<lparr>sv_tracer := span_End sp (sv_tracer sv)\<rparr>)"
| dispatch: "al_NodeID a = n \<Longrightarrow> event_step_on K B n sv (sv\<lparr>sv_notifier := DispatchAsync (sv_notifier sv) a\<rparr>)"

abbreviation event_step :: "'db badger \<Rightarrow> string \<Rightarrow> 'db server \<Rightarrow> 'db server \<Rightarrow> bool" where
  "event_step \<equiv> event_step_on UNIV"

lemma event_step_on_mono: "event_step_on K B n sv sv' \<Longrightarrow> K \<subseteq> L \<Longrightarrow> event_step_on L B n sv sv'"
  by (induction rule: event_step_on.induct) (auto intro: event_step_on.intros)

text \<open>The keys an iteration can write: that of its message, and those of alerts with the ids and instants drawn for it.\<close>

definition stamps :: "iteration \<Rightarrow> (string \<times> time) set" where
  "stamps it = insert (it_detector it) (range (it_engine it))"

definition written :: "iteration \<Rightarrow> string set" where
  "written it = {alert_key a | a. (al_AlertID a, al_Timestamp a) \<in> stamps it} \<union>
     {event_key (it_received it) (stored_event event) | event. it_recv it = Msg event}"

definition writes_in :: "string set \<Rightarrow> iteration \<Rightarrow> bool" where
  "writes_in K it = (written it \<subseteq> K)"

lemma writes_in_UNIV [simp]: "writes_in UNIV it"
  by (simp add: writes_in_def)

definition clocks_ok :: "iteration \<Rightarrow> bool" where
  "clocks_ok it = (clock_ok (it_received it) \<and> (\<forall>i. clock_ok (snd (it_engine it i))) \<and> clock_ok (snd (it_detector it)))"

lemma breach_loop_alert:
  "a \<in> set (breach_loop d uuid now e ws) \<Longrightarrow>
    al_NodeID a = ev_NodeID e \<and> al_EventID a = ev_EventID e \<and> (al_AlertID a, al_Timestamp a) = (uuid, now)"
  by (induction ws) (auto simp: Let_def anomaly_alert_def split: if_splits)

lemma Evaluate_alert:
  "a \<in> set (Evaluate E engine uuid clock e) \<Longrightarrow>
    al_NodeID a = ev_NodeID e \<and> al_EventID a = ev_EventID e \<and> (\<exists>i. (al_AlertID a, al_Timestamp a) = (uuid i, clock i))"
  by (auto simp: Evaluate_def evaluate_rules_spec alert_for_def)

lemma evaluate_alerts_cases:
  assumes "evaluate_alerts E it e sv = (alerts, sv')"
  shows "(sv_detector sv = None \<and> sv' = sv) \<or>
    (\<exists>d d' as. sv_detector sv = Some d \<and> Record d (snd (it_detector it)) (fst (it_detector it)) e = (as, d') \<and>
      sv' = sv\<lparr>sv_detector := Some d'\<rparr>)"
  using assms by (auto simp: evaluate_alerts_def Let_def split: option.splits prod.splits)

lemma evaluate_alerts_steps:
  assumes "evaluate_alerts E it e sv = (alerts, sv')"
  shows "(event_step_on K B (ev_NodeID e))\<^sup>*\<^sup>* sv sv'"
  using evaluate_alerts_cases [OF assms] by (auto intro: r_into_rtranclp event_step_on.detect)

lemma evaluate_alerts_of_event:
  assumes "evaluate_alerts E it e sv = (alerts, sv')" and "a \<in> set alerts"
  shows "al_NodeID a = ev_NodeID e" and "(al_AlertID a, al_Timestamp a) \<in> stamps it"
proof -
  have "(\<exists>engine. a \<in> set (Evaluate E engine (\<lambda>n. fst (it_engine it n)) (\<lambda>n. snd (it_engine it n)) e)) \<or>
      (\<exists>d. a \<in> set (breach_loop d (fst (it_detector it)) (snd (it_detector it)) e (dt_windows d)))"
    using assms by (auto simp: evaluate_alerts_def Let_def Record_def split: option.splits prod.splits)
  then show "al_NodeID a = ev_NodeID e" "(al_AlertID a, al_Timestamp a) \<in> stamps it"
    unfolding stamps_def by (auto dest!: Evaluate_alert breach_loop_alert)
qed

lemma clocks_ok_stamp: "clocks_ok it \<Longrightarrow> (u, t) \<in> stamps it \<Longrightarrow> clock_ok t"
  unfolding clocks_ok_def stamps_def by (metis insertE rangeE snd_conv)

lemma alert_body_steps:
  assumes "alert_body B w a sv = (err, sv')" and "alert_key a \<in> K" and "al_NodeID a = n" and "clock_ok (al_Timestamp a)"
  shows "(event_step_on K B n)\<^sup>*\<^sup>* sv sv'"
proof -
  obtain st' where s: "SaveAlert B (sv_st sv) (fst w) (snd w) a = (err, st')"
    using assms(1) by (auto simp: alert_body_def Let_def split: prod.splits)
  let ?sv1 = "sv\<lparr>sv_st := st'\<rparr>"
  let ?sv2 = "if err \<noteq> None then with_metrics (\<lambda>mp. RecordStoreWriteFailure mp ''alert'') ?sv1 else ?sv1"
  let ?sv3 = "with_metrics (\<lambda>mp. RecordAlert mp (al_RuleID a) (al_Severity a) (al_NodeID a)) ?sv2"
  have "event_step_on K B n sv ?sv1" using assms(2-4) s by (rule event_step_on.save_alert)
  also have "(event_step_on K B n)\<^sup>*\<^sup>* ?sv1 ?sv2" by (simp add: event_step_on.metrics r_into_rtranclp)
  also have "event_step_on K B n ?sv2 ?sv3" by (rule event_step_on.metrics)
  also have "event_step_on K B n ?sv3 (?sv3\<lparr>sv_notifier := DispatchAsync (sv_notifier ?sv3) a\<rparr>)"
    using assms(3) by (rule event_step_on.dispatch)
  finally show ?thesis using assms(1) s by (simp add: alert_body_def Let_def)
qed

lemma alert_loop_steps:
  assumes "alert_loop B it i ok sv alerts = (ok', sv')"
    and "\<And>a. a \<in> set alerts \<Longrightarrow> al_NodeID a = n \<and> clock_ok (al_Timestamp a) \<and> alert_key a \<in> K"
  shows "(event_step_on K B n)\<^sup>*\<^sup>* sv sv'"
  using assms
proof (induction alerts arbitrary: i ok sv)
  case (Cons a alerts)
  obtain err sv1 where b: "alert_body B (it_alert it i) a sv = (err, sv1)" by fastforce
  have "(event_step_on K B n)\<^sup>*\<^sup>* sv sv1" using alert_body_steps [OF b] Cons.prems(2) by simp
  also have "(event_step_on K B n)\<^sup>*\<^sup>* sv1 sv'" using Cons.IH [of "Suc i"] Cons.prems b by simp
  finally show ?case .
qed simp

lemma process_event_steps:
  assumes "process_event E B it event sv = (ok, sv')" and "clocks_ok it" and "writes_in K it" and "it_recv it = Msg event"
  shows "(event_step_on K B (ke_NodeId event))\<^sup>*\<^sup>* sv sv'"
proof -
  let ?n = "ke_NodeId event" and ?e = "stored_event event"
  let ?sv1 = "sv\<lparr>sv_reg := Heartbeat (sv_reg sv) (it_heartbeat it) ?n\<rparr>"
  have n: "ev_NodeID ?e = ?n" by (simp add: stored_event_def)
  obtain err st' where s: "SaveEvent B (sv_st ?sv1) (it_received it) (fst (it_save it)) (snd (it_save it)) ?e = (err, st')"
    by fastforce
  let ?sv2 = "?sv1\<lparr>sv_st := st'\<rparr>"
  let ?sv3 = "if err \<noteq> None then with_metrics (\<lambda>mp. RecordStoreWriteFailure mp ''event'') ?sv2 else ?sv2"
  let ?sv4 = "with_metrics (\<lambda>mp. RecordEvent mp (ev_Type ?e) (ev_NodeID ?e)) ?sv3"
  obtain alerts sv5 where a: "evaluate_alerts E it ?e ?sv4 = (alerts, sv5)" by fastforce
  obtain sv6 where l: "alert_loop B it 0 (err = None) sv5 alerts = (ok, sv6)"
    and t: "sv' = sv6 \<or> sv' = sv6\<lparr>sv_tracer := span_End (foldl alert_triggered (evaluation_span ?e) alerts) (sv_tracer sv6)\<rparr>"
    using assms(1) s a by (auto simp: process_event_def Let_def split: prod.splits if_splits)
  have s1: "event_step_on K B ?n sv ?sv1" by (rule event_step_on.heartbeat)
  have s2: "event_step_on K B ?n ?sv1 ?sv2"
    using n assms(2-4) by (intro event_step_on.save_event [OF _ _ _ s]) (auto simp: clocks_ok_def writes_in_def written_def)
  have s3: "(event_step_on K B ?n)\<^sup>*\<^sup>* ?sv2 ?sv3" by (simp add: event_step_on.metrics r_into_rtranclp)
  have s4: "event_step_on K B ?n ?sv3 ?sv4" by (rule event_step_on.metrics)
  have s5: "(event_step_on K B ?n)\<^sup>*\<^sup>* ?sv4 sv5" using evaluate_alerts_steps [OF a] n by simp
  have s7: "(event_step_on K B ?n)\<^sup>*\<^sup>* sv6 sv'" using t by (auto intro: r_into_rtranclp event_step_on.trace)
  have s6: "(event_step_on K B ?n)\<^sup>*\<^sup>* sv5 sv6"
  proof (rule alert_loop_steps [OF l])
    fix x assume x: "x \<in> set alerts"
    note e = evaluate_alerts_of_event [OF a x]
    show "al_NodeID x = ?n \<and> clock_ok (al_Timestamp x) \<and> alert_key x \<in> K"
      using e(1) n clocks_ok_stamp [OF assms(2) e(2)] e(2) assms(3) by (auto simp: writes_in_def written_def)
  qed
  show ?thesis
    by (rule converse_rtranclp_into_rtranclp [OF s1 converse_rtranclp_into_rtranclp [OF s2
        rtranclp_trans [OF s3 converse_rtranclp_into_rtranclp [OF s4 rtranclp_trans [OF s5 rtranclp_trans [OF s6 s7]]]]]])
qed

text \<open>A step of a stream whose authenticated identity is \<open>authed\<close>; the empty identity stands for any node.\<close>

definition stream_step_on :: "string set \<Rightarrow> 'db badger \<Rightarrow> string \<Rightarrow> 'db server \<Rightarrow> 'db server \<Rightarrow> bool" where
  "stream_step_on K B authed sv sv' = (\<exists>n. (authed \<noteq> [] \<longrightarrow> n = authed) \<and> event_step_on K B n sv sv')"

abbreviation stream_step :: "'db badger \<Rightarrow> string \<Rightarrow> 'db server \<Rightarrow> 'db server \<Rightarrow> bool" where
  "stream_step \<equiv> stream_step_on UNIV"

lemma event_steps_stream:
  assumes "(event_step_on K B n)\<^sup>*\<^sup>* sv sv'" and "authed \<noteq> [] \<longrightarrow> n = authed"
  shows "(stream_step_on K B authed)\<^sup>*\<^sup>* sv sv'"
  using assms(1)
  by (rule rtranclp_mono [THEN predicate2D, rotated]) (use assms(2) in \<open>auto simp: stream_step_on_def\<close>)

lemma send_ack_iff:
  "send_ack it ok s = (res, ack, s') \<longleftrightarrow>
    s' = s \<and> ack = Some ok \<and> res = (case it_send it of None \<Rightarrow> Continue | Some err \<Rightarrow> Return (Some err))"
  by (auto simp: send_ack_def split: option.splits)

text \<open>The message an iteration gets past the limiter, the validation and the identity check.\<close>

definition accepted_event ::
  "(rat \<Rightarrow> rat) \<Rightarrow> (string \<Rightarrow> bool) \<Rightarrow> string \<Rightarrow> iteration \<Rightarrow> tokenBucket \<Rightarrow> KernelEvent option" where
  "accepted_event rnd is_ip authed it b =
     (case (it_done it, it_recv it) of
        (None, Msg event) \<Rightarrow>
          if fst (allow rnd b (it_allow it)) \<and> validateKernelEvent is_ip event = None \<and> (authed = [] \<or> ke_NodeId event = authed)
          then Some event else None
      | _ \<Rightarrow> None)"

lemma stream_iteration_cases:
  assumes "stream_iteration rnd is_ip E B authed it s = (res, ack, s')"
  shows "(accepted_event rnd is_ip authed it (sm_limiter s) = None \<and> sm_server s' = sm_server s \<and> ack \<in> {None, Some False}) \<or>
    (\<exists>event saveOk. accepted_event rnd is_ip authed it (sm_limiter s) = Some event \<and> ack = Some saveOk \<and>
       process_event E B it event (sm_server s) = (saveOk, sm_server s'))"
  using assms
  by (cases "it_done it"; cases "it_recv it"; cases "allow rnd (sm_limiter s) (it_allow it)")
    (auto simp: stream_iteration_def accepted_event_def Let_def send_ack_iff split: prod.splits if_splits)

lemma accepted_event_SomeD:
  assumes "accepted_event rnd is_ip authed it b = Some event"
  shows "it_done it = None" "it_recv it = Msg event" "validateKernelEvent is_ip event = None"
    "authed \<noteq> [] \<longrightarrow> ke_NodeId event = authed"
  using assms by (auto simp: accepted_event_def split: option.splits recv.splits if_splits)

lemma stream_iteration_steps:
  assumes "stream_iteration rnd is_ip E B authed it s = (res, ack, s')" and "clocks_ok it" and "writes_in K it"
  shows "(stream_step_on K B authed)\<^sup>*\<^sup>* (sm_server s) (sm_server s')"
  using stream_iteration_cases [OF assms(1)] assms(2,3)
  by (auto intro: event_steps_stream dest: process_event_steps accepted_event_SomeD)

lemma stream_loop_steps:
  assumes "stream_loop rnd is_ip E B authed acks s its = (res, acks', s')" and "\<forall>it \<in> set its. clocks_ok it \<and> writes_in K it"
  shows "(stream_step_on K B authed)\<^sup>*\<^sup>* (sm_server s) (sm_server s')"
  using assms
proof (induction its arbitrary: acks s)
  case (Cons it its)
  obtain r ack s1 where i: "stream_iteration rnd is_ip E B authed it s = (r, ack, s1)" by (metis prod_cases3)
  have "(stream_step_on K B authed)\<^sup>*\<^sup>* (sm_server s) (sm_server s1)" using stream_iteration_steps [OF i] Cons.prems(2) by simp
  also have "(stream_step_on K B authed)\<^sup>*\<^sup>* (sm_server s1) (sm_server s')"
    using Cons i by (auto simp: Let_def split: outcome.splits)
  finally show ?case .
qed simp

lemma StreamEvents_steps:
  assumes "StreamEvents rnd is_ip E B start its authed sv = (r, sv')" and "\<forall>it \<in> set its. clocks_ok it \<and> writes_in K it"
  shows "(stream_step_on K B authed)\<^sup>*\<^sup>* sv sv'"
  using assms stream_loop_steps [of rnd is_ip E B authed "[]"]
  by (fastforce simp: StreamEvents_def split: prod.splits)

section \<open>Isolation\<close>

text \<open>A database entry that is an event or an alert of node \<open>n\<close>.\<close>

definition node_entry :: "string \<Rightarrow> string \<Rightarrow> json \<Rightarrow> bool" where
  "node_entry n k j =
     (HasPrefix k eventPrefix \<and> (\<exists>e. unmarshal_event j = Some e \<and> ev_NodeID e = n) \<or>
      HasPrefix k alertPrefix \<and> (\<exists>a. unmarshal_alert j = Some a \<and> al_NodeID a = n))"

definition detector_of :: "'db server \<Rightarrow> windowKey \<Rightarrow> time list" where
  "detector_of sv key = (case sv_detector sv of None \<Rightarrow> [] | Some d \<Rightarrow> timestamps_of d key)"

text \<open>
  What changes from one state to the next concerns node \<open>n\<close> only: its registry entry, its windows, and
  its own events and alerts among the entries of the database and the pending writes.
\<close>

definition acts_for ::
  "('db \<Rightarrow> time \<Rightarrow> (string \<times> json) list) \<Rightarrow> string \<Rightarrow> 'db server \<Rightarrow> 'db server \<Rightarrow> bool" where
  "acts_for content n sv sv' =
     ((\<forall>m. m \<noteq> n \<longrightarrow> gm_get (nodes (sv_reg sv')) m = gm_get (nodes (sv_reg sv)) m) \<and>
      (\<forall>key. wk_NodeID key \<noteq> n \<longrightarrow> detector_of sv' key = detector_of sv key) \<and>
      (\<forall>t. token_of (content (st_db (sv_st sv')) t) = token_of (content (st_db (sv_st sv)) t)) \<and>
      (\<forall>t k j. map_of (content (st_db (sv_st sv')) t) k = Some j \<longrightarrow>
         map_of (content (st_db (sv_st sv)) t) k = Some j \<or> node_entry n k j) \<and>
      (\<forall>(k, j, ttl) \<in> set (st_pending (sv_st sv')). (k, j, ttl) \<in> set (st_pending (sv_st sv)) \<or> node_entry n k j))"

lemma acts_for_refl: "acts_for content n sv sv"
  by (auto simp: acts_for_def)

lemma acts_for_trans: "acts_for content n sv1 sv2 \<Longrightarrow> acts_for content n sv2 sv3 \<Longrightarrow> acts_for content n sv1 sv3"
  unfolding acts_for_def by (fastforce split: prod.splits)

lemma with_metrics_frame [simp]:
  "sv_st (with_metrics f sv) = sv_st sv" "sv_reg (with_metrics f sv) = sv_reg sv"
  "sv_detector (with_metrics f sv) = sv_detector sv" "sv_notifier (with_metrics f sv) = sv_notifier sv"
  "sv_engine (with_metrics f sv) = sv_engine sv" "sv_defaultRegion (with_metrics f sv) = sv_defaultRegion sv"
  by (simp_all add: with_metrics_def)

lemma Heartbeat_other: "m \<noteq> n \<Longrightarrow> gm_get (nodes (Heartbeat r t n)) m = gm_get (nodes r) m"
  by (simp add: Heartbeat_def split: option.split)

context badger_db
begin

lemma update_entry:
  assumes "bd_update B db now k v ttl = Inr db'" and "map_of (content db' t) k' = Some j"
  shows "map_of (content db t) k' = Some j \<or> k' = k \<and> j = v"
  using assms update_other [OF assms(1), of k' t] update_gone [OF assms(1), of t] by (cases "k' = k") auto

lemma SaveEvent_entries:
  assumes "SaveEvent B st received now who e = (res, st')"
  shows "map_of (content (st_db st') t) k = Some j \<Longrightarrow> map_of (content (st_db st) t) k = Some j \<or> node_entry (ev_NodeID e) k j"
    and "(k, j, ttl) \<in> set (st_pending st') \<Longrightarrow> (k, j, ttl) \<in> set (st_pending st) \<or> node_entry (ev_NodeID e) k j"
proof -
  have ne: "node_entry (ev_NodeID e) (event_key received e) val" if "marshal_event e = Some val" for val
    using unmarshal_marshal_event [OF that] by (simp add: node_entry_def)
  show "map_of (content (st_db st') t) k = Some j \<Longrightarrow> map_of (content (st_db st) t) k = Some j \<or> node_entry (ev_NodeID e) k j"
    using SaveEvent_cases [OF assms] ne by (auto dest!: update_entry [of _ _ _ _ _ _ t k j])
  show "(k, j, ttl) \<in> set (st_pending st') \<Longrightarrow> (k, j, ttl) \<in> set (st_pending st) \<or> node_entry (ev_NodeID e) k j"
    using SaveEvent_cases [OF assms] ne by auto
qed

lemma SaveAlert_entries:
  assumes "SaveAlert B st now who a = (res, st')"
  shows "map_of (content (st_db st') t) k = Some j \<Longrightarrow> map_of (content (st_db st) t) k = Some j \<or> node_entry (al_NodeID a) k j"
    and "(k, j, ttl) \<in> set (st_pending st') \<Longrightarrow> (k, j, ttl) \<in> set (st_pending st) \<or> node_entry (al_NodeID a) k j"
proof -
  have ne: "node_entry (al_NodeID a) (alert_key a) val" if "marshal_alert a = Some val" for val
    using unmarshal_marshal_alert [OF that] by (simp add: node_entry_def)
  show "map_of (content (st_db st') t) k = Some j \<Longrightarrow> map_of (content (st_db st) t) k = Some j \<or> node_entry (al_NodeID a) k j"
    using SaveAlert_cases [OF assms] ne by (auto dest!: update_entry [of _ _ _ _ _ _ t k j])
  show "(k, j, ttl) \<in> set (st_pending st') \<Longrightarrow> (k, j, ttl) \<in> set (st_pending st) \<or> node_entry (al_NodeID a) k j"
    using SaveAlert_cases [OF assms] ne by auto
qed

lemma event_step_acts:
  assumes "event_step_on K B n sv sv'"
  shows "acts_for content n sv sv'"
  using assms
proof cases
  case (heartbeat t)
  then show ?thesis by (auto simp: acts_for_def detector_of_def Heartbeat_other)
next
  case (save_event e received t who err st')
  then show ?thesis
    using SaveEvent_entries [OF save_event(5)] SaveEvent_tokens [OF save_event(5)]
    by (simp add: acts_for_def detector_of_def) blast
next
  case (save_alert a t who err st')
  then show ?thesis
    using SaveAlert_entries [OF save_alert(5)] SaveAlert_tokens [OF save_alert(5)]
    by (simp add: acts_for_def detector_of_def) blast
next
  case (detect d e t uuid alerts d')
  then show ?thesis
    using Record_facts(3) [OF detect(4)] by (auto simp: acts_for_def detector_of_def event_window_key_def)
qed (auto simp: acts_for_def detector_of_def)

lemma stream_steps_act:
  assumes "(stream_step_on K B n)\<^sup>*\<^sup>* sv sv'" and "n \<noteq> []"
  shows "acts_for content n sv sv'"
  using assms(1)
proof (induction rule: rtranclp_induct)
  case (step y z)
  then show ?case using assms(2) acts_for_trans event_step_acts by (metis stream_step_on_def)
qed (rule acts_for_refl)

lemma event_step_sound:
  assumes "event_step_on K B n sv sv'" and "store_all content entry_ok (sv_st sv)"
  shows "store_all content entry_ok (sv_st sv')"
  using assms by cases (auto intro: SaveEvent_all SaveAlert_all)

lemma stream_steps_sound:
  assumes "(stream_step_on K B n)\<^sup>*\<^sup>* sv sv'" and "store_all content entry_ok (sv_st sv)"
  shows "store_all content entry_ok (sv_st sv')"
  using assms by (induction rule: rtranclp_induct) (auto simp: stream_step_on_def intro: event_step_sound)

lemma checkAuth_Inr:
  assumes "store_all content entry_ok st" and "checkAuth sha256 B st t who True md = Inr n"
  shows "\<exists>tok vs m rec. md = Some ((''Bearer '' @ tok) # vs) \<and> token_of (content (st_db st) t) m = Some rec \<and>
    tk_RevokedAt rec = None \<and> tk_TokenHash rec = hashToken sha256 tok \<and> tk_NodeID rec = n \<and> n = coerce_utf8 m"
proof -
  obtain v vs tok where md: "md = Some (v # vs)" "CutPrefix v ''Bearer '' = Some tok"
    and L: "LookupNodeID sha256 B st t who tok = Inr (n, True)"
    using assms(2) by (auto simp: checkAuth_def split: option.splits list.splits sum.splits prod.splits if_splits)
  from LookupNodeID_result(1) [OF assms(1) L] md show ?thesis by (fastforce simp: active_with_def CutPrefix_Some)
qed

lemma checkAuth_Inl:
  assumes "store_all content entry_ok st" and "checkAuth sha256 B st t who True (Some ((''Bearer '' @ tok) # vs)) = Inl err"
  shows "(\<exists>e. LookupNodeID sha256 B st t who tok = Inl e \<and> err = Internal ''auth lookup failed'') \<or>
    (\<forall>m rec. token_of (content (st_db st) t) m = Some rec \<longrightarrow> \<not> active_with (hashToken sha256 tok) rec) \<and>
      err = Unauthenticated ''invalid token''"
proof -
  have c: "CutPrefix (''Bearer '' @ tok) ''Bearer '' = Some tok" by (simp add: CutPrefix_Some)
  show ?thesis
  proof (cases "LookupNodeID sha256 B st t who tok")
    case (Inl e)
    then show ?thesis using assms(2) c by (simp add: checkAuth_def)
  next
    case (Inr r)
    then obtain m where "LookupNodeID sha256 B st t who tok = Inr (m, False)" "err = Unauthenticated ''invalid token''"
      using assms(2) c by (cases r) (auto simp: checkAuth_def split: if_splits)
    with LookupNodeID_result(2) [OF assms(1)] show ?thesis by blast
  qed
qed

end

section \<open>Acknowledgements\<close>

lemma alert_body_ok:
  assumes "alert_body B w a sv = (err, sv')"
  shows "SaveAlert B (sv_st sv) (fst w) (snd w) a = (err, sv_st sv')"
  using assms by (auto simp: alert_body_def Let_def split: prod.splits if_splits)

lemma SaveAlert_frame:
  assumes "SaveAlert B st t who a = (err, st')"
  shows "Stats st' = Stats st" and "st_retention st' = st_retention st"
  using SaveAlert_cases [OF assms] by (auto simp: Stats_def)

lemma alert_loop_frame:
  assumes "alert_loop B it i ok sv alerts = (ok', sv')"
  shows "Stats (sv_st sv') = Stats (sv_st sv) \<and> (ok' \<longrightarrow> ok)"
  using assms
proof (induction alerts arbitrary: i ok sv)
  case (Cons a alerts)
  obtain err sv1 where b: "alert_body B (it_alert it i) a sv = (err, sv1)" by fastforce
  then show ?case
    using Cons.IH [of "Suc i" "ok \<and> err = None" sv1] Cons.prems SaveAlert_frame [OF alert_body_ok [OF b]] by auto
qed simp

text \<open>The alerts an event raises: those of the rules, then that of the anomaly detector.\<close>

definition raised_alerts :: "env \<Rightarrow> iteration \<Rightarrow> Event \<Rightarrow> 'db server \<Rightarrow> Alert list" where
  "raised_alerts E it e sv =
     (case sv_engine sv of None \<Rightarrow> [] | Some engine \<Rightarrow> Evaluate E engine (\<lambda>n. fst (it_engine it n)) (\<lambda>n. snd (it_engine it n)) e) @
     (case sv_detector sv of None \<Rightarrow> [] | Some d \<Rightarrow> fst (Record d (snd (it_detector it)) (fst (it_detector it)) e))"

lemma evaluate_alerts_raised:
  "evaluate_alerts E it e sv = (alerts, sv') \<Longrightarrow> alerts = raised_alerts E it e sv \<and> sv_notifier sv' = sv_notifier sv"
  by (auto simp: evaluate_alerts_def raised_alerts_def Let_def split: option.splits prod.splits)

lemma raised_alert_of_event:
  "a \<in> set (raised_alerts E it e sv) \<Longrightarrow> al_NodeID a = ev_NodeID e \<and> al_EventID a = ev_EventID e"
  by (auto simp: raised_alerts_def Record_def Let_def dest!: Evaluate_alert breach_loop_alert split: option.splits)

lemma alert_loop_notifies:
  "alert_loop B it i ok sv alerts = (ok', sv') \<Longrightarrow> sv_notifier sv' = foldl DispatchAsync (sv_notifier sv) alerts"
proof (induction alerts arbitrary: i ok sv)
  case (Cons a alerts)
  obtain err sv1 where b: "alert_body B (it_alert it i) a sv = (err, sv1)" by fastforce
  then have "sv_notifier sv1 = DispatchAsync (sv_notifier sv) a"
    by (auto simp: alert_body_def with_metrics_def Let_def split: prod.splits if_splits)
  then show ?case using Cons.IH [of "Suc i" "ok \<and> err = None" sv1] Cons.prems b by simp
qed simp

text \<open>The calls of \<^verbatim>\<open>process_event\<close> taken apart: the save, then the loop over the raised alerts.\<close>

lemma process_event_parts:
  assumes "process_event E B it event sv = (ok, sv')"
  obtains err sv5 sv6 where "SaveEvent B (sv_st sv) (it_received it) (fst (it_save it)) (snd (it_save it)) (stored_event event) = (err, sv_st sv5)"
    and "alert_loop B it 0 (err = None) sv5 (raised_alerts E it (stored_event event) sv) = (ok, sv6)"
    and "sv_notifier sv5 = sv_notifier sv" and "sv_st sv' = sv_st sv6" "sv_notifier sv' = sv_notifier sv6"
proof -
  let ?e = "stored_event event" and ?sv1 = "sv\<lparr>sv_reg := Heartbeat (sv_reg sv) (it_heartbeat it) (ke_NodeId event)\<rparr>"
  obtain err st' where s: "SaveEvent B (sv_st sv) (it_received it) (fst (it_save it)) (snd (it_save it)) ?e = (err, st')" by fastforce
  let ?sv2 = "?sv1\<lparr>sv_st := st'\<rparr>"
  let ?sv3 = "if err \<noteq> None then with_metrics (\<lambda>mp. RecordStoreWriteFailure mp ''event'') ?sv2 else ?sv2"
  let ?sv4 = "with_metrics (\<lambda>mp. RecordEvent mp (ev_Type ?e) (ev_NodeID ?e)) ?sv3"
  obtain alerts sv5 where v: "evaluate_alerts E it ?e ?sv4 = (alerts, sv5)" by fastforce
  obtain sv6 where l: "alert_loop B it 0 (err = None) sv5 alerts = (ok, sv6)" "sv_st sv' = sv_st sv6" "sv_notifier sv' = sv_notifier sv6"
    using assms s v by (auto simp: process_event_def Let_def split: prod.splits if_splits)
  have "raised_alerts E it ?e ?sv4 = raised_alerts E it ?e sv" "sv_st ?sv4 = st'" "sv_notifier ?sv4 = sv_notifier sv"
    by (simp_all add: raised_alerts_def with_metrics_def)
  then show thesis using that [of err sv5 sv6] s l evaluate_alerts_raised [OF v] evaluate_alerts_cases [OF v] by auto
qed

context badger_db
begin

lemma alert_loop_other:
  assumes "alert_loop B it i ok sv alerts = (ok', sv')" and "k \<notin> alert_key ` set alerts"
  shows "map_of (content (st_db (sv_st sv')) t) k = map_of (content (st_db (sv_st sv)) t) k"
  using assms
proof (induction alerts arbitrary: i ok sv)
  case (Cons a alerts)
  obtain err sv1 where b: "alert_body B (it_alert it i) a sv = (err, sv1)" by fastforce
  have "map_of (content (st_db (sv_st sv1)) t) k = map_of (content (st_db (sv_st sv)) t) k"
    using SaveAlert_cases [OF alert_body_ok [OF b]] Cons.prems(2) by (auto intro: update_other)
  then show ?case using Cons.IH [of "Suc i" "ok \<and> err = None" sv1] Cons.prems b by auto
qed simp

lemma alert_loop_saves:
  assumes "alert_loop B it i ok sv alerts = (True, sv')" and "distinct (map al_AlertID alerts)"
    and "\<forall>n < length alerts. live_until (Some (st_retention (sv_st sv))) (fst (it_alert it (i + n))) t"
  shows "set alerts \<subseteq> set (alerts_desc (content (st_db (sv_st sv')) t))"
  using assms
proof (induction alerts arbitrary: i ok sv)
  case (Cons a alerts)
  obtain err sv1 where b: "alert_body B (it_alert it i) a sv = (err, sv1)" by fastforce
  have l: "alert_loop B it (Suc i) (ok \<and> err = None) sv1 alerts = (True, sv')" using Cons.prems(1) b by simp
  have "err = None" using alert_loop_frame [OF l] by simp
  then obtain j where j: "marshal_alert a = Some j"
    and u: "bd_update B (st_db (sv_st sv)) (fst (it_alert it i)) (alert_key a) j (Some (st_retention (sv_st sv))) = Inr (st_db (sv_st sv1))"
    using SaveAlert_cases [OF alert_body_ok [OF b]] by auto
  have "alert_key a \<notin> alert_key ` set alerts" using Cons.prems(2) by (auto dest!: alert_key_inject simp: image_iff)
  moreover have "live_until (Some (st_retention (sv_st sv))) (fst (it_alert it i)) t" using Cons.prems(3) by force
  ultimately have "map_of (content (st_db (sv_st sv')) t) (alert_key a) = Some j"
    using alert_loop_other [OF l] update_same [OF u] by simp
  with j have "a \<in> set (alerts_desc (content (st_db (sv_st sv')) t))" by (rule alerts_desc_member)
  moreover have "live_until (Some (st_retention (sv_st sv1))) (fst (it_alert it (Suc i + n))) t" if "n < length alerts" for n
    using Cons.prems(3) that SaveAlert_frame(2) [OF alert_body_ok [OF b]] by (metis add_Suc_shift length_Cons not_less_eq)
  then have "set alerts \<subseteq> set (alerts_desc (content (st_db (sv_st sv')) t))"
    using Cons.IH [OF l] Cons.prems(2) by simp
  ultimately show ?case by simp
qed simp

lemma process_event_ok:
  assumes "process_event E B it event sv = (True, sv')"
  shows "live_until (Some (st_retention (sv_st sv))) (fst (it_save it)) t \<Longrightarrow> \<exists>j. marshal_event (stored_event event) = Some j \<and>
      map_of (content (st_db (sv_st sv')) t) (event_key (it_received it) (stored_event event)) = Some j"
    and "Stats (sv_st sv') = gm_incr (eventTypeName event) (Stats (sv_st sv))"
    and "distinct (map al_AlertID (raised_alerts E it (stored_event event) sv)) \<Longrightarrow>
      \<forall>n < length (raised_alerts E it (stored_event event) sv). live_until (Some (st_retention (sv_st sv))) (fst (it_alert it n)) t \<Longrightarrow>
      set (raised_alerts E it (stored_event event) sv) \<subseteq> set (alerts_desc (content (st_db (sv_st sv')) t))"
proof -
  let ?e = "stored_event event" and ?alerts = "raised_alerts E it (stored_event event) sv"
  obtain err sv5 sv6 where s0: "SaveEvent B (sv_st sv) (it_received it) (fst (it_save it)) (snd (it_save it)) ?e = (err, sv_st sv5)"
    and l0: "alert_loop B it 0 (err = None) sv5 ?alerts = (True, sv6)" and f: "sv_st sv' = sv_st sv6"
    by (rule process_event_parts [OF assms])
  have "err = None" using alert_loop_frame [OF l0] by simp
  note s = s0 [unfolded this] and l = l0 [unfolded this, simplified]
  obtain j where j: "marshal_event ?e = Some j"
    and u: "bd_update B (st_db (sv_st sv)) (fst (it_save it)) (event_key (it_received it) ?e) j (Some (st_retention (sv_st sv))) = Inr (st_db (sv_st sv5))"
    and c: "st_counters (sv_st sv5) = gm_incr (ev_Type ?e) (st_counters (sv_st sv))" "st_retention (sv_st sv5) = st_retention (sv_st sv)"
    using SaveEvent_cases [OF s] by auto
  have "event_key (it_received it) ?e \<notin> alert_key ` set ?alerts"
    by (metis image_iff keys_disjoint(2) keys_disjoint(4))
  then show "\<exists>j. marshal_event ?e = Some j \<and> map_of (content (st_db (sv_st sv')) t) (event_key (it_received it) ?e) = Some j"
    if "live_until (Some (st_retention (sv_st sv))) (fst (it_save it)) t"
    using alert_loop_other [OF l] update_same [OF u that] j f by simp
  show "Stats (sv_st sv') = gm_incr (eventTypeName event) (Stats (sv_st sv))"
    using alert_loop_frame [OF l] c f by (simp add: Stats_def stored_event_def)
  show "set ?alerts \<subseteq> set (alerts_desc (content (st_db (sv_st sv')) t))"
    if "distinct (map al_AlertID ?alerts)" "\<forall>n < length ?alerts. live_until (Some (st_retention (sv_st sv))) (fst (it_alert it n)) t"
    unfolding f by (rule alert_loop_saves [OF l that(1)]) (use that(2) c in simp)
qed

end

section \<open>The rate of a stream\<close>

text \<open>The instants at which the messages of a stream ask the limiter.\<close>

definition asks :: "iteration list \<Rightarrow> time list" where
  "asks its = concat (map (\<lambda>it. case (it_done it, it_recv it) of (None, Msg _) \<Rightarrow> [it_allow it] | _ \<Rightarrow> []) its)"

lemma stream_iteration_limiter:
  assumes "stream_iteration rnd is_ip E B authed it s = (res, ack, s')"
  shows "(asks [it] = [] \<and> sm_limiter s' = sm_limiter s \<and> ack = None \<and> res \<noteq> Continue) \<or>
    (asks [it] = [it_allow it] \<and> sm_limiter s' = snd (allow rnd (sm_limiter s) (it_allow it)) \<and>
      (ack = Some True \<longrightarrow> fst (allow rnd (sm_limiter s) (it_allow it))))"
  using assms
  by (cases "it_done it"; cases "it_recv it"; cases "allow rnd (sm_limiter s) (it_allow it)")
    (auto simp: stream_iteration_def asks_def Let_def send_ack_iff split: prod.splits if_splits)

lemma asks_Cons: "asks (it # its) = asks [it] @ asks its"
  by (simp add: asks_def)

lemma stream_loop_admitted:
  assumes "stream_loop rnd is_ip E B authed acks s its = (res, acks', s')"
  shows "length (filter (\<lambda>b. b) acks') \<le> length (filter (\<lambda>b. b) acks) + admitted rnd (sm_limiter s) (asks its)"
  using assms
proof (induction its arbitrary: acks s)
  case (Cons it its)
  obtain r ack s1 where i: "stream_iteration rnd is_ip E B authed it s = (r, ack, s1)" by (metis prod_cases3)
  obtain ok b where a: "allow rnd (sm_limiter s) (it_allow it) = (ok, b)" by fastforce
  let ?acks = "acks @ (case ack of None \<Rightarrow> [] | Some b \<Rightarrow> [b])"
  have IH: "r = Continue \<Longrightarrow> length (filter (\<lambda>b. b) acks') \<le> length (filter (\<lambda>b. b) ?acks) + admitted rnd (sm_limiter s1) (asks its)"
    and ret: "r \<noteq> Continue \<Longrightarrow> acks' = ?acks"
    using Cons.IH [of ?acks s1] Cons.prems i by (auto simp: Let_def split: outcome.splits)
  from stream_iteration_limiter [OF i] show ?case
    using IH ret a by (cases r; cases ack) (auto simp: asks_Cons [of it its] split: if_splits)
qed simp

section \<open>Properties\<close>

text \<open>
  C12: authentication decides by the token table. With authentication on, a call without metadata, without an
  \<^verbatim>\<open>authorization\<close> value, or whose first such value is not \<^verbatim>\<open>Bearer\<close> and a token, ends with \<^verbatim>\<open>Unauthenticated\<close> and
  the message of the case. A call with a token ends with \<^verbatim>\<open>Internal\<close> when the table cannot be read; it ends with
  \<^verbatim>\<open>Unauthenticated\<close> when no record that is not revoked holds the hash of the token, and otherwise runs as the node
  id such a record holds. A call that ends with an error never reaches the handler and changes nothing. With
  authentication off every call runs with the empty identity.
\<close>

theorem authentication_decides:
  assumes "badger_db B content" and "store_all content entry_ok (sv_st sv)"
    and "authInterceptor sha256 B t who True md handler sv = (res, sv')"
  shows "(md = None \<longrightarrow> res = Inl (Unauthenticated ''missing metadata'') \<and> sv' = sv) \<and>
    (md = Some [] \<longrightarrow> res = Inl (Unauthenticated ''missing authorization metadata'') \<and> sv' = sv) \<and>
    (\<forall>v vs. md = Some (v # vs) \<and> \<not> HasPrefix v ''Bearer '' \<longrightarrow> res = Inl (Unauthenticated ''invalid token'') \<and> sv' = sv) \<and>
    (\<forall>tok vs. md = Some ((''Bearer '' @ tok) # vs) \<longrightarrow>
      (case LookupNodeID sha256 B (sv_st sv) t who tok of
         Inl _ \<Rightarrow> res = Inl (Internal ''auth lookup failed'') \<and> sv' = sv
       | Inr _ \<Rightarrow>
           if \<exists>m rec. token_of (content (st_db (sv_st sv)) t) m = Some rec \<and> tk_RevokedAt rec = None \<and>
                tk_TokenHash rec = hashToken sha256 tok
           then \<exists>m rec r. token_of (content (st_db (sv_st sv)) t) m = Some rec \<and> tk_RevokedAt rec = None \<and>
                tk_TokenHash rec = hashToken sha256 tok \<and> handler (tk_NodeID rec) sv = (r, sv') \<and> res = Inr r
           else res = Inl (Unauthenticated ''invalid token'') \<and> sv' = sv)) \<and>
    authInterceptor sha256 B t who False md handler sv = (case handler [] sv of (r, sv'') \<Rightarrow> (Inr r, sv''))"
proof (intro conjI allI impI)
  fix tok vs assume md: "md = Some ((''Bearer '' @ tok) # vs)"
  let ?held = "\<exists>m rec. token_of (content (st_db (sv_st sv)) t) m = Some rec \<and> tk_RevokedAt rec = None \<and>
      tk_TokenHash rec = hashToken sha256 tok"
  have c: "CutPrefix (''Bearer '' @ tok) ''Bearer '' = Some tok" by (simp add: CutPrefix_Some)
  show "case LookupNodeID sha256 B (sv_st sv) t who tok of
      Inl _ \<Rightarrow> res = Inl (Internal ''auth lookup failed'') \<and> sv' = sv
    | Inr _ \<Rightarrow> if ?held
        then \<exists>m rec r. token_of (content (st_db (sv_st sv)) t) m = Some rec \<and> tk_RevokedAt rec = None \<and>
          tk_TokenHash rec = hashToken sha256 tok \<and> handler (tk_NodeID rec) sv = (r, sv') \<and> res = Inr r
        else res = Inl (Unauthenticated ''invalid token'') \<and> sv' = sv"
  proof (cases "LookupNodeID sha256 B (sv_st sv) t who tok")
    case (Inl e)
    then show ?thesis using assms(3) md c by (simp add: authInterceptor_def checkAuth_def)
  next
    case (Inr x)
    obtain n ok where x: "x = (n, ok)" by (cases x)
    note L = badger_db.LookupNodeID_result [OF assms(1,2) Inr [unfolded x], unfolded active_with_def]
    show ?thesis
    proof (cases ok)
      case True
      obtain m rec where rec: "token_of (content (st_db (sv_st sv)) t) m = Some rec" "tk_RevokedAt rec = None"
        "tk_TokenHash rec = hashToken sha256 tok" "tk_NodeID rec = n" using L(1) [OF True] by blast
      obtain r where "handler n sv = (r, sv')" "res = Inr r"
        using assms(3) md c Inr x True by (auto simp: authInterceptor_def checkAuth_def split: prod.splits)
      with rec show ?thesis using Inr by auto
    next
      case False
      then have no: "?held = False" using L(2) by blast
      have "res = Inl (Unauthenticated ''invalid token'') \<and> sv' = sv"
        using assms(3) md c Inr x False by (simp add: authInterceptor_def checkAuth_def)
      then show ?thesis unfolding Inr sum.case no if_False .
    qed
  qed
qed (use assms(3) in \<open>auto simp: authInterceptor_def checkAuth_def CutPrefix_def split: prod.splits\<close>)

definition demo_server :: "mem_db server" where
  "demo_server = \<lparr>sv_st = demo_issued, sv_reg = registry_New, sv_engine = None, sv_detector = None,
     sv_notifier = \<lparr>ns_disp = NewDispatcher \<lparr>op_Notifiers = [], op_Cooldown = 0, op_MinSeverity = [], op_SendTimeout = 0\<rparr>,
       ns_running = []\<rparr>,
     sv_metrics = None, sv_tracer = \<lparr>tr_exports = False, tr_ended = []\<rparr>, sv_defaultRegion = []\<rparr>"

lemma demo_server_ok: "store_all mem_content entry_ok (sv_st demo_server)"
  by (simp add: demo_server_def demo_issued_ok)

definition demo_md :: "string \<Rightarrow> string list option" where
  "demo_md tok = Some [''Bearer '' @ tok]"

theorem authentication_decides_witness:
  "authInterceptor (\<lambda>s. s) mem_badger 9 FnWins True (demo_md ''wrong'') (\<lambda>n sv. (n, sv)) demo_server =
     (Inl (Unauthenticated ''invalid token''), demo_server) \<and>
   authInterceptor (\<lambda>s. s) mem_badger 9 FnWins True (demo_md (hex_encode ''k'')) (\<lambda>n sv. (n, sv)) demo_server =
     (Inr ''web'', demo_server)"
proof -
  let ?call = "\<lambda>tok. authInterceptor (\<lambda>s. s) mem_badger 9 FnWins True (demo_md tok) (\<lambda>n sv. (n, sv)) demo_server"
  note A = authentication_decides [OF mem.badger_db_axioms demo_server_ok, where handler = "\<lambda>n sv. (n, sv)"]
  have look: "\<exists>x. LookupNodeID (\<lambda>s. s) mem_badger (sv_st demo_server) 9 FnWins tok = Inr x" for tok
    using demo_lookup [OF demo_server_ok] by blast
  note T = demo_issued_token [of 9]
  obtain res sv' where c: "?call ''wrong'' = (res, sv')" by fastforce
  have "\<not> (\<exists>m rec. token_of (mem_content (st_db (sv_st demo_server)) 9) m = Some rec \<and> tk_RevokedAt rec = None \<and>
      tk_TokenHash rec = hashToken (\<lambda>s. s) ''wrong'')"
    by (auto simp: demo_server_def T hashToken_def hex_encode_def split: if_splits)
  then have w: "res = Inl (Unauthenticated ''invalid token'') \<and> sv' = demo_server"
    using A [OF c] look [of "''wrong''"] by (auto simp: demo_md_def)
  obtain res' sv'' where c': "?call (hex_encode ''k'') = (res', sv'')" by fastforce
  have "\<exists>m rec. token_of (mem_content (st_db (sv_st demo_server)) 9) m = Some rec \<and> tk_RevokedAt rec = None \<and>
      tk_TokenHash rec = hashToken (\<lambda>s. s) (hex_encode ''k'')"
    by (simp add: demo_server_def T hashToken_def)
  then have "res' = Inr ''web'' \<and> sv'' = demo_server"
    using A [OF c'] look [of "hex_encode ''k''"] by (auto simp: demo_md_def demo_server_def T split: if_splits)
  with w c c' show ?thesis by simp
qed

text \<open>
  With authentication on, what a call may do: it is refused and changes nothing, or it presents a token that is
  on record and not revoked, and what it changes concerns the node named by the record only. Any handler that acts for
  the node it is called with is confined so by the interceptors, given that the empty node id, which stands for
  no identity in a context, has no token. (\<^verbatim>\<open>token issue\<close> refuses an empty one.)
\<close>

definition confined ::
  "hash_fn \<Rightarrow> ('db \<Rightarrow> time \<Rightarrow> (string \<times> json) list) \<Rightarrow> time \<Rightarrow> string list option \<Rightarrow> bool \<Rightarrow> 'db server \<Rightarrow> 'db server \<Rightarrow> bool" where
  "confined sha256 content t md refused sv sv' =
     (if refused then sv' = sv
      else \<exists>n tok vs m rec. n \<noteq> [] \<and> md = Some ((''Bearer '' @ tok) # vs) \<and>
        token_of (content (st_db (sv_st sv)) t) m = Some rec \<and> tk_RevokedAt rec = None \<and>
        tk_TokenHash rec = hashToken sha256 tok \<and> tk_NodeID rec = n \<and> acts_for content n sv sv')"

lemma authInterceptor_confines:
  assumes "badger_db B content" and "store_all content entry_ok (sv_st sv)"
    and "token_of (content (st_db (sv_st sv)) t) [] = None"
    and "authInterceptor sha256 B t who True md handler sv = (res, sv')"
    and "\<And>n r sv'. n \<noteq> [] \<Longrightarrow> handler n sv = (r, sv') \<Longrightarrow> acts_for content n sv sv'"
  shows "confined sha256 content t md (isl res) sv sv'"
proof (cases "checkAuth sha256 B (sv_st sv) t who True md")
  case (Inl err)
  then show ?thesis using assms(4) by (auto simp: authInterceptor_def confined_def)
next
  case (Inr n)
  obtain tok vs m rec where a: "md = Some ((''Bearer '' @ tok) # vs)" "token_of (content (st_db (sv_st sv)) t) m = Some rec"
    "tk_RevokedAt rec = None" "tk_TokenHash rec = hashToken sha256 tok" "tk_NodeID rec = n" "n = coerce_utf8 m"
    using badger_db.checkAuth_Inr [OF assms(1,2) Inr] by blast
  have n: "n \<noteq> []" using a(2,6) assms(3) by auto
  obtain r where r: "handler n sv = (r, sv')" "res = Inr r"
    using assms(4) Inr by (auto simp: authInterceptor_def split: prod.splits)
  show ?thesis using a(1-5) n assms(5) [OF n r(1)] r(2) unfolding confined_def by fastforce
qed

lemma StreamEvents_acts:
  assumes "badger_db B content" and "\<forall>it \<in> set its. clocks_ok it" and "n \<noteq> []"
    and "StreamEvents rnd is_ip E B start its n sv = (r, sv')"
  shows "acts_for content n sv sv'"
proof -
  have "(stream_step B n)\<^sup>*\<^sup>* sv sv'" by (rule StreamEvents_steps [OF assms(4)]) (use assms(2) in simp)
  from badger_db.stream_steps_act [OF assms(1) this assms(3)] show ?thesis .
qed

lemma receiver_Register_acts:
  assumes "n \<noteq> []" and "receiver_Register is_ip split_host now peer req n sv = (r, sv')"
  shows "acts_for content n sv sv'" and "sv_st sv' = sv_st sv"
  using assms
  by (auto simp: receiver_Register_def registry_Register_def acts_for_def detector_of_def Let_def
      split: option.splits if_splits sum.splits)

definition demo_iteration :: "KernelEvent \<Rightarrow> iteration" where
  "demo_iteration event = \<lparr>it_done = None, it_recv = Msg event, it_allow = 0, it_heartbeat = time_unix0 0,
     it_received = time_unix0 0, it_save = (time_unix0 0, FnWins), it_engine = (\<lambda>_. (''u'', time_unix0 0)),
     it_detector = (''u'', time_unix0 0), it_alert = (\<lambda>_. (time_unix0 0, FnWins)), it_send = None\<rparr>"

lemma demo_iteration_clocks: "clocks_ok (demo_iteration event)"
  by (simp add: clocks_ok_def demo_iteration_def demo_clock)

definition demo_alerting :: env where
  "demo_alerting = \<lparr>compile = (\<lambda>_. Inl ''''), ParseFloat = (\<lambda>_. None)\<rparr>"

text \<open>
  C7: a message over the rate limit, one that does not validate and one with another node's id have no
  effect on the collector: the shared state is the same afterwards and the acknowledgement says no. So
  has the end of the stream, which is not acknowledged.
\<close>

theorem rejected_message_no_effect:
  assumes "stream_iteration rnd is_ip E B authed it s = (res, ack, s')"
    and "\<And>event. it_done it = None \<Longrightarrow> it_recv it = Msg event \<Longrightarrow>
      \<not> fst (allow rnd (sm_limiter s) (it_allow it)) \<or> validateKernelEvent is_ip event \<noteq> None \<or>
      (authed \<noteq> [] \<and> ke_NodeId event \<noteq> authed)"
  shows "sm_server s' = sm_server s \<and> ack \<noteq> Some True \<and>
    (ack = Some False \<longleftrightarrow> it_done it = None \<and> (\<exists>event. it_recv it = Msg event))"
  using assms
  by (cases "it_done it"; cases "it_recv it"; cases "allow rnd (sm_limiter s) (it_allow it)")
    (auto simp: stream_iteration_def Let_def send_ack_iff split: prod.splits if_splits)

definition demo_stream :: "mem_db stream" where
  "demo_stream = \<lparr>sm_server = demo_server, sm_limiter = newTokenBucket streamEventsRateLimit streamEventsRateBurst 0,
     sm_throttled = 0\<rparr>"

theorem rejected_message_no_effect_witness:
  "\<exists>res s'. stream_iteration (\<lambda>x. x) (\<lambda>_. False) demo_alerting mem_badger ''web'' (demo_iteration (demo_kernel_event ''db'' ''i'')) demo_stream
      = (res, Some False, s') \<and> sm_server s' = demo_server"
proof -
  let ?it = "demo_iteration (demo_kernel_event ''db'' ''i'')"
  obtain res ack s' where i: "stream_iteration (\<lambda>x. x) (\<lambda>_. False) demo_alerting mem_badger ''web'' ?it demo_stream = (res, ack, s')"
    by (metis prod_cases3)
  then have "sm_server s' = demo_server \<and> ack = Some False"
    using rejected_message_no_effect [OF i] by (auto simp: demo_iteration_def demo_kernel_event_def demo_stream_def)
  with i show ?thesis by blast
qed

text \<open>What an acknowledged message leaves: the server's store is still sound, and the event and its alerts are in it.\<close>

lemma acked_event:
  assumes "badger_db B content" and "store_all content entry_ok (sv_st (sm_server s))" and "clocks_ok it"
    and "stream_iteration rnd is_ip E B authed it s = (res, Some True, s')"
  obtains event where "accepted_event rnd is_ip authed it (sm_limiter s) = Some event" "it_recv it = Msg event"
    and "process_event E B it event (sm_server s) = (True, sm_server s')"
    and "store_all content entry_ok (sv_st (sm_server s'))"
    and "\<And>t. t + second \<le> fst (it_save it) + st_retention (sv_st (sm_server s)) \<Longrightarrow>
      stored_event event \<in> set (events_desc (content (st_db (sv_st (sm_server s'))) t))"
proof -
  obtain event where a: "accepted_event rnd is_ip authed it (sm_limiter s) = Some event"
    and p: "process_event E B it event (sm_server s) = (True, sm_server s')"
    using stream_iteration_cases [OF assms(4)] by auto
  have all: "store_all content entry_ok (sv_st (sm_server s'))"
    using badger_db.stream_steps_sound [OF assms(1) stream_iteration_steps [OF assms(4,3) writes_in_UNIV] assms(2)] .
  have l: "stored_event event \<in> set (events_desc (content (st_db (sv_st (sm_server s'))) t))"
    if "t + second \<le> fst (it_save it) + st_retention (sv_st (sm_server s))" for t
  proof -
    have "live_until (Some (st_retention (sv_st (sm_server s)))) (fst (it_save it)) t"
      using that by (simp add: live_until_def)
    from badger_db.process_event_ok(1) [OF assms(1) p this] show ?thesis
      using assms(3) unfolding badger_db.events_desc_content [OF assms(1) all] by (auto simp: clocks_ok_def)
  qed
  from that [OF a accepted_event_SomeD(2) [OF a] p all l] show thesis by blast
qed

text \<open>
  C14: an acknowledgement is kept: when a stream acknowledges a message with yes, the message is a valid
  event of the stream's node, its normalised form is in the database from then on until a second before
  the retention ends, and the counter of its type has gone up by one. The alerts it raises, those of the
  rules and that of the detector, are in the database as long, given that their ids are fresh, and each of
  them has been handed to the notifier, in order.
\<close>

theorem acknowledged_event_stored:
  assumes "badger_db B content" and "store_all content entry_ok (sv_st (sm_server s))" and "clocks_ok it"
    and "stream_iteration rnd is_ip E B authed it s = (res, Some True, s')"
    and "t + second \<le> fst (it_save it) + st_retention (sv_st (sm_server s))"
  shows "\<exists>event alerts. it_recv it = Msg event \<and> validateKernelEvent is_ip event = None \<and>
    (authed \<noteq> [] \<longrightarrow> ke_NodeId event = authed) \<and> alerts = raised_alerts E it (stored_event event) (sm_server s) \<and>
    stored_event event \<in> set (events_desc (content (st_db (sv_st (sm_server s'))) t)) \<and>
    (\<forall>y. gm_count (Stats (sv_st (sm_server s'))) y =
       gm_count (Stats (sv_st (sm_server s))) y + (if y = eventTypeName event then 1 else 0)) \<and>
    (distinct (map al_AlertID alerts) \<and>
       (\<forall>n < length alerts. t + second \<le> fst (it_alert it n) + st_retention (sv_st (sm_server s))) \<longrightarrow>
      set alerts \<subseteq> set (alerts_desc (content (st_db (sv_st (sm_server s'))) t))) \<and>
    sv_notifier (sm_server s') = foldl DispatchAsync (sv_notifier (sm_server s)) alerts"
proof -
  obtain event where a: "accepted_event rnd is_ip authed it (sm_limiter s) = Some event"
    and p: "process_event E B it event (sm_server s) = (True, sm_server s')"
    and e: "stored_event event \<in> set (events_desc (content (st_db (sv_st (sm_server s'))) t))"
    by (rule acked_event [OF assms(1-4)]) (use assms(5) in blast)
  let ?alerts = "raised_alerts E it (stored_event event) (sm_server s)"
  note P = badger_db.process_event_ok(2,3) [OF assms(1) p]
  have "sv_notifier (sm_server s') = foldl DispatchAsync (sv_notifier (sm_server s)) ?alerts"
    by (rule process_event_parts [OF p]) (auto dest!: alert_loop_notifies)
  then show ?thesis
    using accepted_event_SomeD(2-4) [OF a] e P by (intro exI [of _ event] exI [of _ ?alerts]) (auto simp: gm_count_incr live_until_def)
qed

lemma demo_ack:
  "\<exists>res s'. stream_iteration (\<lambda>x. x) (\<lambda>_. False) demo_alerting mem_badger ''n''
      (demo_iteration (demo_kernel_event ''n'' ''i'')) demo_stream = (res, Some True, s')"
proof -
  let ?e = "demo_kernel_event ''n'' ''i''"
  have "\<exists>b. allow (\<lambda>x. x) (sm_limiter demo_stream) 0 = (True, b)"
    by (simp add: demo_stream_def allow_def newTokenBucket_def streamEventsRateBurst_def streamEventsRateLimit_def
        dur_seconds_def time_sub_def trunc_div_def Let_def int64_min_def int64_max_def)
  then obtain b where "allow (\<lambda>x. x) (sm_limiter demo_stream) 0 = (True, b)" ..
  moreover obtain j where "marshal_event (stored_event ?e) = Some j" using stored_event_marshals by blast
  ultimately show ?thesis using demo_kernel_event_valid
    by (simp add: stream_iteration_def demo_iteration_def send_ack_def process_event_def SaveEvent_def Let_def
        write_with_context_def evaluate_alerts_def demo_server_def demo_stream_def demo_kernel_event_def [of "''n''" "''i''"])
qed

theorem acknowledged_event_stored_witness:
  "\<exists>res s'. stream_iteration (\<lambda>x. x) (\<lambda>_. False) demo_alerting mem_badger ''n''
      (demo_iteration (demo_kernel_event ''n'' ''i'')) demo_stream = (res, Some True, s') \<and>
    stored_event (demo_kernel_event ''n'' ''i'') \<in> set (events_desc (mem_content (st_db (sv_st (sm_server s'))) (time_unix0 hour)))"
proof -
  let ?it = "demo_iteration (demo_kernel_event ''n'' ''i'')"
  obtain res s' where i: "stream_iteration (\<lambda>x. x) (\<lambda>_. False) demo_alerting mem_badger ''n'' ?it demo_stream = (res, Some True, s')"
    using demo_ack by blast
  have r: "st_retention (sv_st (sm_server demo_stream)) = DefaultRetention"
    using demo_issued_ok(1) by (auto simp: demo_stream_def demo_server_def demo_issued_def demo_store_def IssueToken_def
        putAgentToken_def write_with_context_def split: option.splits sum.splits)
  have ok: "store_all mem_content entry_ok (sv_st (sm_server demo_stream))"
    using demo_server_ok by (simp add: demo_stream_def)
  from acknowledged_event_stored [OF mem.badger_db_axioms ok demo_iteration_clocks i, of "time_unix0 hour"] i r show ?thesis
    by (auto simp: demo_iteration_def DefaultRetention_def time_unix0_def duration_units)
qed

text \<open>
  C22: \<^verbatim>\<open>Register\<close> succeeds exactly for a valid request with a node id, which must be the authenticated one
  when there is one; a refusal changes nothing. Afterwards the node is active and last seen now, in the
  region of the request, else the collector's, else the default one. The address of a node that was
  not known is the one of the connection, whatever the request says; nothing but the registry changes, and
  there no other node.
\<close>

theorem Register_handler:
  assumes "receiver_Register is_ip split_host now peer req authed sv = ((ok, msg), sv')"
  shows "(ok \<longleftrightarrow> validateRegisterRequest is_ip req = None \<and> rr_NodeId req \<noteq> [] \<and> (authed = [] \<or> rr_NodeId req = authed)) \<and>
    (\<not> ok \<longrightarrow> sv' = sv) \<and>
    (ok \<longrightarrow> (\<exists>n. sv' = sv\<lparr>sv_reg := sv_reg sv'\<rparr> \<and> gm_get (nodes (sv_reg sv')) (rr_NodeId req) = Some n \<and>
      an_Status n = ''active'' \<and> an_LastSeen n = now \<and>
      an_Region n = (if rr_Region req \<noteq> [] then rr_Region req
        else if sv_defaultRegion sv \<noteq> [] then sv_defaultRegion sv else ''default'') \<and>
      (gm_get (nodes (sv_reg sv)) (rr_NodeId req) = None \<longrightarrow> an_IP n = peerIP split_host peer) \<and>
      (\<forall>m. m \<noteq> rr_NodeId req \<longrightarrow> gm_get (nodes (sv_reg sv')) m = gm_get (nodes (sv_reg sv)) m)))"
proof (cases "validateRegisterRequest is_ip req = None \<and> \<not> (authed \<noteq> [] \<and> rr_NodeId req \<noteq> authed)")
  case False
  then show ?thesis using assms by (auto simp: receiver_Register_def split: option.splits if_splits)
next
  case True
  let ?region = "if rr_Region req = [] then sv_defaultRegion sv else rr_Region req"
  have R: "receiver_Register is_ip split_host now peer req authed sv =
      (case registry_Register (sv_reg sv) now (rr_NodeId req) (rr_Hostname req) (peerIP split_host peer)
         (rr_Version req) ?region of Inl err \<Rightarrow> ((False, err), sv) | Inr reg \<Rightarrow> ((True, ''registered''), sv\<lparr>sv_reg := reg\<rparr>))"
    using True by (auto simp: receiver_Register_def Let_def)
  show ?thesis
    using assms True unfolding R
    by (auto simp: registry_Register_def normalizeRegion_def DefaultRegion_def Let_def split: if_splits option.splits)
qed

definition demo_request :: "string \<Rightarrow> RegisterRequest" where
  "demo_request n = \<lparr>rr_NodeId = n, rr_Hostname = ''h'', rr_Ip = [], rr_Version = ''1'', rr_Region = []\<rparr>"

theorem Register_handler_witness:
  "\<exists>msg sv' n. receiver_Register (\<lambda>_. False) (\<lambda>_. Some ''10.0.0.7'') 5 (Some ''10.0.0.7:4711'') (demo_request ''web'') ''web'' demo_server
      = ((True, msg), sv') \<and> gm_get (nodes (sv_reg sv')) ''web'' = Some n \<and> an_IP n = ''10.0.0.7'' \<and> an_Region n = ''default''"
proof -
  obtain ok msg sv' where r: "receiver_Register (\<lambda>_. False) (\<lambda>_. Some ''10.0.0.7'') 5 (Some ''10.0.0.7:4711'') (demo_request ''web'') ''web'' demo_server
      = ((ok, msg), sv')" by (metis prod.exhaust)
  have v: "validateRegisterRequest (\<lambda>_. False) (demo_request ''web'') = None"
    by (simp add: validateRegisterRequest_def demo_request_def validateFields.simps isPrintableASCII_iff printable_def
        validateIP_def maxRegisterFieldLength_def)
  from Register_handler [OF r] v r show ?thesis
    by (fastforce simp: demo_request_def demo_server_def registry_New_def peerIP_def)
qed

text \<open>
  C13: the rate of a stream: however many messages a stream sends, and however they are answered, at most
  4000 are acknowledged with yes plus 2000 for every second from the start of the stream to the last
  message, plus the rounding error. Rejected messages use up the same budget.
\<close>

theorem stream_acks_bounded:
  assumes "rounding_ok rnd eps" and "sorted (start # asks its)"
    and "StreamEvents rnd is_ip E B start its authed sv = ((res, acks), sv')"
  shows "of_nat (length (filter (\<lambda>b. b) acks)) \<le>
    4000 + 2000 * (of_int (last (start # asks its) - start) / 10 ^ 9) + of_nat (length (asks its)) * (4003 * eps)"
proof -
  let ?b = "newTokenBucket streamEventsRateLimit streamEventsRateBurst start"
  obtain s where "stream_loop rnd is_ip E B authed [] \<lparr>sm_server = sv, sm_limiter = ?b, sm_throttled = 0\<rparr> its = (res, acks, s)"
    using assms(3) by (auto simp: StreamEvents_def split: prod.splits)
  from stream_loop_admitted [OF this] have "(of_nat (length (filter (\<lambda>b. b) acks)) :: rat) \<le> of_nat (admitted rnd ?b (asks its))"
    by simp
  also have "\<dots> \<le> 4000 + 2000 * (of_int (last (start # asks its) - start) / 10 ^ 9) + of_nat (length (asks its)) * (4003 * eps)"
    by (rule stream_rate_bounded [OF assms(1,2)])
  finally show ?thesis .
qed

theorem stream_acks_bounded_witness:
  "\<exists>res acks sv'. StreamEvents (\<lambda>x. x) (\<lambda>_. False) demo_alerting mem_badger 0
      (replicate 9000 (demo_iteration (demo_kernel_event ''n'' ''i''))) ''n'' demo_server = ((res, acks), sv') \<and>
    of_nat (length (filter (\<lambda>b. b) acks)) \<le> (4000 :: rat)"
proof -
  let ?its = "replicate 9000 (demo_iteration (demo_kernel_event ''n'' ''i''))"
  obtain res acks sv' where s: "StreamEvents (\<lambda>x. x) (\<lambda>_. False) demo_alerting mem_badger 0 ?its ''n'' demo_server = ((res, acks), sv')"
    by (metis prod.exhaust)
  have "asks (replicate k (demo_iteration e)) = replicate k 0" for k e
    by (induction k) (simp_all add: asks_def demo_iteration_def)
  then have a: "asks ?its = replicate 9000 0" .
  from stream_acks_bounded [OF _ _ s, of 0] s show ?thesis
    by (simp add: rounding_ok_def a sorted_replicate)
qed

end
