(* ===== verification/HttpAuth.thy ===== *)
theory HttpAuth
  imports Go_Json
begin

text \<open>
  Package \<^verbatim>\<open>internal/httpauth\<close>: the bearer token of the REST API. \<^verbatim>\<open>ConstantTimeCompare\<close> is equality of the
  byte sequences; its timing is not modelled. A middleware either lets the request through to the next
  handler or answers it.

  The replies of the two HTTP routers are here too: a JSON document with a status, a file, the page of the
  Prometheus handler, or nothing, when the document cannot be encoded.
\<close>

datatype http_reply = Reply int json | RenderError | FileReply string | MetricsPage

definition error_json :: "string \<Rightarrow> json" where
  "error_json msg = JObj [(''error'', JStr msg)]"

definition EnvAPIToken :: string where "EnvAPIToken = ''SENTINEL_API_TOKEN''"

definition TokenFromEnv :: "(string \<Rightarrow> string) \<Rightarrow> string" where
  "TokenFromEnv Getenv = TrimSpace (Getenv EnvAPIToken)"

text \<open>\<open>header\<close> is the value of the request's \<^verbatim>\<open>Authorization\<close> header, empty when there is none.\<close>

definition BearerAuth :: "string \<Rightarrow> string \<Rightarrow> http_reply \<Rightarrow> http_reply" where
  "BearerAuth token header next_reply =
     (if token = [] then next_reply
      else case CutPrefix header ''Bearer '' of
        None \<Rightarrow> Reply 401 (error_json ''unauthorized'')
      | Some got \<Rightarrow> if got = token then next_reply else Reply 401 (error_json ''unauthorized''))"

lemma BearerAuth_iff:
  "BearerAuth token header next_reply =
    (if token = [] \<or> header = ''Bearer '' @ token then next_reply else Reply 401 (error_json ''unauthorized''))"
  by (auto simp: BearerAuth_def CutPrefix_Some CutPrefix_None split: option.splits)

end
