(* ===== verification/Exporter.thy ===== *)
theory Exporter
  imports Store Registry Anomaly HttpAuth "HOL-Library.Sublist"
begin

text \<open>
  The REST API of a collector, \<^verbatim>\<open>internal/exporter/api.go\<close>: the routes, the bearer token in front of them,
  and the handlers over the store, the registry and the anomaly detector. A request is its method, its
  path, its \<^verbatim>\<open>Authorization\<close> header and the first value of each query parameter; \<^verbatim>\<open>gin\<close>'s redirects of a
  trailing slash, the CORS middleware and the contents of the static files are not modelled. The text of
  an error is an argument.

  Shown: without the token no reply depends on what the collector holds; the bounds of a listing whatever
  the request asks for; which events the listing with filters returns; the roll-up of the regions.
\<close>

section \<open>Model\<close>

record request =
  rq_method :: string
  rq_path :: string
  rq_authorization :: string
  rq_query :: "string \<Rightarrow> string"

definition maxLimit :: int where "maxLimit = 1000"

definition parseLimit :: "(string \<Rightarrow> string) \<Rightarrow> string \<Rightarrow> int \<Rightarrow> http_reply + int" where
  "parseLimit q key def =
     (let v = q key in
      if v = [] then Inr def
      else case Atoi v of
        None \<Rightarrow> Inl (Reply 400 (error_json (''invalid '' @ key @ '': must be a positive integer'')))
      | Some n \<Rightarrow>
          if n \<le> 0 then Inl (Reply 400 (error_json (''invalid '' @ key @ '': must be a positive integer'')))
          else Inr (if n > maxLimit then maxLimit else n))"

definition regionNodeSet :: "registry \<Rightarrow> string \<Rightarrow> string set" where
  "regionNodeSet reg region = set (map an_NodeID (ListByRegion reg region))"

text \<open>\<^verbatim>\<open>c.JSON\<close> of a slice.\<close>

definition json_list :: "('a \<Rightarrow> json option) \<Rightarrow> 'a list \<Rightarrow> http_reply" where
  "json_list enc xs = (case marshal_slice enc xs of None \<Rightarrow> RenderError | Some doc \<Rightarrow> Reply 200 doc)"

definition get_events ::
  "(store_error \<Rightarrow> string) \<Rightarrow> 'db badger \<Rightarrow> 'db Store \<Rightarrow> registry \<Rightarrow> time \<Rightarrow> race \<Rightarrow> (string \<Rightarrow> string) \<Rightarrow> http_reply" where
  "get_events err_text B st reg t who q =
     (case parseLimit q ''limit'' 100 of
        Inl rep \<Rightarrow> rep
      | Inr limit \<Rightarrow> (case ListEvents B st t who (q ''node'') limit of
          Inl err \<Rightarrow> Reply 500 (error_json (err_text err))
        | Inr events \<Rightarrow>
            json_list marshal_event
              (if q ''region'' \<noteq> [] then filter (\<lambda>e. ev_NodeID e \<in> regionNodeSet reg (q ''region'')) events else events)))"

definition get_nodes :: "registry \<Rightarrow> (string \<Rightarrow> string) \<Rightarrow> http_reply" where
  "get_nodes reg q =
     (if q ''region'' \<noteq> [] then json_list marshal_node (ListByRegion reg (q ''region''))
      else json_list marshal_node (registry_List reg))"

record regionSummary =
  rs_Region :: string
  rs_NodeCount :: int
  rs_ActiveCount :: int

definition region_summary :: "registry \<Rightarrow> string \<Rightarrow> regionSummary" where
  "region_summary reg region =
     (let ns = ListByRegion reg region;
          active = fold (\<lambda>n k. if an_Status n = ''active'' then k + 1 else k) ns 0
      in \<lparr>rs_Region = region, rs_NodeCount = int (length ns), rs_ActiveCount = active\<rparr>)"

definition summary_json :: "regionSummary \<Rightarrow> json" where
  "summary_json s = JObj [(''region'', JStr (rs_Region s)), (''node_count'', JNum (rs_NodeCount s)),
     (''active_count'', JNum (rs_ActiveCount s))]"

definition get_regions :: "registry \<Rightarrow> http_reply" where
  "get_regions reg = json_list (\<lambda>region. Some (summary_json (region_summary reg region))) (registry_Regions reg)"

text \<open>A map is encoded with its keys sorted.\<close>

definition map_json :: "('v \<Rightarrow> json) \<Rightarrow> (string, 'v) gomap \<Rightarrow> json" where
  "map_json f m = JObj (map (\<lambda>(k, v). (k, f v)) (sort_key fst m))"

definition get_stats :: "'db Store \<Rightarrow> http_reply" where
  "get_stats st = Reply 200 (map_json JNum (Stats st))"

definition get_alerts ::
  "(store_error \<Rightarrow> string) \<Rightarrow> 'db badger \<Rightarrow> 'db Store \<Rightarrow> registry \<Rightarrow> time \<Rightarrow> race \<Rightarrow> (string \<Rightarrow> string) \<Rightarrow> http_reply" where
  "get_alerts err_text B st reg t who q =
     (case parseLimit q ''limit'' 100 of
        Inl rep \<Rightarrow> rep
      | Inr limit \<Rightarrow> (case ListAlerts B st t who (q ''node'') limit of
          Inl err \<Rightarrow> Reply 500 (error_json (err_text err))
        | Inr alerts \<Rightarrow>
            json_list marshal_alert
              (if q ''region'' \<noteq> [] then filter (\<lambda>a. al_NodeID a \<in> regionNodeSet reg (q ''region'')) alerts else alerts)))"

definition get_windows :: "Detector option \<Rightarrow> time \<Rightarrow> http_reply" where
  "get_windows detector now =
     (case detector of
        None \<Rightarrow> Reply 200 (JObj [])
      | Some d \<Rightarrow> Reply 200 (map_json (map_json JNum) (WindowStats d now)))"

text \<open>What a router serves when no route matches: the not-found document under \<^verbatim>\<open>/api/\<close>, else the UI.\<close>

definition no_route :: "string \<Rightarrow> string \<Rightarrow> http_reply" where
  "no_route staticDir path =
     (if HasPrefix path ''/api/'' then Reply 404 (error_json ''not found'') else FileReply (staticDir @ ''/index.html''))"

definition static_route :: "string \<Rightarrow> request \<Rightarrow> http_reply option" where
  "static_route staticDir rq =
     (if rq_method rq \<notin> {''GET'', ''HEAD''} then None
      else if rq_path rq = ''/'' then Some (FileReply (staticDir @ ''/index.html''))
      else if rq_path rq = ''/favicon.svg'' then Some (FileReply (staticDir @ ''/favicon.svg''))
      else if HasPrefix (rq_path rq) ''/assets/'' then Some (FileReply (staticDir @ rq_path rq))
      else None)"

record 'db collector =
  cl_err_text :: "store_error \<Rightarrow> string"
  cl_db :: "'db badger"
  cl_st :: "'db Store"
  cl_reg :: registry
  cl_detector :: "Detector option"

definition exporter_Router ::
  "string \<Rightarrow> string \<Rightarrow> 'db collector \<Rightarrow> time \<Rightarrow> race \<Rightarrow> request \<Rightarrow> http_reply" where
  "exporter_Router staticDir apiToken c t who rq =
     (case static_route staticDir rq of
        Some rep \<Rightarrow> rep
      | None \<Rightarrow>
          let path = rq_path rq; q = rq_query rq; auth = BearerAuth apiToken (rq_authorization rq) in
          if rq_method rq \<noteq> ''GET'' then no_route staticDir path
          else if path = ''/healthz'' then Reply 200 (JObj [(''status'', JStr ''ok'')])
          else if path = ''/metrics'' then auth MetricsPage
          else if path = ''/api/events'' then auth (get_events (cl_err_text c) (cl_db c) (cl_st c) (cl_reg c) t who q)
          else if path = ''/api/nodes'' then auth (get_nodes (cl_reg c) q)
          else if path = ''/api/regions'' then auth (get_regions (cl_reg c))
          else if path = ''/api/stats'' then auth (get_stats (cl_st c))
          else if path = ''/api/alerts'' then auth (get_alerts (cl_err_text c) (cl_db c) (cl_st c) (cl_reg c) t who q)
          else if path = ''/api/stats/windows'' then auth (get_windows (cl_detector c) t)
          else no_route staticDir path)"

section \<open>Facts\<close>

lemma those_Some_iff: "those xs = Some ys \<longleftrightarrow> xs = map Some ys"
  by (induction xs arbitrary: ys) (auto split: option.splits simp: Cons_eq_map_conv)

lemma those_map_Some [simp]: "those (map Some js) = Some js"
  by (simp add: those_Some_iff)

lemma json_list_Reply: "json_list enc xs = Reply s j \<longleftrightarrow> s = 200 \<and> (\<exists>js. j = JArr js \<and> map enc xs = map Some js)"
  by (auto simp: json_list_def marshal_slice_def those_Some_iff split: option.split)

lemma json_list_ok:
  assumes "\<And>x. x \<in> set xs \<Longrightarrow> enc x \<noteq> None"
  shows "json_list enc xs = Reply 200 (JArr (map (the \<circ> enc) xs))"
  using assms by (auto simp: json_list_Reply)

lemma decode_list:
  assumes "\<And>x. x \<in> set xs \<Longrightarrow> enc x \<noteq> None" and "\<And>x j. enc x = Some j \<Longrightarrow> dec j = Some x"
  shows "map dec (map (the \<circ> enc) xs) = map Some xs"
  using assms by (induction xs) fastforce+

lemma json_list_Some [simp]: "json_list (\<lambda>x. Some (f x)) xs = Reply 200 (JArr (map f xs))"
  by (simp add: json_list_Reply)

definition asked_limit :: "(string \<Rightarrow> string) \<Rightarrow> int option" where
  "asked_limit q =
     (if q ''limit'' = [] then Some 100
      else case Atoi (q ''limit'') of None \<Rightarrow> None | Some k \<Rightarrow> if k \<le> 0 then None else Some (min k 1000))"

lemma parseLimit_asked:
  "parseLimit q ''limit'' 100 =
    (case asked_limit q of
       None \<Rightarrow> Inl (Reply 400 (error_json ''invalid limit: must be a positive integer'')) | Some n \<Rightarrow> Inr n)"
  by (simp add: parseLimit_def asked_limit_def Let_def maxLimit_def split: option.split)

lemma asked_limit_bounds: "asked_limit q = Some n \<Longrightarrow> 1 \<le> n \<and> n \<le> 1000"
  by (auto simp: asked_limit_def split: if_splits option.splits)

lemma subseq_take: "subseq (take n xs) xs"
  by (metis append_take_drop_id subseq_rev_drop_many subseq_order.order_refl)

lemma node_matches_subseq: "subseq (node_matches f node k xs) xs"
  by (auto simp: node_matches_def intro: subseq_order.order_trans [OF subseq_filter_left subseq_take])

lemma node_matches_set: "x \<in> set (node_matches f node k xs) \<Longrightarrow> x \<in> set xs"
  by (auto simp: node_matches_def split: if_splits dest: in_set_takeD)

lemma node_matches_node: "x \<in> set (node_matches f node k xs) \<Longrightarrow> node \<noteq> [] \<Longrightarrow> f x = node"
  by (auto simp: node_matches_def)

context badger_db
begin

lemma events_marshal:
  assumes "store_all content entry_ok st" and "e \<in> set (events_desc (content (st_db st) t))"
  shows "marshal_event e \<noteq> None"
  using assms events_desc_content [OF assms(1)] by auto

lemma listed_events_marshal:
  assumes "store_all content entry_ok st" and "ListEvents B st t who node limit = Inr es" and "e \<in> set es"
  shows "marshal_event e \<noteq> None"
  using assms(3) events_marshal [OF assms(1)]
  unfolding ListEvents_result [OF assms(1,2)] by (blast dest: in_set_takeD node_matches_set)

lemma listed_alerts_marshal:
  assumes "store_all content entry_ok st" and "ListAlerts B st t who node limit = Inr als" and "a \<in> set als"
  shows "marshal_alert a \<noteq> None"
proof -
  have "a \<in> set (alerts_desc (content (st_db st) t))"
    using assms(3) unfolding ListAlerts_result [OF assms(1,2)] by (blast dest: in_set_takeD node_matches_set)
  then show ?thesis using alerts_desc_content [OF assms(1)] by auto
qed

end

section \<open>Properties\<close>

text \<open>
  C6: the token guards the data: when the collector has an API token, a request that does not carry it
  gets the same reply whatever the collector holds, and \<^verbatim>\<open>401\<close> on the metrics page and on every route of
  the API; the liveness probe stays open.
\<close>

theorem no_token_no_data:
  assumes "apiToken \<noteq> []" and "rq_authorization rq \<noteq> ''Bearer '' @ apiToken"
  shows "exporter_Router staticDir apiToken c t who rq = exporter_Router staticDir apiToken c' t' who' rq \<and>
    (rq_method rq = ''GET'' \<and> rq_path rq \<in> {''/metrics'', ''/api/events'', ''/api/nodes'', ''/api/regions'', ''/api/stats'',
       ''/api/alerts'', ''/api/stats/windows''} \<longrightarrow>
      exporter_Router staticDir apiToken c t who rq = Reply 401 (error_json ''unauthorized'')) \<and>
    (rq_method rq = ''GET'' \<and> rq_path rq = ''/healthz'' \<longrightarrow>
      exporter_Router staticDir apiToken c t who rq = Reply 200 (JObj [(''status'', JStr ''ok'')]))"
  using assms
  by (auto simp: exporter_Router_def BearerAuth_iff Let_def static_route_def HasPrefix_def split: option.split)

definition demo_request_to :: "string \<Rightarrow> string \<Rightarrow> request" where
  "demo_request_to path auth = \<lparr>rq_method = ''GET'', rq_path = path, rq_authorization = auth, rq_query = (\<lambda>_. [])\<rparr>"

definition demo_collector :: "mem_db Store \<Rightarrow> mem_db collector" where
  "demo_collector st = \<lparr>cl_err_text = (\<lambda>_. ''error''), cl_db = mem_badger, cl_st = st, cl_reg = demo_registry,
     cl_detector = None\<rparr>"

theorem no_token_no_data_witness:
  "exporter_Router ''s'' ''secret'' (demo_collector demo_store) 0 FnWins (demo_request_to ''/metrics'' []) =
    Reply 401 (error_json ''unauthorized'')"
  using no_token_no_data [of "''secret''" "demo_request_to ''/metrics'' []" "''s''" "demo_collector demo_store" 0 FnWins
      "demo_collector demo_store" 0 FnWins]
  by (simp add: demo_request_to_def)

text \<open>The reply to a listing that succeeded: one document for each listed event of the region, decoding to it.\<close>

lemma get_events_listing:
  fixes reg :: registry
  assumes "badger_db B content" and "store_all content entry_ok st"
    and "asked_limit q = Some limit" and "ListEvents B st t who (q ''node'') limit = Inr es"
  defines "listed \<equiv> filter (\<lambda>e. q ''region'' \<noteq> [] \<longrightarrow> (\<exists>n \<in> set (ListByRegion reg (q ''region'')). an_NodeID n = ev_NodeID e)) es"
  shows "get_events err_text B st reg t who q = Reply 200 (JArr (map (the \<circ> marshal_event) listed))"
    and "map unmarshal_event (map (the \<circ> marshal_event) listed) = map Some listed"
proof -
  have f: "(if q ''region'' \<noteq> [] then filter (\<lambda>e. ev_NodeID e \<in> regionNodeSet reg (q ''region'')) es else es) = listed"
    by (auto simp: listed_def regionNodeSet_def image_iff eq_commute [of "ev_NodeID _"] intro!: filter_cong)
  have m: "e \<in> set listed \<Longrightarrow> marshal_event e \<noteq> None" for e
    using badger_db.listed_events_marshal [OF assms(1,2,4)] by (auto simp: listed_def)
  show "get_events err_text B st reg t who q = Reply 200 (JArr (map (the \<circ> marshal_event) listed))"
    using assms(3,4) json_list_ok [OF m] unfolding get_events_def parseLimit_asked by (simp only: f option.simps sum.simps)
  show "map unmarshal_event (map (the \<circ> marshal_event) listed) = map Some listed"
    by (rule decode_list [OF m unmarshal_marshal_event])
qed

lemma get_alerts_listing:
  fixes reg :: registry
  assumes "badger_db B content" and "store_all content entry_ok st" and "q ''region'' = []"
    and "asked_limit q = Some limit" and "ListAlerts B st t who (q ''node'') limit = Inr als"
  shows "get_alerts err_text B st reg t who q = Reply 200 (JArr (map (the \<circ> marshal_alert) als))"
    and "map unmarshal_alert (map (the \<circ> marshal_alert) als) = map Some als"
proof -
  have m: "a \<in> set als \<Longrightarrow> marshal_alert a \<noteq> None" for a
    using badger_db.listed_alerts_marshal [OF assms(1,2,5)] by blast
  show "get_alerts err_text B st reg t who q = Reply 200 (JArr (map (the \<circ> marshal_alert) als))"
    using assms(3-5) json_list_ok [OF m] by (simp add: get_alerts_def parseLimit_asked)
  show "map unmarshal_alert (map (the \<circ> marshal_alert) als) = map Some als"
    by (rule decode_list [OF m unmarshal_marshal_alert])
qed

text \<open>
  C26: what \<^verbatim>\<open>GET /api/events\<close> returns: a limit that is no positive number is refused; otherwise, unless the
  store fails, the reply is \<^verbatim>\<open>200\<close> with at most 1000 documents, which decode to events in the order of the
  store's listing, all of the requested node and of nodes registered in the requested region, and exactly
  the events of the region among the first \<open>limit\<close> of the listing. A listing can always be encoded.
\<close>

theorem events_endpoint:
  assumes "badger_db B content" and "store_all content entry_ok st"
  shows "(asked_limit q = None \<longrightarrow> get_events err_text B st reg t who q =
      Reply 400 (error_json ''invalid limit: must be a positive integer'')) \<and>
    (\<forall>limit err. asked_limit q = Some limit \<and> ListEvents B st t who (q ''node'') limit = Inl err \<longrightarrow>
      get_events err_text B st reg t who q = Reply 500 (error_json (err_text err))) \<and>
    (\<forall>limit es. asked_limit q = Some limit \<and> ListEvents B st t who (q ''node'') limit = Inr es \<longrightarrow>
      (\<exists>js. get_events err_text B st reg t who q = Reply 200 (JArr js) \<and> length js \<le> 1000 \<and>
        map unmarshal_event js = map Some (filter (\<lambda>e. q ''region'' \<noteq> [] \<longrightarrow>
          (\<exists>n \<in> set (ListByRegion reg (q ''region'')). an_NodeID n = ev_NodeID e)) es) \<and>
        subseq es (events_desc (content (st_db st) t)) \<and> (q ''node'' \<noteq> [] \<longrightarrow> (\<forall>e \<in> set es. ev_NodeID e = q ''node''))))"
proof (intro conjI allI impI; (elim conjE)?)
  fix limit es assume l: "asked_limit q = Some limit" "ListEvents B st t who (q ''node'') limit = Inr es"
  let ?es = "filter (\<lambda>e. q ''region'' \<noteq> [] \<longrightarrow> (\<exists>n \<in> set (ListByRegion reg (q ''region'')). an_NodeID n = ev_NodeID e)) es"
  note r = get_events_listing [OF assms l]
  have es: "es = take (nat limit) (node_matches ev_NodeID (q ''node'') 0 (events_desc (content (st_db st) t)))"
    using badger_db.ListEvents_result [OF assms l(2)] .
  have "length ?es \<le> nat limit" using es by (auto intro: le_trans [OF length_filter_le])
  then have "length ?es \<le> 1000" using asked_limit_bounds [OF l(1)] by linarith
  moreover have "subseq es (events_desc (content (st_db st) t))"
    unfolding es by (rule subseq_order.order_trans [OF subseq_take node_matches_subseq])
  moreover have "\<forall>e \<in> set es. ev_NodeID e = q ''node''" if "q ''node'' \<noteq> []"
    using that es by (auto dest!: in_set_takeD dest: node_matches_node)
  ultimately show "\<exists>js. get_events err_text B st reg t who q = Reply 200 (JArr js) \<and> length js \<le> 1000 \<and>
      map unmarshal_event js = map Some ?es \<and> subseq es (events_desc (content (st_db st) t)) \<and>
      (q ''node'' \<noteq> [] \<longrightarrow> (\<forall>e \<in> set es. ev_NodeID e = q ''node''))"
    using r by (intro exI [of _ "map (the \<circ> marshal_event) ?es"]) simp
qed (simp_all add: get_events_def parseLimit_asked)

theorem events_endpoint_witness:
  "\<exists>js. get_events (\<lambda>_. []) mem_badger (demo_saved ''e1'' (time_unix0 0) demo_store) demo_registry (time_unix0 1) FnWins (\<lambda>_. [])
      = Reply 200 (JArr js) \<and> length js \<le> 1000"
proof -
  note save = demo_saved_ok [OF demo_store_ok demo_clock(1), of "''e1''"]
  obtain es where "ListEvents mem_badger (demo_saved ''e1'' (time_unix0 0) demo_store) (time_unix0 1) FnWins [] 100 = Inr es"
    using mem.ListEvents_returns [OF save(2), of "time_unix0 1"] by (fastforce simp: mem_badger_def mem_view_def)
  with events_endpoint [OF mem.badger_db_axioms save(2), of "\<lambda>_. []"] show ?thesis
    by (fastforce simp: asked_limit_def)
qed

text \<open>
  C27: the roll-up of \<^verbatim>\<open>GET /api/regions\<close>: one summary for each region of a registered node, sorted by name
  without repetition, with the number of registered nodes of that region and the number of active ones among
  them. The node counts are positive and add up to the number of registered nodes, the active counts to the
  number of active ones.
\<close>

theorem regions_rollup:
  assumes "registry_inv reg"
  shows "\<exists>ss :: regionSummary list. get_regions reg = Reply 200 (JArr (map (\<lambda>s. JObj [(''region'', JStr (rs_Region s)),
        (''node_count'', JNum (rs_NodeCount s)), (''active_count'', JNum (rs_ActiveCount s))]) ss)) \<and>
    sorted (map rs_Region ss) \<and> distinct (map rs_Region ss) \<and> set (map rs_Region ss) = an_Region ` set (registry_List reg) \<and>
    (\<forall>s \<in> set ss. rs_NodeCount s = int (length (filter (\<lambda>n. an_Region n = rs_Region s) (registry_List reg))) \<and>
       rs_ActiveCount s = int (length (filter (\<lambda>n. an_Region n = rs_Region s \<and> an_Status n = ''active'') (registry_List reg))) \<and>
       0 < rs_NodeCount s \<and> rs_ActiveCount s \<le> rs_NodeCount s) \<and>
    sum_list (map rs_NodeCount ss) = int (length (registry_List reg)) \<and>
    sum_list (map rs_ActiveCount ss) = int (length (filter (\<lambda>n. an_Status n = ''active'') (registry_List reg)))"
proof -
  let ?act = "\<lambda>n. an_Status n = ''active''" and ?gs = "registry_Regions reg"
  let ?ss = "map (region_summary reg) ?gs"
  have cnt: "fold (\<lambda>n k. if ?act n then k + 1 else k) ns k = k + int (length (filter ?act ns))" for ns and k :: int
    by (induction ns arbitrary: k) auto
  have sm: "region_summary reg g = \<lparr>rs_Region = g, rs_NodeCount = int (length (ListByRegion reg g)),
      rs_ActiveCount = int (length (filter ?act (ListByRegion reg g)))\<rparr>" for g
    by (simp add: region_summary_def cnt Let_def)
  note P = regions_partition [OF assms]
  have sum: "sum_list (map (\<lambda>g. int (length (filter Q (ListByRegion reg g)))) gs) =
      int (size (filter_mset Q (mset (concat (map (ListByRegion reg) gs)))))" for Q gs
    by (induction gs) (simp_all flip: mset_filter)
  have regs: "set ?gs = an_Region ` set (registry_List reg)" by (auto simp: registry_Regions_def registry_List_def)
  have by_region: "ListByRegion reg g = filter (\<lambda>n. an_Region n = g) (registry_List reg)" if "g \<in> set ?gs" for g
    using that assms
    by (auto simp: registry_Regions_def ListByRegion_def normalizeRegion_def registry_List_def registry_inv_def node_ok_def)
  have pos: "filter (\<lambda>n. an_Region n = g) (registry_List reg) \<noteq> []" if "g \<in> set ?gs" for g
    using that regs by (auto simp: filter_empty_conv)
  have counts: "\<forall>s \<in> set ?ss. rs_NodeCount s = int (length (filter (\<lambda>n. an_Region n = rs_Region s) (registry_List reg))) \<and>
       rs_ActiveCount s = int (length (filter (\<lambda>n. an_Region n = rs_Region s \<and> ?act n) (registry_List reg))) \<and>
       0 < rs_NodeCount s \<and> rs_ActiveCount s \<le> rs_NodeCount s"
  proof
    fix s assume "s \<in> set ?ss"
    then obtain g where g: "g \<in> set ?gs" "s = region_summary reg g" by auto
    have "length (filter (\<lambda>n. an_Region n = g \<and> ?act n) ns) \<le> length (filter (\<lambda>n. an_Region n = g) ns)" for ns
      by (induction ns) auto
    then show "rs_NodeCount s = int (length (filter (\<lambda>n. an_Region n = rs_Region s) (registry_List reg))) \<and>
       rs_ActiveCount s = int (length (filter (\<lambda>n. an_Region n = rs_Region s \<and> ?act n) (registry_List reg))) \<and>
       0 < rs_NodeCount s \<and> rs_ActiveCount s \<le> rs_NodeCount s"
      using g pos [OF g(1)] by (simp add: sm by_region)
  qed
  have "sum_list (map rs_NodeCount ?ss) = int (length (registry_List reg))"
    using sum [of "\<lambda>_. True" ?gs] P by (simp add: sm comp_def)
  moreover have "sum_list (map rs_ActiveCount ?ss) = int (length (filter ?act (registry_List reg)))"
    using sum [of ?act ?gs] P by (simp add: sm comp_def flip: mset_filter)
  moreover have "get_regions reg = Reply 200 (JArr (map (\<lambda>s. JObj [(''region'', JStr (rs_Region s)),
      (''node_count'', JNum (rs_NodeCount s)), (''active_count'', JNum (rs_ActiveCount s))]) ?ss))"
    by (simp add: get_regions_def summary_json_def comp_def)
  moreover have "sorted (map rs_Region ?ss)" "distinct (map rs_Region ?ss)" "set (map rs_Region ?ss) = an_Region ` set (registry_List reg)"
    using P regs by (simp_all add: sm comp_def)
  ultimately show ?thesis using counts by - (rule exI [of _ ?ss], intro conjI, assumption+)
qed

theorem regions_rollup_witness:
  "\<exists>ss :: regionSummary list. get_regions demo_registry = Reply 200 (JArr (map (\<lambda>s. JObj [(''region'', JStr (rs_Region s)),
        (''node_count'', JNum (rs_NodeCount s)), (''active_count'', JNum (rs_ActiveCount s))]) ss)) \<and>
    sum_list (map rs_NodeCount ss) = 2"
  using regions_rollup [OF demo_registry_inv] by (auto simp: registry_List_def demo_registry_def)

end
