(* ===== verification/Aggregator.thy ===== *)
theory Aggregator
  imports Exporter
begin

text \<open>
  Package \<^verbatim>\<open>internal/aggregator\<close>: aggregate mode, which polls the REST APIs of the collectors of several
  regions and serves the merged view. The HTTP client is an argument: for a URL and the
  \<^verbatim>\<open>Authorization\<close> header it gives an error or the status and the body, the bytes that come and the error that ends
  them, if any. So is the JSON decoder that reads a document from such a stream. The client does not follow
  redirects, so a redirect is a reply with a status other than 200. \<^verbatim>\<open>url.Parse\<close> is an argument too. The polls of one round run concurrently and each ends
  with one assignment to the cache under its lock; a round is their sequence in the order in which they
  end, any permutation of the upstreams.

  Shown: which upstream specifications are accepted; that a round gives every region the data of its own
  collector, or none, whatever the order and whatever the others do; that the aggregator shows exactly
  what a reachable collector shows; that it reads at most 10 MB of a reply.
\<close>

section \<open>Model\<close>

definition maxResponseBytes :: int where "maxResponseBytes = 10 * 1024 * 1024"

record Upstream =
  up_Region :: string
  up_URL :: string

text \<open>\<open>url_parse\<close> gives the error of \<^verbatim>\<open>url.Parse\<close>, or scheme and host.\<close>

type_synonym url_parser = "string \<Rightarrow> string + string \<times> string"

definition parse_upstream :: "url_parser \<Rightarrow> string \<Rightarrow> string + Upstream" where
  "parse_upstream url_parse spec =
     (case Cut spec (CHR ''='') of
        (region0, raw0, ok) \<Rightarrow>
          let region = TrimSpace region0; raw = TrimSpace raw0 in
          if \<not> ok \<or> region = [] \<or> raw = [] then Inl (''invalid upstream '' @ sprintf_q spec @ '': expected region=url'')
          else
            let url = TrimRight raw (CHR ''/'') in
            case url_parse url of
              Inl err \<Rightarrow> Inl (''invalid upstream '' @ sprintf_q spec @ '': '' @ err)
            | Inr (scheme, host) \<Rightarrow>
                if scheme \<noteq> ''http'' \<and> scheme \<noteq> ''https''
                then Inl (''invalid upstream '' @ sprintf_q spec @ '': scheme must be http or https'')
                else if host = [] then Inl (''invalid upstream '' @ sprintf_q spec @ '': missing host'')
                else Inr \<lparr>up_Region = region, up_URL = url\<rparr>)"

fun parse_loop :: "url_parser \<Rightarrow> Upstream list \<Rightarrow> string list \<Rightarrow> string + Upstream list" where
  "parse_loop url_parse out [] = Inr out"
| "parse_loop url_parse out (spec # specs) =
     (case parse_upstream url_parse spec of
        Inl err \<Rightarrow> Inl err
      | Inr u \<Rightarrow> parse_loop url_parse (out @ [u]) specs)"

definition ParseUpstreams :: "url_parser \<Rightarrow> string list \<Rightarrow> string + Upstream list" where
  "ParseUpstreams url_parse specs = parse_loop url_parse [] specs"

record RegionStatus =
  rt_Region :: string
  rt_NodeCount :: int
  rt_ActiveCount :: int
  rt_Reachable :: bool
  rt_Error :: string

record regionState =
  rg_reachable :: bool
  rg_lastErr :: string
  rg_nodes :: "AgentNode list"
  rg_events :: "Event list"
  rg_alerts :: "Alert list"

definition empty_region :: regionState where
  "empty_region = \<lparr>rg_reachable = False, rg_lastErr = [], rg_nodes = [], rg_events = [], rg_alerts = []\<rparr>"

record Aggregator =
  ag_upstreams :: "Upstream list"
  ag_interval :: duration
  ag_eventLimit :: int
  ag_apiToken :: string
  ag_state :: "(string, regionState) gomap"

definition aggregator_New :: "Upstream list \<Rightarrow> duration \<Rightarrow> string \<Rightarrow> Aggregator" where
  "aggregator_New upstreams interval apiToken =
     \<lparr>ag_upstreams = upstreams, ag_interval = (if interval \<le> 0 then 10 * second else interval), ag_eventLimit = 100,
      ag_apiToken = apiToken, ag_state = fold (\<lambda>u. gm_put (up_Region u) empty_region) upstreams []\<rparr>"

subsection \<open>Fetching\<close>

text \<open>
  \<open>hc_NewRequest\<close> is the error of \<^verbatim>\<open>http.NewRequestWithContext\<close> for a URL, if any; \<open>hc_decode\<close> reads the first
  document of a stream, and \<open>hc_type_error\<close> is the text of the error for a document of the wrong shape.
\<close>

type_synonym stream = "string \<times> string option"

record http_client =
  hc_NewRequest :: "string \<Rightarrow> string option"
  hc_do :: "string \<Rightarrow> string option \<Rightarrow> string + int \<times> stream"
  hc_decode :: "stream \<Rightarrow> string + json"
  hc_type_error :: "json \<Rightarrow> string"

text \<open>\<^verbatim>\<open>io.LimitReader\<close>: the first \<open>n\<close> bytes, after which nothing more is read.\<close>

definition LimitReader :: "stream \<Rightarrow> int \<Rightarrow> stream" where
  "LimitReader r n = (if int (length (fst r)) < n then r else (take (nat n) (fst r), None))"

definition fetchJSON :: "http_client \<Rightarrow> Aggregator \<Rightarrow> string \<Rightarrow> (json \<Rightarrow> 'a option) \<Rightarrow> string + 'a" where
  "fetchJSON http a url decode =
     (case hc_NewRequest http url of
        Some err \<Rightarrow> Inl err
      | None \<Rightarrow>
          (case hc_do http url (if ag_apiToken a \<noteq> [] then Some (''Bearer '' @ ag_apiToken a) else None) of
             Inl err \<Rightarrow> Inl err
           | Inr (status, body) \<Rightarrow>
               if status \<noteq> 200 then Inl (''GET '' @ url @ '': status '' @ fmt_int status)
               else (case hc_decode http (LimitReader body maxResponseBytes) of
                 Inl err \<Rightarrow> Inl err
               | Inr j \<Rightarrow> (case decode j of None \<Rightarrow> Inl (hc_type_error http j) | Some x \<Rightarrow> Inr x))))"

definition node_of_members :: "(string \<times> json) list \<Rightarrow> AgentNode option" where
  "node_of_members ms =
     (case (get_string ms ''node_id'', get_string ms ''hostname'', get_string ms ''ip'', get_string ms ''version'',
            get_string ms ''region'', get_time ms ''registered'', get_time ms ''last_seen'', get_string ms ''status'') of
        (Some i, Some h, Some p, Some v, Some r, Some g, Some l, Some s) \<Rightarrow>
          Some \<lparr>an_NodeID = i, an_Hostname = h, an_IP = p, an_Version = v, an_Region = r, an_Registered = g,
                an_LastSeen = l, an_Status = s, an_inactiveSince = zero_time\<rparr>
      | _ \<Rightarrow> None)"

fun unmarshal_node :: "json \<Rightarrow> AgentNode option" where
  "unmarshal_node (JObj ms) = node_of_members ms"
| "unmarshal_node JNull = node_of_members []"
| "unmarshal_node _ = None"

fun unmarshal_list :: "(json \<Rightarrow> 'a option) \<Rightarrow> json \<Rightarrow> 'a list option" where
  "unmarshal_list decode (JArr js) = those (map decode js)"
| "unmarshal_list decode JNull = Some []"
| "unmarshal_list decode _ = None"

definition markUnreachable :: "Aggregator \<Rightarrow> Upstream \<Rightarrow> string \<Rightarrow> Aggregator" where
  "markUnreachable a u err =
     a\<lparr>ag_state := gm_put (up_Region u) (empty_region\<lparr>rg_lastErr := err\<rparr>) (ag_state a)\<rparr>"

definition pollUpstream :: "http_client \<Rightarrow> Upstream \<Rightarrow> Aggregator \<Rightarrow> Aggregator" where
  "pollUpstream http u a =
     (case fetchJSON http a (up_URL u @ ''/api/nodes'') (unmarshal_list unmarshal_node) of
        Inl err \<Rightarrow> markUnreachable a u err
      | Inr ns \<Rightarrow>
          (case fetchJSON http a (up_URL u @ ''/api/events?limit='' @ fmt_int (ag_eventLimit a)) (unmarshal_list unmarshal_event) of
             Inl err \<Rightarrow> markUnreachable a u err
           | Inr es \<Rightarrow>
               (case fetchJSON http a (up_URL u @ ''/api/alerts?limit='' @ fmt_int (ag_eventLimit a)) (unmarshal_list unmarshal_alert) of
                  Inl err \<Rightarrow> markUnreachable a u err
                | Inr als \<Rightarrow>
                    a\<lparr>ag_state := gm_put (up_Region u)
                      \<lparr>rg_reachable = True, rg_lastErr = [], rg_nodes = ns, rg_events = es, rg_alerts = als\<rparr> (ag_state a)\<rparr>)))"

text \<open>
  A round: \<open>order\<close> is the order in which the polls end and \<open>http\<close> what each of them gets. \<^verbatim>\<open>Start\<close> makes one
  round at once and one at every tick.
\<close>

definition PollOnce :: "(Upstream \<Rightarrow> http_client) \<Rightarrow> Upstream list \<Rightarrow> Aggregator \<Rightarrow> Aggregator" where
  "PollOnce http order a = fold (\<lambda>u. pollUpstream (http u) u) order a"

type_synonym poll_round = "(Upstream \<Rightarrow> http_client) \<times> Upstream list"

definition aggregator_Start :: "poll_round \<Rightarrow> poll_round list \<Rightarrow> Aggregator \<Rightarrow> Aggregator" where
  "aggregator_Start first ticks a = fold (\<lambda>(http, order). PollOnce http order) (first # ticks) a"

subsection \<open>The merged view\<close>

definition aggregator_Nodes :: "Aggregator \<Rightarrow> AgentNode list" where
  "aggregator_Nodes a = fold (\<lambda>(_, s) out. if rg_reachable s then out @ rg_nodes s else out) (ag_state a) []"

definition aggregator_Events :: "Aggregator \<Rightarrow> Event list" where
  "aggregator_Events a = fold (\<lambda>(_, s) out. if rg_reachable s then out @ rg_events s else out) (ag_state a) []"

definition aggregator_Alerts :: "Aggregator \<Rightarrow> Alert list" where
  "aggregator_Alerts a = fold (\<lambda>(_, s) out. if rg_reachable s then out @ rg_alerts s else out) (ag_state a) []"

definition region_status :: "string \<times> regionState \<Rightarrow> RegionStatus" where
  "region_status x =
     (case x of (region, s) \<Rightarrow>
        fold (\<lambda>n rs. let rs' = rs\<lparr>rt_NodeCount := rt_NodeCount rs + 1\<rparr>
                     in if an_Status n = ''active'' then rs'\<lparr>rt_ActiveCount := rt_ActiveCount rs' + 1\<rparr> else rs')
          (rg_nodes s)
          \<lparr>rt_Region = region, rt_NodeCount = 0, rt_ActiveCount = 0, rt_Reachable = rg_reachable s, rt_Error = rg_lastErr s\<rparr>)"

definition aggregator_Regions :: "Aggregator \<Rightarrow> RegionStatus list" where
  "aggregator_Regions a = sort_key rt_Region (map region_status (ag_state a))"

definition status_json :: "RegionStatus \<Rightarrow> json" where
  "status_json rs = JObj ([(''region'', JStr (rt_Region rs)), (''node_count'', JNum (rt_NodeCount rs)),
     (''active_count'', JNum (rt_ActiveCount rs)), (''reachable'', JBool (rt_Reachable rs))] @
     omit_str ''error'' (rt_Error rs))"

definition aggregator_Router :: "string \<Rightarrow> string \<Rightarrow> Aggregator \<Rightarrow> request \<Rightarrow> http_reply" where
  "aggregator_Router staticDir apiToken a rq =
     (case static_route staticDir rq of
        Some rep \<Rightarrow> rep
      | None \<Rightarrow>
          let path = rq_path rq; q = rq_query rq; auth = BearerAuth apiToken (rq_authorization rq) in
          if rq_method rq \<noteq> ''GET'' then no_route staticDir path
          else if path = ''/healthz'' then Reply 200 (JObj [(''mode'', JStr ''aggregator''), (''status'', JStr ''ok'')])
          else if path = ''/api/nodes'' then auth (json_list marshal_node
            (if q ''region'' \<noteq> [] then filter (\<lambda>n. an_Region n = q ''region'') (aggregator_Nodes a) else aggregator_Nodes a))
          else if path = ''/api/events'' then auth (json_list marshal_event (aggregator_Events a))
          else if path = ''/api/alerts'' then auth (json_list marshal_alert (aggregator_Alerts a))
          else if path = ''/api/regions'' then auth (json_list (\<lambda>rs. Some (status_json rs)) (aggregator_Regions a))
          else no_route staticDir path)"

section \<open>One poll\<close>

text \<open>What a poll stores for its region; it depends on the upstream's replies, the token and the limit only.\<close>

definition poll_result :: "http_client \<Rightarrow> string \<Rightarrow> int \<Rightarrow> Upstream \<Rightarrow> regionState" where
  "poll_result http token limit u =
     (let a = \<lparr>ag_upstreams = [], ag_interval = 0, ag_eventLimit = limit, ag_apiToken = token, ag_state = []\<rparr>;
          ns = fetchJSON http a (up_URL u @ ''/api/nodes'') (unmarshal_list unmarshal_node);
          es = fetchJSON http a (up_URL u @ ''/api/events?limit='' @ fmt_int limit) (unmarshal_list unmarshal_event);
          als = fetchJSON http a (up_URL u @ ''/api/alerts?limit='' @ fmt_int limit) (unmarshal_list unmarshal_alert)
      in case (ns, es, als) of
           (Inr ns, Inr es, Inr als) \<Rightarrow>
             \<lparr>rg_reachable = True, rg_lastErr = [], rg_nodes = ns, rg_events = es, rg_alerts = als\<rparr>
         | (Inl err, _, _) \<Rightarrow> empty_region\<lparr>rg_lastErr := err\<rparr>
         | (Inr _, Inl err, _) \<Rightarrow> empty_region\<lparr>rg_lastErr := err\<rparr>
         | (Inr _, Inr _, Inl err) \<Rightarrow> empty_region\<lparr>rg_lastErr := err\<rparr>)"

lemma fetchJSON_token:
  assumes "ag_apiToken a = ag_apiToken b"
  shows "fetchJSON http a url decode = fetchJSON http b url decode"
  unfolding fetchJSON_def assms by (rule refl)

lemma pollUpstream_result:
  "pollUpstream http u a = a\<lparr>ag_state := gm_put (up_Region u) (poll_result http (ag_apiToken a) (ag_eventLimit a) u) (ag_state a)\<rparr>"
proof -
  let ?b = "\<lparr>ag_upstreams = [], ag_interval = 0, ag_eventLimit = ag_eventLimit a, ag_apiToken = ag_apiToken a, ag_state = []\<rparr>"

  have g: "fetchJSON http a url decode = fetchJSON http ?b url decode" for url and decode :: "json \<Rightarrow> Event list option"
    by (rule fetchJSON_token) simp
  have h: "fetchJSON http a url decode = fetchJSON http ?b url decode" for url and decode :: "json \<Rightarrow> Alert list option"
    by (rule fetchJSON_token) simp
  have i: "fetchJSON http a url decode = fetchJSON http ?b url decode" for url and decode :: "json \<Rightarrow> AgentNode list option"
    by (rule fetchJSON_token) simp
  show ?thesis
    unfolding pollUpstream_def poll_result_def markUnreachable_def Let_def g h i by (simp split: sum.split)
qed

text \<open>The cache has one entry for each upstream.\<close>

definition aggregator_inv :: "Aggregator \<Rightarrow> bool" where
  "aggregator_inv a = (gm_wf (ag_state a) \<and> fst ` set (ag_state a) = up_Region ` set (ag_upstreams a))"

definition puts :: "('u \<Rightarrow> 'k) \<Rightarrow> ('u \<Rightarrow> 'v) \<Rightarrow> 'u list \<Rightarrow> ('k, 'v) gomap \<Rightarrow> ('k, 'v) gomap" where
  "puts key val us m = fold (\<lambda>u. gm_put (key u) (val u)) us m"

lemma puts_wf: "gm_wf m \<Longrightarrow> gm_wf (puts key val us m)"
  by (induction us arbitrary: m) (simp_all add: puts_def)

lemma puts_keys: "fst ` set (puts key val us m) = key ` set us \<union> fst ` set m"
  by (induction us arbitrary: m) (auto simp: puts_def dom_map_of_conv_image_fst [symmetric])

lemma puts_other: "k \<notin> key ` set us \<Longrightarrow> gm_get (puts key val us m) k = gm_get m k"
  by (induction us arbitrary: m) (auto simp: puts_def)

lemma puts_get: "distinct (map key us) \<Longrightarrow> u \<in> set us \<Longrightarrow> gm_get (puts key val us m) (key u) = Some (val u)"
proof (induction us arbitrary: m)
  case (Cons v us)
  then show ?case
    using puts_other [of "key v" key us val "gm_put (key v) (val v) m"] by (cases "u = v") (auto simp: puts_def)
qed simp

lemma PollOnce_puts:
  "PollOnce http order a = a\<lparr>ag_state := puts up_Region (\<lambda>u. poll_result (http u) (ag_apiToken a) (ag_eventLimit a) u) order (ag_state a)\<rparr>"
proof (induction order arbitrary: a)
  case (Cons u order)
  from Cons [of "pollUpstream (http u) u a"] show ?case by (simp add: PollOnce_def puts_def pollUpstream_result)
qed (simp add: PollOnce_def puts_def)

section \<open>A round\<close>

lemma merged_fold:
  "fold (\<lambda>(_, s) out. if reach s then out @ f s else out) xs acc = acc @ concat (map (\<lambda>(_, s). if reach s then f s else []) xs)"
  by (induction xs arbitrary: acc) auto

lemma aggregator_views:
  "aggregator_Nodes a = concat (map (\<lambda>(_, s). if rg_reachable s then rg_nodes s else []) (ag_state a))"
  "aggregator_Events a = concat (map (\<lambda>(_, s). if rg_reachable s then rg_events s else []) (ag_state a))"
  "aggregator_Alerts a = concat (map (\<lambda>(_, s). if rg_reachable s then rg_alerts s else []) (ag_state a))"
  by (simp_all add: aggregator_Nodes_def aggregator_Events_def aggregator_Alerts_def merged_fold)

text \<open>A map with the keys of \<open>us\<close> and the values \<open>val\<close> is, as a multiset, the image of \<open>us\<close>.\<close>

lemma map_mset:
  assumes "gm_wf m" and "distinct (map key us)" and "fst ` set m = key ` set us"
    and "\<And>u. u \<in> set us \<Longrightarrow> gm_get m (key u) = Some (val u)"
  shows "mset m = image_mset (\<lambda>u. (key u, val u)) (mset us)"
proof -
  let ?us = "map (\<lambda>u. (key u, val u)) us"
  have "set m = set ?us"
  proof (rule set_eqI)
    fix x show "x \<in> set m \<longleftrightarrow> x \<in> set ?us"
    proof
      assume x: "x \<in> set m"
      then obtain u where u: "u \<in> set us" "fst x = key u" using assms(3) by (metis imageE imageI)
      have "gm_get m (fst x) = Some (snd x)" using x gm_get_in_set [OF assms(1), of "fst x" "snd x"] by simp
      with u assms(4) have "x = (key u, val u)" by (metis option.inject prod.collapse)
      with u show "x \<in> set ?us" by auto
    next
      assume "x \<in> set ?us"
      with assms(1,4) show "x \<in> set m" by (auto simp: gm_get_in_set)
    qed
  qed
  moreover have "distinct m" using assms(1) by (simp add: gm_wf_def distinct_map)
  moreover have "distinct ?us" using assms(2) by (auto simp: distinct_map inj_on_def)
  ultimately have "mset m = mset ?us" using set_eq_iff_mset_eq_distinct by blast
  then show ?thesis by simp
qed

lemma mset_concat_map: "mset (concat (map f xs)) = (\<Sum>x\<in>#mset xs. mset (f x))"
  by (induction xs) simp_all

lemma PollOnce_state:
  assumes "aggregator_inv a" and "distinct (map up_Region (ag_upstreams a))" and "mset order = mset (ag_upstreams a)"
  shows "aggregator_inv (PollOnce http order a)"
    and "u \<in> set (ag_upstreams a) \<Longrightarrow> gm_get (ag_state (PollOnce http order a)) (up_Region u) =
      Some (poll_result (http u) (ag_apiToken a) (ag_eventLimit a) u)"
    and "mset (ag_state (PollOnce http order a)) =
      image_mset (\<lambda>u. (up_Region u, poll_result (http u) (ag_apiToken a) (ag_eventLimit a) u)) (mset (ag_upstreams a))"
proof -
  let ?a = "PollOnce http order a"
  have o: "distinct (map up_Region order)" "set order = set (ag_upstreams a)"
    using assms(2,3) by (metis mset_eq_imp_distinct_iff mset_map, metis mset_eq_setD)
  show i: "aggregator_inv ?a" using assms(1) o by (auto simp: aggregator_inv_def PollOnce_puts puts_wf puts_keys)
  show g: "gm_get (ag_state ?a) (up_Region u) = Some (poll_result (http u) (ag_apiToken a) (ag_eventLimit a) u)"
    if "u \<in> set (ag_upstreams a)" for u
    unfolding PollOnce_puts using puts_get [OF o(1), of u] that o(2) by simp
  show "mset (ag_state ?a) =
      image_mset (\<lambda>u. (up_Region u, poll_result (http u) (ag_apiToken a) (ag_eventLimit a) u)) (mset (ag_upstreams a))"
  proof (rule map_mset [OF _ assms(2)])
    show "gm_wf (ag_state ?a)" using i by (simp add: aggregator_inv_def)
    show "fst ` set (ag_state ?a) = up_Region ` set (ag_upstreams a)" using i by (simp add: aggregator_inv_def PollOnce_puts)
  qed (rule g)
qed

lemma poll_result_empty:
  "\<not> rg_reachable (poll_result http token limit u) \<Longrightarrow> rg_nodes (poll_result http token limit u) = [] \<and>
    rg_events (poll_result http token limit u) = [] \<and> rg_alerts (poll_result http token limit u) = []"
  by (auto simp: poll_result_def Let_def empty_region_def split: sum.splits)

lemma merged_view:
  assumes "mset m = image_mset (\<lambda>u. (key u, res u)) (mset us)" and "\<And>u. \<not> rg_reachable (res u) \<Longrightarrow> f (res u) = []"
  shows "mset (concat (map (\<lambda>(_, s). if rg_reachable s then f s else []) m)) = (\<Sum>u\<in>#mset us. mset (f (res u)))"
  unfolding mset_concat_map assms(1) using assms(2)
  by (auto simp: image_mset.compositionality comp_def intro!: arg_cong [where f = sum_mset] image_mset_cong)

lemma aggregator_New_inv: "aggregator_inv (aggregator_New upstreams interval token)"
  using puts_wf [of "[]" up_Region "\<lambda>_. empty_region" upstreams] puts_keys [of up_Region "\<lambda>_. empty_region" upstreams "[]"]
  by (simp add: aggregator_inv_def aggregator_New_def puts_def gm_wf_def)

text \<open>Rounds keep the configuration and the invariant.\<close>

lemma PollOnce_config [simp]:
  "ag_upstreams (PollOnce http order a) = ag_upstreams a" "ag_apiToken (PollOnce http order a) = ag_apiToken a"
  "ag_eventLimit (PollOnce http order a) = ag_eventLimit a"
  by (simp_all add: PollOnce_puts)

lemma rounds_state:
  assumes "aggregator_inv a" and "distinct (map up_Region (ag_upstreams a))" and "\<forall>(http, order) \<in> set rounds. mset order = mset (ag_upstreams a)"
  defines "a' \<equiv> fold (\<lambda>(http, order). PollOnce http order) rounds a"
  shows "aggregator_inv a'" "ag_upstreams a' = ag_upstreams a" "ag_apiToken a' = ag_apiToken a" "ag_eventLimit a' = ag_eventLimit a"
  using assms(1-3) unfolding a'_def
  by (induction rounds arbitrary: a) (auto simp: PollOnce_state(1))

text \<open>What the last round got from a collector is in the merged view, and on the aggregator's route.\<close>

lemma merged_event:
  assumes "aggregator_inv a" and "distinct (map up_Region (ag_upstreams a))" and "mset order = mset (ag_upstreams a)"
    and "u \<in> set (ag_upstreams a)" and "rg_reachable (poll_result (http u) (ag_apiToken a) (ag_eventLimit a) u)"
    and "e \<in> set (rg_events (poll_result (http u) (ag_apiToken a) (ag_eventLimit a) u))"
  shows "e \<in> set (aggregator_Events (PollOnce http order a))"
proof -
  have "(up_Region u, poll_result (http u) (ag_apiToken a) (ag_eventLimit a) u) \<in> set (ag_state (PollOnce http order a))"
    using PollOnce_state(2) [OF assms(1-4), of http] by (auto dest: map_of_SomeD)
  then show ?thesis using assms(5,6) unfolding aggregator_views by force
qed

lemma aggregator_events_route:
  assumes "\<forall>e \<in> set (aggregator_Events a). json_time_ok (ev_Timestamp e)"
    and "rq_method rq = ''GET''" "rq_path rq = ''/api/events''" "rq_authorization rq = ''Bearer '' @ token"
  shows "\<exists>js. aggregator_Router staticDir token a rq = Reply 200 (JArr js) \<and> map unmarshal_event js = map Some (aggregator_Events a)"
proof -
  let ?js = "map (the \<circ> marshal_event) (aggregator_Events a)"
  have m: "marshal_event e \<noteq> None" if "e \<in> set (aggregator_Events a)" for e using assms(1) that by (simp add: marshal_event_def)
  have "aggregator_Router staticDir token a rq = Reply 200 (JArr ?js)"
    using assms(2-4) json_list_ok [OF m] by (simp add: aggregator_Router_def static_route_def HasPrefix_def BearerAuth_iff Let_def)
  moreover have "map unmarshal_event ?js = map Some (aggregator_Events a)"
    using m by (auto intro!: unmarshal_marshal_event)
  ultimately show ?thesis by blast
qed

text \<open>
  Upstreams of the same region, which \<^verbatim>\<open>ParseUpstreams\<close> accepts, overwrite each other: the region shows the poll
  that ends last.
\<close>

lemma same_region_overwritten:
  assumes "up_Region u = up_Region v"
  shows "gm_get (ag_state (PollOnce http [u, v] a)) (up_Region u) = Some (poll_result (http v) (ag_apiToken a) (ag_eventLimit a) v)"
  using assms by (simp add: PollOnce_puts puts_def)

section \<open>Properties\<close>

text \<open>
  C15: regions are isolated from each other. When the upstreams have different regions, a round leaves, in
  whatever order its polls end, each region with what its own collector answered in this round: its nodes,
  events and alerts when all three requests succeeded, and otherwise nothing but the error. The merged
  views are the data of the reachable regions, each once; nothing of earlier rounds remains.
\<close>

theorem poll_isolates_regions:
  assumes "aggregator_inv a" and "distinct (map up_Region (ag_upstreams a))" and "mset order = mset (ag_upstreams a)"
  shows "let a' = PollOnce http order a; res = (\<lambda>u. poll_result (http u) (ag_apiToken a) (ag_eventLimit a) u) in
    aggregator_inv a' \<and>
    (\<forall>u \<in> set (ag_upstreams a). gm_get (ag_state a') (up_Region u) = Some (res u)) \<and>
    (\<forall>u. \<not> rg_reachable (res u) \<longrightarrow> rg_nodes (res u) = [] \<and> rg_events (res u) = [] \<and> rg_alerts (res u) = []) \<and>
    mset (aggregator_Nodes a') = (\<Sum>u\<in>#mset (ag_upstreams a). mset (rg_nodes (res u))) \<and>
    mset (aggregator_Events a') = (\<Sum>u\<in>#mset (ag_upstreams a). mset (rg_events (res u))) \<and>
    mset (aggregator_Alerts a') = (\<Sum>u\<in>#mset (ag_upstreams a). mset (rg_alerts (res u)))"
proof -
  note P = PollOnce_state [OF assms, where http = http]
  show ?thesis
    unfolding Let_def aggregator_views
    using P(1,2) poll_result_empty merged_view [OF P(3), where f = rg_nodes]
      merged_view [OF P(3), where f = rg_events] merged_view [OF P(3), where f = rg_alerts] by simp
qed

text \<open>Two upstreams, of which the second does not answer.\<close>

definition demo_upstream :: "string \<Rightarrow> Upstream" where
  "demo_upstream r = \<lparr>up_Region = r, up_URL = ''http://'' @ r\<rparr>"

definition demo_http :: "bool \<Rightarrow> http_client" where
  "demo_http up = \<lparr>hc_NewRequest = (\<lambda>_. None), hc_do = (\<lambda>url auth. if up then Inr (200, ''[]'', None) else Inl ''refused''),
     hc_decode = (\<lambda>(bytes, _). if bytes = ''[]'' then Inr (JArr []) else Inl ''unexpected EOF''), hc_type_error = (\<lambda>_. [])\<rparr>"

definition demo_aggregator :: Aggregator where
  "demo_aggregator = aggregator_New [demo_upstream ''eu'', demo_upstream ''us''] 0 []"

theorem poll_isolates_regions_witness:
  "\<exists>s. gm_get (ag_state (PollOnce (\<lambda>u. demo_http (up_Region u = ''eu'')) [demo_upstream ''us'', demo_upstream ''eu''] demo_aggregator)) ''eu''
      = Some s \<and> rg_reachable s"
proof -
  have "aggregator_inv demo_aggregator" by (simp add: demo_aggregator_def aggregator_New_inv)
  moreover have u: "ag_upstreams demo_aggregator = [demo_upstream ''eu'', demo_upstream ''us'']"
    by (simp add: demo_aggregator_def aggregator_New_def)
  moreover have "distinct (map up_Region (ag_upstreams demo_aggregator))"
    "mset [demo_upstream ''us'', demo_upstream ''eu''] = mset (ag_upstreams demo_aggregator)"
    by (simp_all add: u demo_upstream_def)
  ultimately have "gm_get (ag_state (PollOnce (\<lambda>u. demo_http (up_Region u = ''eu'')) [demo_upstream ''us'', demo_upstream ''eu''] demo_aggregator))
      (up_Region (demo_upstream ''eu'')) = Some (poll_result (demo_http True) (ag_apiToken demo_aggregator) (ag_eventLimit demo_aggregator) (demo_upstream ''eu''))"
    using poll_isolates_regions [of demo_aggregator "[demo_upstream ''us'', demo_upstream ''eu'']" "\<lambda>u. demo_http (up_Region u = ''eu'')"]
    unfolding Let_def by (auto simp: demo_upstream_def)
  then show ?thesis by (simp add: demo_upstream_def poll_result_def fetchJSON_def demo_http_def LimitReader_def maxResponseBytes_def)
qed

text \<open>
  \<^verbatim>\<open>ParseUpstreams\<close> accepts a list exactly when it accepts each specification, in order: a region and a
  URL around the first equals sign, neither of them blank, where the URL without its trailing slashes
  parses with scheme http or https and a host.
\<close>

lemma ParseUpstreams_spec:
  "ParseUpstreams url_parse specs = Inr us \<longleftrightarrow>
    list_all2 (\<lambda>spec u. \<exists>region url scheme host. Cut spec (CHR ''='') = (region, url, True) \<and>
      TrimSpace region \<noteq> [] \<and> TrimSpace url \<noteq> [] \<and>
      url_parse (TrimRight (TrimSpace url) (CHR ''/'')) = Inr (scheme, host) \<and> scheme \<in> {''http'', ''https''} \<and> host \<noteq> [] \<and>
      u = \<lparr>up_Region = TrimSpace region, up_URL = TrimRight (TrimSpace url) (CHR ''/'')\<rparr>) specs us"
proof -
  let ?P = "\<lambda>spec u. \<exists>region url scheme host. Cut spec (CHR ''='') = (region, url, True) \<and>
      TrimSpace region \<noteq> [] \<and> TrimSpace url \<noteq> [] \<and>
      url_parse (TrimRight (TrimSpace url) (CHR ''/'')) = Inr (scheme, host) \<and> scheme \<in> {''http'', ''https''} \<and> host \<noteq> [] \<and>
      u = \<lparr>up_Region = TrimSpace region, up_URL = TrimRight (TrimSpace url) (CHR ''/'')\<rparr>"
  have p: "parse_upstream url_parse spec = Inr u \<longleftrightarrow> ?P spec u" for spec u
    by (cases "Cut spec (CHR ''='')") (auto simp: parse_upstream_def Let_def split: sum.split prod.split)
  have "parse_loop url_parse out specs = Inr us \<longleftrightarrow> (\<exists>vs. us = out @ vs \<and> list_all2 ?P specs vs)" for out
  proof (induction specs arbitrary: out)
    case (Cons spec specs)
    show ?case
    proof (cases "parse_upstream url_parse spec")
      case (Inl err)
      then show ?thesis using p [of spec] by (auto simp: list_all2_Cons1)
    next
      case (Inr u)
      then have "?P spec v \<longleftrightarrow> v = u" for v using p [of spec v] by auto
      then show ?thesis using Inr Cons [of "out @ [u]"] by (auto simp: list_all2_Cons1)
    qed
  qed auto
  then show ?thesis by (simp add: ParseUpstreams_def)
qed

section \<open>The aggregator in front of a collector\<close>

definition get_request :: "string \<Rightarrow> (string \<Rightarrow> string) \<Rightarrow> string option \<Rightarrow> request" where
  "get_request path q auth =
     \<lparr>rq_method = ''GET'', rq_path = path, rq_authorization = (case auth of None \<Rightarrow> [] | Some h \<Rightarrow> h), rq_query = q\<rparr>"

definition limit_query :: "int \<Rightarrow> string \<Rightarrow> string" where
  "limit_query n k = (if k = ''limit'' then fmt_int n else [])"

text \<open>
  The client reaches a collector behind a URL: the three requests of a poll are answered by the router of
  the collector, in the states \<open>c1\<close>, \<open>c2\<close> and \<open>c3\<close> it has at the time. The documents come as texts of at most 10 MB,
  from which the decoder reads them back.
\<close>

definition answers :: "http_client \<Rightarrow> (json \<Rightarrow> string) \<Rightarrow> string \<Rightarrow> (string option \<Rightarrow> http_reply) \<Rightarrow> bool" where
  "answers http render url reply =
     (hc_NewRequest http url = None \<and>
      (\<forall>auth s j. reply auth = Reply s j \<longrightarrow> hc_do http url auth = Inr (s, render j, None) \<and>
         hc_decode http (render j, None) = Inr j \<and> int (length (render j)) \<le> maxResponseBytes))"

definition reaches ::
  "http_client \<Rightarrow> string \<Rightarrow> string \<Rightarrow> string \<Rightarrow> int \<Rightarrow> 'db collector \<Rightarrow> 'db collector \<Rightarrow> 'db collector \<Rightarrow> time \<Rightarrow> bool" where
  "reaches http url staticDir apiToken limit c1 c2 c3 t =
     (\<exists>render. answers http render (url @ ''/api/nodes'')
          (\<lambda>auth. exporter_Router staticDir apiToken c1 t FnWins (get_request ''/api/nodes'' (\<lambda>_. []) auth)) \<and>
        answers http render (url @ ''/api/events?limit='' @ fmt_int limit)
          (\<lambda>auth. exporter_Router staticDir apiToken c2 t FnWins (get_request ''/api/events'' (limit_query limit) auth)) \<and>
        answers http render (url @ ''/api/alerts?limit='' @ fmt_int limit)
          (\<lambda>auth. exporter_Router staticDir apiToken c3 t FnWins (get_request ''/api/alerts'' (limit_query limit) auth)))"

lemma LimitReader_fits: "int (length bytes) \<le> n \<Longrightarrow> LimitReader (bytes, None) n = (bytes, None)"
  by (auto simp: LimitReader_def)

lemma answers_fetch:
  assumes "answers http render url reply" and "reply (if ag_apiToken a \<noteq> [] then Some (''Bearer '' @ ag_apiToken a) else None) = Reply 200 j"
    and "decode j = Some x"
  shows "fetchJSON http a url decode = Inr x"
  using assms by (simp add: answers_def fetchJSON_def LimitReader_fits)

lemma answers_refused:
  assumes "answers http render url reply" and "reply (if ag_apiToken a \<noteq> [] then Some (''Bearer '' @ ag_apiToken a) else None) = Reply s j"
    and "s \<noteq> 200"
  shows "fetchJSON http a url decode = Inl (''GET '' @ url @ '': status '' @ fmt_int s)"
  using assms by (simp add: answers_def fetchJSON_def)

lemma unmarshal_node_json: "unmarshal_node (node_json n) = Some (n\<lparr>an_inactiveSince := zero_time\<rparr>)"
  by (cases n) (simp add: node_json_def node_of_members_def decode_defs)

lemma unmarshal_nodes:
  assumes "\<And>n. n \<in> set ns \<Longrightarrow> json_time_ok (an_Registered n) \<and> json_time_ok (an_LastSeen n)"
  shows "json_list marshal_node ns = Reply 200 (JArr (map node_json ns))"
    and "those (map unmarshal_node (map node_json ns)) = Some (map (\<lambda>n. n\<lparr>an_inactiveSince := zero_time\<rparr>) ns)"
  using assms by (auto simp: json_list_Reply marshal_node_def those_Some_iff unmarshal_node_json)

lemma auth_pass:
  "BearerAuth token (case (if token \<noteq> [] then Some (''Bearer '' @ token) else None) of None \<Rightarrow> [] | Some h \<Rightarrow> h) rep = rep"
  by (simp add: BearerAuth_iff)

lemma limit_query_asked: "asked_limit (limit_query 100) = Some 100"
  by (simp add: asked_limit_def limit_query_def) code_simp

text \<open>What the router answers to a request that passes authentication, on the routes a poll uses.\<close>

lemma router_routes:
  assumes "\<And>rep. BearerAuth token (case auth of None \<Rightarrow> [] | Some h \<Rightarrow> h) rep = f rep"
  shows "exporter_Router staticDir token c t who (get_request ''/api/nodes'' q auth) = f (get_nodes (cl_reg c) q)"
    "exporter_Router staticDir token c t who (get_request ''/api/events'' q auth) =
      f (get_events (cl_err_text c) (cl_db c) (cl_st c) (cl_reg c) t who q)"
    "exporter_Router staticDir token c t who (get_request ''/api/alerts'' q auth) =
      f (get_alerts (cl_err_text c) (cl_db c) (cl_st c) (cl_reg c) t who q)"
  by (simp_all add: exporter_Router_def get_request_def static_route_def HasPrefix_def Let_def assms)

context badger_db
begin

lemma get_events_listed:
  assumes "store_all content entry_ok st" and "ListEvents B st t who [] 100 = Inr es"
  shows "\<exists>js. get_events err_text B st reg t who (limit_query 100) = Reply 200 (JArr js) \<and> those (map unmarshal_event js) = Some es"
proof -
  have m: "e \<in> set es \<Longrightarrow> marshal_event e \<noteq> None" for e using listed_events_marshal [OF assms] .
  have q: "limit_query 100 ''node'' = []" "limit_query 100 ''region'' = []" by (simp_all add: limit_query_def)
  have "get_events err_text B st reg t who (limit_query 100) = Reply 200 (JArr (map (the \<circ> marshal_event) es))"
    using assms(2) json_list_ok [OF m] by (simp add: get_events_def parseLimit_asked limit_query_asked q)
  then show ?thesis using decode_list [OF m unmarshal_marshal_event] by (simp add: those_Some_iff)
qed

lemma get_alerts_listed:
  assumes "store_all content entry_ok st" and "ListAlerts B st t who [] 100 = Inr als"
  shows "\<exists>js. get_alerts err_text B st reg t who (limit_query 100) = Reply 200 (JArr js) \<and> those (map unmarshal_alert js) = Some als"
proof -
  have m: "a \<in> set als \<Longrightarrow> marshal_alert a \<noteq> None" for a using listed_alerts_marshal [OF assms] .
  have q: "limit_query 100 ''node'' = []" "limit_query 100 ''region'' = []" by (simp_all add: limit_query_def)
  have "get_alerts err_text B st reg t who (limit_query 100) = Reply 200 (JArr (map (the \<circ> marshal_alert) als))"
    using assms(2) json_list_ok [OF m] by (simp add: get_alerts_def parseLimit_asked limit_query_asked q)
  then show ?thesis using decode_list [OF m unmarshal_marshal_alert] by (simp add: those_Some_iff)
qed

end

lemma fmt_401: "fmt_int 401 = ''401''"
  by code_simp

text \<open>What a poll with the collector's token makes of a collector it reaches.\<close>

lemma poll_reaching:
  assumes "badger_db B content" and "cl_db c2 = B" and "cl_db c3 = B"
    and "store_all content entry_ok (cl_st c2)" and "store_all content entry_ok (cl_st c3)"
    and "\<forall>n \<in> set (registry_List (cl_reg c1)). json_time_ok (an_Registered n) \<and> json_time_ok (an_LastSeen n)"
    and "ListEvents B (cl_st c2) t FnWins [] 100 = Inr es" and "ListAlerts B (cl_st c3) t FnWins [] 100 = Inr als"
    and "reaches http (up_URL u) staticDir apiToken 100 c1 c2 c3 t"
  shows "poll_result http apiToken 100 u = \<lparr>rg_reachable = True, rg_lastErr = [],
    rg_nodes = map (\<lambda>n. n\<lparr>an_inactiveSince := zero_time\<rparr>) (registry_List (cl_reg c1)), rg_events = es, rg_alerts = als\<rparr>"
proof -
  obtain render where R: "answers http render (up_URL u @ ''/api/nodes'')
        (\<lambda>auth. exporter_Router staticDir apiToken c1 t FnWins (get_request ''/api/nodes'' (\<lambda>_. []) auth))"
      "answers http render (up_URL u @ ''/api/events?limit='' @ fmt_int 100)
        (\<lambda>auth. exporter_Router staticDir apiToken c2 t FnWins (get_request ''/api/events'' (limit_query 100) auth))"
      "answers http render (up_URL u @ ''/api/alerts?limit='' @ fmt_int 100)
        (\<lambda>auth. exporter_Router staticDir apiToken c3 t FnWins (get_request ''/api/alerts'' (limit_query 100) auth))"
    using assms(9) by (auto simp: reaches_def)
  note N = unmarshal_nodes [of "registry_List (cl_reg c1)"]
  obtain je where je: "get_events (cl_err_text c2) B (cl_st c2) (cl_reg c2) t FnWins (limit_query 100) = Reply 200 (JArr je)"
    "those (map unmarshal_event je) = Some es"
    using badger_db.get_events_listed [OF assms(1,4,7)] by blast
  obtain ja where ja: "get_alerts (cl_err_text c3) B (cl_st c3) (cl_reg c3) t FnWins (limit_query 100) = Reply 200 (JArr ja)"
    "those (map unmarshal_alert ja) = Some als"
    using badger_db.get_alerts_listed [OF assms(1,5,8)] by blast
  let ?auth = "if apiToken \<noteq> [] then Some (''Bearer '' @ apiToken) else None"
  let ?a = "\<lparr>ag_upstreams = [], ag_interval = 0, ag_eventLimit = 100, ag_apiToken = apiToken, ag_state = []\<rparr>"
  note P = router_routes [of apiToken ?auth "\<lambda>rep. rep", OF auth_pass]
  have auth: "(if ag_apiToken ?a \<noteq> [] then Some (''Bearer '' @ ag_apiToken ?a) else None) = ?auth" by simp
  have "fetchJSON http ?a (up_URL u @ ''/api/nodes'') (unmarshal_list unmarshal_node) =
      Inr (map (\<lambda>n. n\<lparr>an_inactiveSince := zero_time\<rparr>) (registry_List (cl_reg c1)))"
  proof (rule answers_fetch [OF R(1)])
    show "exporter_Router staticDir apiToken c1 t FnWins (get_request ''/api/nodes'' (\<lambda>_. [])
        (if ag_apiToken ?a \<noteq> [] then Some (''Bearer '' @ ag_apiToken ?a) else None)) =
      Reply 200 (JArr (map node_json (registry_List (cl_reg c1))))"
      unfolding auth P using N(1) assms(6) by (simp add: get_nodes_def)
  qed (use N(2) assms(6) in \<open>simp del: map_map\<close>)
  moreover have "fetchJSON http ?a (up_URL u @ ''/api/events?limit='' @ fmt_int 100) (unmarshal_list unmarshal_event) = Inr es"
  proof (rule answers_fetch [OF R(2)])
    show "exporter_Router staticDir apiToken c2 t FnWins (get_request ''/api/events'' (limit_query 100)
        (if ag_apiToken ?a \<noteq> [] then Some (''Bearer '' @ ag_apiToken ?a) else None)) = Reply 200 (JArr je)"
      unfolding auth P assms(2) by (rule je(1))
  qed (simp add: je(2))
  moreover have "fetchJSON http ?a (up_URL u @ ''/api/alerts?limit='' @ fmt_int 100) (unmarshal_list unmarshal_alert) = Inr als"
  proof (rule answers_fetch [OF R(3)])
    show "exporter_Router staticDir apiToken c3 t FnWins (get_request ''/api/alerts'' (limit_query 100)
        (if ag_apiToken ?a \<noteq> [] then Some (''Bearer '' @ ag_apiToken ?a) else None)) = Reply 200 (JArr ja)"
      unfolding auth P assms(3) by (rule ja(1))
  qed (simp add: ja(2))
  ultimately show ?thesis by (simp add: poll_result_def)
qed

text \<open>
  C16: the aggregator shows what the collector shows. When it reaches a collector, whose replies are at most 10 MB
  long, and has the same API token, a poll stores the collector's registered nodes (without the private time of their deactivation)
  and exactly the events and alerts that the collector lists, after encoding, transfer and decoding. With
  another token than the collector's the region is unreachable with the status 401 as its error.
\<close>

theorem collector_mirrored:
  assumes "badger_db B content" and "cl_db c2 = B" and "cl_db c3 = B"
    and "store_all content entry_ok (cl_st c2)" and "store_all content entry_ok (cl_st c3)"
    and "\<forall>n \<in> set (registry_List (cl_reg c1)). json_time_ok (an_Registered n) \<and> json_time_ok (an_LastSeen n)"
    and "ListEvents B (cl_st c2) t FnWins [] 100 = Inr es" and "ListAlerts B (cl_st c3) t FnWins [] 100 = Inr als"
    and "reaches http (up_URL u) staticDir apiToken 100 c1 c2 c3 t" and "ag_eventLimit a = 100"
  shows "(ag_apiToken a = apiToken \<longrightarrow> gm_get (ag_state (pollUpstream http u a)) (up_Region u) =
      Some \<lparr>rg_reachable = True, rg_lastErr = [],
        rg_nodes = map (\<lambda>n. n\<lparr>an_inactiveSince := zero_time\<rparr>) (registry_List (cl_reg c1)), rg_events = es, rg_alerts = als\<rparr>) \<and>
    (apiToken \<noteq> [] \<and> ag_apiToken a \<noteq> apiToken \<longrightarrow> gm_get (ag_state (pollUpstream http u a)) (up_Region u) =
      Some (empty_region\<lparr>rg_lastErr := ''GET '' @ up_URL u @ ''/api/nodes: status 401''\<rparr>))"
proof (intro conjI impI)
  assume "ag_apiToken a = apiToken"
  then show "gm_get (ag_state (pollUpstream http u a)) (up_Region u) =
      Some \<lparr>rg_reachable = True, rg_lastErr = [],
        rg_nodes = map (\<lambda>n. n\<lparr>an_inactiveSince := zero_time\<rparr>) (registry_List (cl_reg c1)), rg_events = es, rg_alerts = als\<rparr>"
    by (simp add: pollUpstream_result assms(10) poll_reaching [OF assms(1-9)])
next
  obtain render where R: "answers http render (up_URL u @ ''/api/nodes'')
      (\<lambda>auth. exporter_Router staticDir apiToken c1 t FnWins (get_request ''/api/nodes'' (\<lambda>_. []) auth))"
    using assms(9) by (auto simp: reaches_def)
  assume "apiToken \<noteq> [] \<and> ag_apiToken a \<noteq> apiToken"
  then have "BearerAuth apiToken (case (if ag_apiToken a \<noteq> [] then Some (''Bearer '' @ ag_apiToken a) else None) of None \<Rightarrow> [] | Some h \<Rightarrow> h) rep =
      Reply 401 (error_json ''unauthorized'')" for rep by (simp add: BearerAuth_iff)
  note P = router_routes(1) [OF this]
  have "fetchJSON http a (up_URL u @ ''/api/nodes'') (unmarshal_list unmarshal_node) = Inl (''GET '' @ up_URL u @ ''/api/nodes: status 401'')"
    using answers_refused [OF R P, where decode = "unmarshal_list unmarshal_node"] by (simp add: fmt_401)
  then show "gm_get (ag_state (pollUpstream http u a)) (up_Region u) =
      Some (empty_region\<lparr>rg_lastErr := ''GET '' @ up_URL u @ ''/api/nodes: status 401''\<rparr>)"
    by (simp add: pollUpstream_def markUnreachable_def)
qed

text \<open>A collector that holds one event, and a client that reaches it whatever URL it asks for.\<close>

definition demo_mirror_store :: "mem_db Store" where
  "demo_mirror_store = demo_saved ''e1'' (time_unix0 0) demo_store"

text \<open>The texts of its documents are their positions in the list of the four documents it can send.\<close>

definition demo_docs :: "string \<Rightarrow> string \<Rightarrow> 'db collector \<Rightarrow> time \<Rightarrow> json list" where
  "demo_docs staticDir token c t =
     map (\<lambda>rep. case rep of Reply s j \<Rightarrow> j | _ \<Rightarrow> JNull)
       [get_nodes (cl_reg c) (\<lambda>_. []),
        get_events (cl_err_text c) (cl_db c) (cl_st c) (cl_reg c) t FnWins (limit_query 100),
        get_alerts (cl_err_text c) (cl_db c) (cl_st c) (cl_reg c) t FnWins (limit_query 100)] @
     [error_json ''unauthorized'']"

definition demo_render :: "json list \<Rightarrow> json \<Rightarrow> string" where
  "demo_render docs j = replicate (length (takeWhile (\<lambda>d. d \<noteq> j) docs)) (CHR ''x'')"

definition demo_client :: "string \<Rightarrow> string \<Rightarrow> 'db collector \<Rightarrow> time \<Rightarrow> http_client" where
  "demo_client staticDir token c t =
     (let docs = demo_docs staticDir token c t;
          ask = (\<lambda>path q auth. case exporter_Router staticDir token c t FnWins (get_request path q auth) of
            Reply s j \<Rightarrow> Inr (s, demo_render docs j, None) | _ \<Rightarrow> Inl ''no document'')
      in \<lparr>hc_NewRequest = (\<lambda>_. None),
          hc_do = (\<lambda>url. if url = ''http://eu/api/nodes'' then ask ''/api/nodes'' (\<lambda>_. [])
            else if url = ''http://eu/api/events?limit=100'' then ask ''/api/events'' (limit_query 100)
            else ask ''/api/alerts'' (limit_query 100)),
          hc_decode = (\<lambda>(bytes, _). if length bytes < length docs then Inr (docs ! length bytes) else Inl ''unexpected EOF''),
          hc_type_error = (\<lambda>_. [])\<rparr>)"

lemma fmt_100: "fmt_int 100 = ''100''"
  by code_simp

lemma demo_render_docs:
  assumes "j \<in> set docs"
  shows "length (demo_render docs j) < length docs" and "docs ! length (demo_render docs j) = j"
proof -
  have "length (takeWhile (\<lambda>d. d \<noteq> j) docs) < length docs \<and> docs ! length (takeWhile (\<lambda>d. d \<noteq> j) docs) = j"
    using assms by (induction docs) auto
  then show "length (demo_render docs j) < length docs" and "docs ! length (demo_render docs j) = j"
    by (simp_all add: demo_render_def)
qed

lemma demo_client_reaches: "reaches (demo_client staticDir token c t) (up_URL (demo_upstream ''eu'')) staticDir token 100 c c c t"
proof -
  let ?http = "demo_client staticDir token c t" and ?docs = "demo_docs staticDir token c t"
  let ?reps = "{get_nodes (cl_reg c) (\<lambda>_. []), get_events (cl_err_text c) (cl_db c) (cl_st c) (cl_reg c) t FnWins (limit_query 100),
      get_alerts (cl_err_text c) (cl_db c) (cl_st c) (cl_reg c) t FnWins (limit_query 100)}"
  let ?h = "\<lambda>auth. case auth of None \<Rightarrow> [] | Some h \<Rightarrow> h"
  have len: "length ?docs = 4" by (simp add: demo_docs_def)
  have ans: "answers ?http (demo_render ?docs) url (\<lambda>auth. BearerAuth token (?h auth) rep)"
    if r: "rep \<in> ?reps" and d: "\<And>auth. hc_do ?http url auth =
      (case BearerAuth token (?h auth) rep of Reply s j \<Rightarrow> Inr (s, demo_render ?docs j, None) | _ \<Rightarrow> Inl ''no document'')" for url rep
    unfolding answers_def
  proof (intro conjI allI impI)
    fix auth s j assume b: "BearerAuth token (?h auth) rep = Reply s j"
    then have "rep = Reply s j \<or> j = error_json ''unauthorized''" by (auto simp: BearerAuth_iff split: if_splits)
    then have "j = (case rep of Reply s j \<Rightarrow> j | _ \<Rightarrow> JNull) \<or> j = error_json ''unauthorized''" by auto
    then have "j \<in> set ?docs" using r by (auto simp: demo_docs_def)
    note R = demo_render_docs [OF this]
    show "hc_do ?http url auth = Inr (s, demo_render ?docs j, None)" using d b by simp
    show "hc_decode ?http (demo_render ?docs j, None) = Inr j" "int (length (demo_render ?docs j)) \<le> maxResponseBytes"
      using R by (simp_all add: demo_client_def Let_def maxResponseBytes_def len)
  qed (simp add: demo_client_def Let_def)
  note P = router_routes [OF refl]
  show ?thesis
    unfolding reaches_def P
    by (intro exI [of _ "demo_render ?docs"] conjI ans)
      (simp_all add: demo_client_def demo_upstream_def fmt_100 Let_def P)
qed

theorem collector_mirrored_witness:
  "\<exists>s. gm_get (ag_state (pollUpstream (demo_client [] ''k'' (demo_collector demo_mirror_store) (time_unix0 1)) (demo_upstream ''eu'') (aggregator_New [] 0 ''k''))) ''eu'' = Some s \<and>
    rg_reachable s \<and> map an_NodeID (rg_nodes s) = [''a'', ''b'']"
proof -
  let ?c = "demo_collector demo_mirror_store"
  note save = demo_saved_ok [OF demo_store_ok demo_clock(1), of "''e1''"]
  have st: "store_all mem_content entry_ok (cl_st ?c)" using save(2) by (simp add: demo_collector_def demo_mirror_store_def)
  obtain es where es: "ListEvents mem_badger (cl_st ?c) (time_unix0 1) FnWins [] 100 = Inr es"
    using mem.ListEvents_returns [OF st, of "time_unix0 1"] by (fastforce simp: mem_badger_def mem_view_def)
  obtain als where als: "ListAlerts mem_badger (cl_st ?c) (time_unix0 1) FnWins [] 100 = Inr als"
    using mem.ListAlerts_returns [OF st, of "time_unix0 1"] by (fastforce simp: mem_badger_def mem_view_def)
  have n: "\<forall>n \<in> set (registry_List (cl_reg ?c)). json_time_ok (an_Registered n) \<and> json_time_ok (an_LastSeen n)"
    by (simp add: demo_collector_def demo_registry_def demo_node_def registry_List_def json_time_ok_def second_def year_9999_end_def)
  have db: "cl_db ?c = mem_badger" by (simp add: demo_collector_def)
  have "ag_apiToken (aggregator_New [] 0 ''k'') = ''k''" "ag_eventLimit (aggregator_New [] 0 ''k'') = 100"
    by (simp_all add: aggregator_New_def)
  with collector_mirrored [OF mem.badger_db_axioms db db st st n es als demo_client_reaches] show ?thesis
    by (fastforce simp: demo_upstream_def demo_collector_def demo_registry_def demo_node_def registry_List_def)
qed

section \<open>How much of a reply is read\<close>

lemma fetchJSON_capped:
  assumes "hc_NewRequest http' = hc_NewRequest http" and "hc_decode http' = hc_decode http" and "hc_type_error http' = hc_type_error http"
    and "\<And>auth. case hc_do http url auth of
        Inl err \<Rightarrow> hc_do http' url auth = Inl err
      | Inr (status, bytes, err) \<Rightarrow> \<exists>bytes' err'. hc_do http' url auth = Inr (status, bytes', err') \<and>
          (status \<noteq> 200 \<or> bytes' = bytes \<and> err' = err \<or>
           10485760 \<le> length bytes \<and> 10485760 \<le> length bytes' \<and> take 10485760 bytes' = take 10485760 bytes)"
  shows "fetchJSON http' a url decode = fetchJSON http a url decode"
proof -
  define auth where "auth = (if ag_apiToken a \<noteq> [] then Some (''Bearer '' @ ag_apiToken a) else None)"
  have cut: "LimitReader (b', e') maxResponseBytes = LimitReader (b, e) maxResponseBytes"
    if "b' = b \<and> e' = e \<or> 10485760 \<le> length b \<and> 10485760 \<le> length b' \<and> take 10485760 b' = take 10485760 b" for b b' :: string and e e'
    using that by (auto simp: LimitReader_def maxResponseBytes_def)
  show ?thesis
  proof (cases "hc_do http url auth")
    case (Inl err)
    moreover have "hc_do http' url auth = Inl err" using assms(4) [of auth] Inl by simp
    ultimately show ?thesis unfolding fetchJSON_def assms(1-3) auth_def [symmetric] by (simp split: option.split)
  next
    case (Inr x)
    then obtain status b e where d: "hc_do http url auth = Inr (status, b, e)" by (cases x) auto
    then obtain b' e' where d': "hc_do http' url auth = Inr (status, b', e')"
      and b: "status \<noteq> 200 \<or> b' = b \<and> e' = e \<or> 10485760 \<le> length b \<and> 10485760 \<le> length b' \<and> take 10485760 b' = take 10485760 b"
      using assms(4) [of auth] by auto
    have "status \<noteq> 200 \<or> LimitReader (b', e') maxResponseBytes = LimitReader (b, e) maxResponseBytes" using b cut by blast
    then show ?thesis unfolding fetchJSON_def assms(1-3) auth_def [symmetric] d d' by (auto split: option.split)
  qed
qed

text \<open>
  C25: a poll reads at most 10 MB of a reply. When two clients differ only in what the bodies of the replies hold
  beyond their first 10485760 bytes, how such a body ends, or in the bodies of replies with another status than 200,
  then a poll leaves the aggregator in the same state with both: an endless or oversized reply is cut off, and the
  body of a refused request is not read.
\<close>

theorem poll_reads_at_most_cap:
  assumes "hc_NewRequest http' = hc_NewRequest http" and "hc_decode http' = hc_decode http" and "hc_type_error http' = hc_type_error http"
    and "\<And>url auth. case hc_do http url auth of
        Inl err \<Rightarrow> hc_do http' url auth = Inl err
      | Inr (status, bytes, err) \<Rightarrow> \<exists>bytes' err'. hc_do http' url auth = Inr (status, bytes', err') \<and>
          (status \<noteq> 200 \<or> bytes' = bytes \<and> err' = err \<or>
           10485760 \<le> length bytes \<and> 10485760 \<le> length bytes' \<and> take 10485760 bytes' = take 10485760 bytes)"
  shows "pollUpstream http' u a = pollUpstream http u a"
  unfolding pollUpstream_def fetchJSON_capped [OF assms] ..

text \<open>A body of exactly the cap, and one that goes on for as long again before the connection breaks.\<close>

definition demo_flood :: "nat \<Rightarrow> string option \<Rightarrow> http_client" where
  "demo_flood n err = \<lparr>hc_NewRequest = (\<lambda>_. None), hc_do = (\<lambda>url auth. Inr (200, replicate n (CHR '' ''), err)),
     hc_decode = (\<lambda>_. Inl ''unexpected EOF''), hc_type_error = (\<lambda>_. [])\<rparr>"

theorem poll_reads_at_most_cap_witness:
  "pollUpstream (demo_flood 20971520 (Some ''reset'')) (demo_upstream ''eu'') demo_aggregator =
   pollUpstream (demo_flood 10485760 None) (demo_upstream ''eu'') demo_aggregator"
proof (rule poll_reads_at_most_cap)
  have parts: "hc_NewRequest (demo_flood n err) = (\<lambda>_. None)" "hc_decode (demo_flood n err) = (\<lambda>_. Inl ''unexpected EOF'')"
    "hc_type_error (demo_flood n err) = (\<lambda>_. [])" "hc_do (demo_flood n err) url auth = Inr (200, replicate n (CHR '' ''), err)"
    for n err url auth by (simp_all add: demo_flood_def)
  fix url auth
  have body: "take m (replicate (m + k) (CHR '' '')) = take m (replicate m (CHR '' ''))" for m k by (simp add: min_def)
  show "case hc_do (demo_flood 10485760 None) url auth of
      Inl err \<Rightarrow> hc_do (demo_flood 20971520 (Some ''reset'')) url auth = Inl err
    | Inr (status, bytes, err) \<Rightarrow> \<exists>bytes' err'. hc_do (demo_flood 20971520 (Some ''reset'')) url auth = Inr (status, bytes', err') \<and>
        (status \<noteq> 200 \<or> bytes' = bytes \<and> err' = err \<or>
         10485760 \<le> length bytes \<and> 10485760 \<le> length bytes' \<and> take 10485760 bytes' = take 10485760 bytes)"
    unfolding parts sum.case prod.case
  proof (intro exI conjI disjI2)
    show "take 10485760 (replicate 20971520 (CHR '' '')) = take 10485760 (replicate 10485760 (CHR '' ''))"
      using body [of 10485760 10485760] by (simp only: numeral_plus_numeral semiring_norm)
  qed (rule refl, (simp only: length_replicate; simp)+)
qed (simp_all add: demo_flood_def)

end
