(* ===== verification/Collector.thy ===== *)
theory Collector
  imports Receiver Aggregator
begin

text \<open>
  The commands of \<^verbatim>\<open>cmd/collector\<close>: \<^verbatim>\<open>serve\<close> in its two modes (\<^verbatim>\<open>main.go\<close>), with the checks it makes and the
  components it creates and wires together, and the token commands (\<^verbatim>\<open>token.go\<close>) over the same database.
  The values of the flags and everything the host provides (opening the database, files, the environment,
  the listener, the clock) are arguments. The parsing of the command line by \<^verbatim>\<open>cobra\<close>, the alignment of
  the token table by \<^verbatim>\<open>tabwriter\<close> and the log are not modelled, the warnings about ignored flags are.

  Shown: what a collector that starts is; how long it takes to end, and what it cuts; what the token commands do to the table of tokens.
\<close>

section \<open>Model\<close>

subsection \<open>HTTP server\<close>

definition httpReadHeaderTimeout :: duration where "httpReadHeaderTimeout = 5 * second"
definition httpReadTimeout :: duration where "httpReadTimeout = 15 * second"
definition httpWriteTimeout :: duration where "httpWriteTimeout = 30 * second"
definition httpIdleTimeout :: duration where "httpIdleTimeout = 60 * second"
definition httpShutdownTimeout :: duration where "httpShutdownTimeout = 10 * second"

record http_server =
  hs_Addr :: string
  hs_ReadHeaderTimeout :: duration
  hs_ReadTimeout :: duration
  hs_WriteTimeout :: duration
  hs_IdleTimeout :: duration

definition newHTTPServer :: "string \<Rightarrow> http_server" where
  "newHTTPServer addr = \<lparr>hs_Addr = addr, hs_ReadHeaderTimeout = httpReadHeaderTimeout, hs_ReadTimeout = httpReadTimeout,
     hs_WriteTimeout = httpWriteTimeout, hs_IdleTimeout = httpIdleTimeout\<rparr>"

text \<open>
  \<^verbatim>\<open>runHTTPServerUntilDone\<close>: the server ends first, with an error or none (the error that says it was closed
  counts as none), or the context does; \<open>graceful\<close> is then how long a graceful shutdown would take. The
  result is what is logged and how long the shutdown takes.
\<close>

datatype http_end = ListenEnded "string option" | ContextEnded "duration option"

definition runHTTPServerUntilDone :: "string \<Rightarrow> http_end \<Rightarrow> string list \<times> duration" where
  "runHTTPServerUntilDone name e =
     (case e of
        ListenEnded None \<Rightarrow> ([], 0)
      | ListenEnded (Some err) \<Rightarrow> ([name @ '' stopped''], 0)
      | ContextEnded graceful \<Rightarrow>
          (case graceful of
             Some d \<Rightarrow> if d < httpShutdownTimeout then ([name @ '' shutting down''], d)
               else ([name @ '' shutting down'', name @ '' graceful shutdown failed''], httpShutdownTimeout)
           | None \<Rightarrow> ([name @ '' shutting down'', name @ '' graceful shutdown failed''], httpShutdownTimeout)))"

subsection \<open>serve\<close>

record flags =
  fl_changed :: "string \<Rightarrow> bool"
  fl_aggregate :: bool
  fl_grpcAddr :: string
  fl_httpAddr :: string
  fl_dataDir :: string
  fl_heartbeatTimeout :: duration
  fl_rules :: string
  fl_otelEndpoint :: string
  fl_region :: string
  fl_staticDir :: string
  fl_grpcTLSCert :: string
  fl_grpcTLSKey :: string
  fl_upstreams :: "string list"
  fl_pollInterval :: duration

record 'db host =
  ho_logger :: "string option"
  ho_open :: "string \<Rightarrow> string + 'db"
  ho_now :: time
  ho_stat :: "string \<Rightarrow> string option"
  ho_read :: "string \<Rightarrow> string + string"
  ho_yaml :: "string \<Rightarrow> string + RuleSet"
  ho_compile :: regexp_compile
  ho_metrics :: "string option list"
  ho_otlp :: "string \<Rightarrow> string option"
  ho_Shutdown :: "bool \<Rightarrow> string option"
  ho_Getenv :: "string \<Rightarrow> string"
  ho_ParseDuration :: "string \<Rightarrow> duration option"
  ho_listen :: "string \<Rightarrow> string option"
  ho_tls :: "string \<Rightarrow> string \<Rightarrow> string option"
  ho_url :: url_parser

datatype launch_error =
    FlagsTogether
  | UpstreamsNeedAggregate
  | LoggerFailed string
  | BadgerOpen store_error
  | HeartbeatNotPositive duration
  | RulesNotLoaded load_error
  | RulesInvalid rule_error
  | MetricsFailed string
  | TracesFailed string
  | ServeError serve_error
  | BadUpstreams string
  | NoUpstreams

record 'db running =
  rn_server :: "'db server"
  rn_traces :: TracesProvider
  rn_heartbeatTimeout :: duration
  rn_heartbeatInterval :: duration
  rn_evictAfter :: duration
  rn_apiToken :: string
  rn_authEnabled :: bool
  rn_grpc :: server_options
  rn_http :: http_server
  rn_staticDir :: string

definition serve_normal :: "'db badger \<Rightarrow> 'db host \<Rightarrow> flags \<Rightarrow> launch_error + 'db running" where
  "serve_normal B h fl =
     (case store_New B (ho_open h (fl_dataDir fl)) (ho_now h) of
        Inl err \<Rightarrow> Inl (BadgerOpen err)
      | Inr st \<Rightarrow>
          if fl_heartbeatTimeout fl \<le> 0 then Inl (HeartbeatNotPositive (fl_heartbeatTimeout fl))
          else (case LoadRules (ho_stat h) (ho_read h) (ho_yaml h) (fl_rules fl) of
            Inl err \<Rightarrow> Inl (RulesNotLoaded err)
          | Inr ruleset \<Rightarrow> (case Validate (ho_compile h) ruleset of
              Some err \<Rightarrow> Inl (RulesInvalid err)
            | None \<Rightarrow> (case NewMetricsProvider (ho_metrics h) of
                Inl err \<Rightarrow> Inl (MetricsFailed err)
              | Inr mp \<Rightarrow> (case NewTracesProvider (ho_otlp h) (ho_Shutdown h) (fl_otelEndpoint fl) of
                  Inl err \<Rightarrow> Inl (TracesFailed err)
                | Inr tp \<Rightarrow>
                    let apiToken = TokenFromEnv (ho_Getenv h);
                        sv = \<lparr>sv_st = st, sv_reg = registry_New, sv_engine = Some (engine_New (Some ruleset)),
                          sv_detector = Some (detector_New []),
                          sv_notifier = \<lparr>ns_disp = DispatcherFromEnv (ho_ParseDuration h) (ho_Getenv h), ns_running = []\<rparr>,
                          sv_metrics = Some mp, sv_tracer = tp_tracer tp, sv_defaultRegion = fl_region fl\<rparr>
                    in case serve_setup (ho_listen h (fl_grpcAddr fl)) (ho_tls h) (fl_grpcTLSCert fl) (fl_grpcTLSKey fl) of
                      Inl err \<Rightarrow> Inl (ServeError err)
                    | Inr opts \<Rightarrow> Inr \<lparr>rn_server = sv, rn_traces = tp, rn_heartbeatTimeout = fl_heartbeatTimeout fl,
                        rn_heartbeatInterval = trunc_div (fl_heartbeatTimeout fl) 2, rn_evictAfter = DefaultEvictAfter,
                        rn_apiToken = apiToken, rn_authEnabled = (apiToken \<noteq> []), rn_grpc = opts,
                        rn_http = newHTTPServer (fl_httpAddr fl), rn_staticDir = fl_staticDir fl\<rparr>)))))"

text \<open>The REST API of a collector that runs: the router over the state the gRPC handlers share, at the time of a request.\<close>

definition rest_state :: "(store_error \<Rightarrow> string) \<Rightarrow> 'db badger \<Rightarrow> 'db server \<Rightarrow> 'db collector" where
  "rest_state err_text B sv =
     \<lparr>cl_err_text = err_text, cl_db = B, cl_st = sv_st sv, cl_reg = sv_reg sv, cl_detector = sv_detector sv\<rparr>"

definition rest_api ::
  "(store_error \<Rightarrow> string) \<Rightarrow> 'db badger \<Rightarrow> 'db running \<Rightarrow> 'db server \<Rightarrow> time \<Rightarrow> race \<Rightarrow> request \<Rightarrow> http_reply" where
  "rest_api err_text B run sv t who rq =
     exporter_Router (rn_staticDir run) (rn_apiToken run) (rest_state err_text B sv) t who rq"

text \<open>
  The end of a collector, when its gRPC server fails or after a signal. The signal ends the context; the gRPC server
  stops, and the REST API shuts down beside it, in a goroutine of its own that nothing waits for. When the gRPC
  server has ended, \<^verbatim>\<open>serve\<close> returns: the traces are closed, with the context, which has ended after a signal,
  then the store, and the process is over. \<open>e\<close> says how serving ends and \<open>requests\<close> how long the
  REST API needs to end gracefully, if it does; \<open>err\<close> is what closing the database returns.
\<close>

record 'db shutdown =
  sd_result :: "serve_error option"
  sd_took :: duration
  sd_forced :: bool
  sd_rest_cut :: bool
  sd_traces :: "string option"
  sd_st :: "'db Store"

definition serve_shutdown ::
  "'db running \<Rightarrow> 'db server \<Rightarrow> serve_end \<Rightarrow> duration option \<Rightarrow> string option \<Rightarrow> 'db shutdown" where
  "serve_shutdown run sv e requests err =
     (case serve_until e of
        (res, took, forced) \<Rightarrow> \<lparr>sd_result = res, sd_took = took, sd_forced = forced,
          sd_rest_cut = (took < snd (runHTTPServerUntilDone ''REST API'' (ContextEnded requests))),
          sd_traces = traces_Close (rn_traces run) (case e of StopSignal _ \<Rightarrow> True | ServerEnded _ \<Rightarrow> False),
          sd_st = snd (store_Close (sv_st sv) err)\<rparr>)"

definition warnIgnoredNormalModeFlags :: "flags \<Rightarrow> string list" where
  "warnIgnoredNormalModeFlags fl =
     (if fl_changed fl ''grpc-addr'' \<and> fl_grpcAddr fl \<noteq> '':50051'' then [''--aggregate mode ignores --grpc-addr''] else []) @
     map (\<lambda>name. ''--aggregate mode ignores --'' @ name)
       (filter (fl_changed fl) [''data-dir'', ''rules'', ''grpc-tls-cert'', ''grpc-tls-key'', ''region''])"

text \<open>An aggregator that runs: it polls, and serves its router with the same token on its own HTTP server.\<close>

record aggregating =
  ar_agg :: Aggregator
  ar_http :: http_server
  ar_staticDir :: string
  ar_apiToken :: string

definition runAggregate :: "'db host \<Rightarrow> flags \<Rightarrow> launch_error + aggregating" where
  "runAggregate h fl =
     (let apiToken = TokenFromEnv (ho_Getenv h) in
      case ParseUpstreams (ho_url h) (fl_upstreams fl) of
        Inl err \<Rightarrow> Inl (BadUpstreams err)
      | Inr upstreams \<Rightarrow>
          if upstreams = [] then Inl NoUpstreams
          else Inr \<lparr>ar_agg = aggregator_New upstreams (fl_pollInterval fl) apiToken,
            ar_http = newHTTPServer (fl_httpAddr fl), ar_staticDir = fl_staticDir fl, ar_apiToken = apiToken\<rparr>)"

datatype 'db launched = NormalMode "'db running" | AggregateMode aggregating "string list"

definition serveCmd :: "'db badger \<Rightarrow> 'db host \<Rightarrow> flags \<Rightarrow> launch_error + 'db launched" where
  "serveCmd B h fl =
     (if fl_changed fl ''grpc-tls-cert'' \<noteq> fl_changed fl ''grpc-tls-key'' then Inl FlagsTogether
      else if \<not> fl_aggregate fl \<and> (fl_changed fl ''upstreams'' \<or> fl_changed fl ''poll-interval'') then Inl UpstreamsNeedAggregate
      else case ho_logger h of
        Some err \<Rightarrow> Inl (LoggerFailed err)
      | None \<Rightarrow>
          if fl_aggregate fl then
            (case runAggregate h fl of
               Inl err \<Rightarrow> Inl err
             | Inr agg \<Rightarrow> Inr (AggregateMode agg (warnIgnoredNormalModeFlags fl)))
          else (case serve_normal B h fl of Inl err \<Rightarrow> Inl err | Inr run \<Rightarrow> Inr (NormalMode run)))"

subsection \<open>token\<close>

text \<open>
  Each command opens the database, makes one call and closes it; the context of a command is never
  cancelled, so the calls are never abandoned. The result is what is printed, or the error, and the database.
\<close>

datatype token_error = EmptyNodeID | OpenFailed store_error | CommandFailed store_error

definition openTokenStore :: "'db badger \<Rightarrow> string + 'db \<Rightarrow> time \<Rightarrow> token_error + 'db Store" where
  "openTokenStore B opened t = (case store_New B opened t of Inl err \<Rightarrow> Inl (OpenFailed err) | Inr st \<Rightarrow> Inr st)"

definition tokenIssueCmd ::
  "hash_fn \<Rightarrow> 'db badger \<Rightarrow> string + 'db \<Rightarrow> time \<Rightarrow> string + string \<Rightarrow> time \<Rightarrow> time \<Rightarrow> string \<Rightarrow> (token_error + string) \<times> 'db option" where
  "tokenIssueCmd sha256 B opened t rnd now t' arg =
     (let nodeID = TrimSpace arg in
      if nodeID = [] then (Inl EmptyNodeID, None)
      else case openTokenStore B opened t of
        Inl err \<Rightarrow> (Inl err, None)
      | Inr st \<Rightarrow> (case IssueToken sha256 B st t FnWins rnd now t' FnWins nodeID of
          (Inl err, st') \<Rightarrow> (Inl (CommandFailed err), Some (st_db st'))
        | (Inr token, st') \<Rightarrow> (Inr (token @ [CHR 0x0A]), Some (st_db st'))))"

text \<open>\<open>line\<close> is what was read from the terminal, when the command asks.\<close>

definition tokenRevokeCmd ::
  "'db badger \<Rightarrow> string + 'db \<Rightarrow> time \<Rightarrow> time \<Rightarrow> time \<Rightarrow> bool \<Rightarrow> string \<Rightarrow> string \<Rightarrow> (token_error + string) \<times> 'db option" where
  "tokenRevokeCmd B opened t now t' yes line arg =
     (let nodeID = TrimSpace arg;
          prompt = ''Revoke token for node_id '' @ sprintf_q nodeID @ ''? [y/N] '' in
      if nodeID = [] then (Inl EmptyNodeID, None)
      else if \<not> yes \<and> ToLower (TrimSpace line) \<noteq> ''y'' then (Inr (prompt @ ''aborted'' @ [CHR 0x0A]), None)
      else case openTokenStore B opened t of
        Inl err \<Rightarrow> (Inl err, None)
      | Inr st \<Rightarrow> (case RevokeToken B st t FnWins now t' FnWins nodeID of
          (Some err, st') \<Rightarrow> (Inl (CommandFailed err), Some (st_db st'))
        | (None, st') \<Rightarrow> (Inr (if yes then [] else prompt), Some (st_db st'))))"

text \<open>The rows of the table, below its head.\<close>

definition token_row :: "AgentToken \<Rightarrow> string list" where
  "token_row tok = [tk_NodeID tok, format_RFC3339 (tk_IssuedAt tok), if tk_RevokedAt tok \<noteq> None then ''revoked'' else ''active'']"

definition tokenListCmd :: "'db badger \<Rightarrow> string + 'db \<Rightarrow> time \<Rightarrow> token_error + string list list" where
  "tokenListCmd B opened t =
     (case openTokenStore B opened t of
        Inl err \<Rightarrow> Inl err
      | Inr st \<Rightarrow> (case ListTokens B st t FnWins of
          Inl err \<Rightarrow> Inl (CommandFailed err)
        | Inr tokens \<Rightarrow> Inr ([''NODE_ID'', ''ISSUED_AT'', ''STATUS''] # map token_row tokens)))"

section \<open>Shutting down\<close>

text \<open>
  However serving ends, the database is closed as it was, and garbage collection of its value log has been told to
  stop. A collector ends without an error within ten seconds of a signal, whatever its streams and requests do;
  streams are cut exactly when they take longer. An error is returned exactly when the gRPC server has failed.
\<close>

lemma shutdown_bounded:
  assumes "\<And>d. e = StopSignal (Some d) \<Longrightarrow> 0 \<le> d"
  shows "0 \<le> sd_took (serve_shutdown run sv e requests err)" "sd_took (serve_shutdown run sv e requests err) \<le> 10 * second"
    and "sd_forced (serve_shutdown run sv e requests err) \<longleftrightarrow>
      (\<exists>streams. e = StopSignal streams \<and> (\<forall>d. streams = Some d \<longrightarrow> 10 * second \<le> d))"
    and "sd_result (serve_shutdown run sv e requests err) = Some f \<longleftrightarrow> (\<exists>msg. e = ServerEnded (GrpcFailed msg) \<and> f = ServeFailed msg)"
    and "st_db (sd_st (serve_shutdown run sv e requests err)) = st_db (sv_st sv)"
    and "st_gcStopped (sd_st (serve_shutdown run sv e requests err))"
  using assms
  by (auto simp: serve_shutdown_def serve_until_def serve_result_def gracefulStopWithTimeout_def grpcShutdownGracePeriod_def
      store_Close_def second_def split: option.splits serve_end.splits grpc_exit.splits)

text \<open>
  The requests of the REST API are not waited for: they are cut whenever they need longer than the streams,
  as when no agent is connected. In aggregate mode, where \<^verbatim>\<open>runHTTPServerUntilDone\<close> is the last call, they have ten seconds.
\<close>

lemma rest_requests_cut:
  assumes "0 < d"
  shows "sd_rest_cut (serve_shutdown run sv (StopSignal (Some 0)) (Some d) err)"
    and "d < httpShutdownTimeout \<Longrightarrow> runHTTPServerUntilDone name (ContextEnded (Some d)) = ([name @ '' shutting down''], d)"
  using assms
  by (auto simp: serve_shutdown_def serve_until_def gracefulStopWithTimeout_def grpcShutdownGracePeriod_def runHTTPServerUntilDone_def
      httpShutdownTimeout_def second_def)

section \<open>What the database holds of a deployment\<close>

text \<open>A sound entry that is not the token of an empty node id; sound in every database of a deployment.\<close>

definition entry_sound :: "string \<Rightarrow> json \<Rightarrow> bool" where
  "entry_sound k j = (entry_ok k j \<and> k \<noteq> agentTokenKey [])"

definition db_sound :: "('db \<Rightarrow> time \<Rightarrow> (string \<times> json) list) \<Rightarrow> 'db \<Rightarrow> bool" where
  "db_sound content db = (\<forall>t k j. map_of (content db t) k = Some j \<longrightarrow> entry_sound k j)"

lemma store_all_mono: "store_all content P st \<Longrightarrow> (\<And>k j. P k j \<Longrightarrow> Q k j) \<Longrightarrow> store_all content Q st"
  unfolding store_all_def by fastforce

lemma store_all_sound_ok: "store_all content entry_sound st \<Longrightarrow> store_all content entry_ok st"
  by (erule store_all_mono) (simp add: entry_sound_def)

lemma store_all_db: "store_all content entry_sound st \<Longrightarrow> db_sound content (st_db st)"
  by (auto simp: store_all_def db_sound_def)

lemma store_all_no_empty_token:
  "store_all content entry_sound st \<Longrightarrow> token_of (content (st_db st) t) [] = None"
  by (cases "map_of (content (st_db st) t) (agentTokenKey [])")
    (auto simp: store_all_def token_of_def entry_sound_def)

lemma store_New_sound: "store_New B (Inr db) t = Inr st \<Longrightarrow> db_sound content db \<Longrightarrow> store_all content entry_sound st"
  by (auto simp: store_all_def db_sound_def dest: store_New_db)

lemma entry_sound_event: "clock_ok r \<Longrightarrow> marshal_event e = Some j \<Longrightarrow> entry_sound (event_key r e) j"
  by (simp add: entry_sound_def entry_ok_event)

lemma entry_sound_alert: "clock_ok (al_Timestamp a) \<Longrightarrow> marshal_alert a = Some j \<Longrightarrow> entry_sound (alert_key a) j"
  by (simp add: entry_sound_def entry_ok_alert)

lemma entry_sound_token: "marshal_token k = Some j \<Longrightarrow> tk_NodeID k \<noteq> [] \<Longrightarrow> entry_sound (agentTokenKey (tk_NodeID k)) j"
  by (simp add: entry_sound_def entry_ok_token)

context badger_db
begin

lemma SaveEvent_sound:
  assumes "store_all content entry_sound st" and "clock_ok received" and "SaveEvent B st received t who e = (res, st')"
  shows "store_all content entry_sound st'"
  using SaveEvent_cases [OF assms(3)] assms(1) entry_sound_event [OF assms(2), of e]
    update_all [of "st_db st" t "event_key received e" _ "Some (st_retention st)" _ entry_sound]
  by (auto simp: store_all_def)

lemma SaveAlert_sound:
  assumes "store_all content entry_sound st" and "clock_ok (al_Timestamp a)" and "SaveAlert B st t who a = (res, st')"
  shows "store_all content entry_sound st'"
  using SaveAlert_cases [OF assms(3)] assms(1) entry_sound_alert [OF assms(2)]
    update_all [of "st_db st" t "alert_key a" _ "Some (st_retention st)" _ entry_sound]
  by (auto simp: store_all_def)

lemma putAgentToken_sound:
  assumes "putAgentToken B st t who rec = (res, st')" and "store_all content entry_sound st" and "tk_NodeID rec \<noteq> []"
  shows "store_all content entry_sound st'"
  using putAgentToken_cases [OF assms(1)] assms(2) entry_sound_token [OF _ assms(3)]
    update_all [of "st_db st" t "agentTokenKey (tk_NodeID rec)" _ None _ entry_sound]
  by (auto simp: store_all_def)

lemma IssueToken_sound:
  assumes "store_all content entry_sound st" and "n \<noteq> []" and "IssueToken sha256 B st t who rnd now t' who' n = (res, st')"
  shows "store_all content entry_sound st'"
  using assms
  by (auto simp: IssueToken_def split: sum.splits option.splits if_splits prod.splits dest!: putAgentToken_sound)

lemma RevokeToken_sound:
  assumes "store_all content entry_sound st" and "n \<noteq> []" and "RevokeToken B st t who now t' who' n = (res, st')"
  shows "store_all content entry_sound st'"
proof (cases "getAgentToken B st t who n")
  case (Inr x)
  have "tk_NodeID rec \<noteq> []" if "x = Some rec" for rec
    using token_of_key [OF store_all_sound_ok [OF assms(1)]] getAgentToken_result [OF Inr] that assms(2) by auto
  then show ?thesis
    using assms Inr by (auto simp: RevokeToken_def split: option.splits if_splits dest!: putAgentToken_sound)
qed (use assms in \<open>simp add: RevokeToken_def\<close>)

lemma tokenIssueCmd_sound:
  assumes "db_sound content db" and "tokenIssueCmd sha256 B (Inr db) t rnd now t' arg = (res, Some db')"
  shows "db_sound content db'"
proof -
  obtain st r st' where n: "TrimSpace arg \<noteq> []" and st: "store_New B (Inr db) t = Inr st" and db': "db' = st_db st'"
    and i: "IssueToken sha256 B st t FnWins rnd now t' FnWins (TrimSpace arg) = (r, st')"
    using assms(2) by (auto simp: tokenIssueCmd_def openTokenStore_def Let_def split: if_splits sum.splits prod.splits)
  show ?thesis unfolding db' by (rule store_all_db [OF IssueToken_sound [OF store_New_sound [OF st assms(1)] n i]])
qed

lemma tokenRevokeCmd_sound:
  assumes "db_sound content db" and "tokenRevokeCmd B (Inr db) t now t' yes line arg = (res, Some db')"
  shows "db_sound content db'"
proof -
  obtain st r st' where n: "TrimSpace arg \<noteq> []" and st: "store_New B (Inr db) t = Inr st" and db': "db' = st_db st'"
    and i: "RevokeToken B st t FnWins now t' FnWins (TrimSpace arg) = (r, st')"
    using assms(2)
    by (auto simp: tokenRevokeCmd_def openTokenStore_def Let_def split: if_splits sum.splits prod.splits option.splits)
  show ?thesis unfolding db' by (rule store_all_db [OF RevokeToken_sound [OF store_New_sound [OF st assms(1)] n i]])
qed

end

section \<open>Properties\<close>

text \<open>
  C23: what starts. A collector starts in normal mode only with an open database, a positive heartbeat
  timeout (which the sweep then uses as it is) and a rule set that was read and passed validation, or no
  rules; agents are authenticated exactly when the API token is set, and the gRPC server has its limits, and
  TLS exactly when both a certificate and a key are given. In aggregate mode it starts only with at least one upstream and a
  positive polling interval, with an empty entry for each region.
\<close>

theorem serve_starts:
  assumes "serveCmd B h fl = Inr launch"
  shows "(\<forall>run. launch = NormalMode run \<longrightarrow> \<not> fl_aggregate fl \<and>
      ho_open h (fl_dataDir fl) = Inr (st_db (sv_st (rn_server run))) \<and> sv_reg (rn_server run) = registry_New \<and>
      0 < rn_heartbeatTimeout run \<and> checker_timeout (rn_heartbeatTimeout run) = fl_heartbeatTimeout fl \<and>
      (\<exists>rules. LoadRules (ho_stat h) (ho_read h) (ho_yaml h) (fl_rules fl) = Inr rules \<and>
         Validate (ho_compile h) rules = None \<and> sv_engine (rn_server run) = Some (engine_New (Some rules))) \<and>
      (rn_authEnabled run \<longleftrightarrow> TrimSpace (ho_Getenv h ''SENTINEL_API_TOKEN'') \<noteq> []) \<and>
      rn_grpc run = server_opts (fl_grpcTLSCert fl \<noteq> [] \<and> fl_grpcTLSKey fl \<noteq> [])) \<and>
    (\<forall>agg warnings. launch = AggregateMode agg warnings \<longrightarrow> fl_aggregate fl \<and> ag_upstreams (ar_agg agg) \<noteq> [] \<and>
      0 < ag_interval (ar_agg agg) \<and> aggregator_inv (ar_agg agg) \<and>
      ParseUpstreams (ho_url h) (fl_upstreams fl) = Inr (ag_upstreams (ar_agg agg)))"
proof (intro conjI allI impI)
  fix run assume "launch = NormalMode run"
  with assms have s: "serve_normal B h fl = Inr run" and a: "\<not> fl_aggregate fl"
    by (auto simp: serveCmd_def split: if_splits option.splits sum.splits)
  show "\<not> fl_aggregate fl" using a .
  show "ho_open h (fl_dataDir fl) = Inr (st_db (sv_st (rn_server run)))"
    using s by (auto simp: serve_normal_def Let_def store_New_def split: sum.splits if_splits option.splits)
  show "\<exists>rules. LoadRules (ho_stat h) (ho_read h) (ho_yaml h) (fl_rules fl) = Inr rules \<and>
      Validate (ho_compile h) rules = None \<and> sv_engine (rn_server run) = Some (engine_New (Some rules))"
    using s by (auto simp: serve_normal_def Let_def split: sum.splits if_splits option.splits)
  show "sv_reg (rn_server run) = registry_New" "0 < rn_heartbeatTimeout run"
    "checker_timeout (rn_heartbeatTimeout run) = fl_heartbeatTimeout fl"
    "rn_authEnabled run \<longleftrightarrow> TrimSpace (ho_Getenv h ''SENTINEL_API_TOKEN'') \<noteq> []"
    "rn_grpc run = server_opts (fl_grpcTLSCert fl \<noteq> [] \<and> fl_grpcTLSKey fl \<noteq> [])"
    using s by (auto simp: serve_normal_def Let_def checker_timeout_def TokenFromEnv_def EnvAPIToken_def serve_setup_def
        split: sum.splits if_splits option.splits)
next
  fix agg warnings assume "launch = AggregateMode agg warnings"
  with assms have s: "runAggregate h fl = Inr agg" and a: "fl_aggregate fl"
    by (auto simp: serveCmd_def split: if_splits option.splits sum.splits)
  show "fl_aggregate fl" using a .
  show "ag_upstreams (ar_agg agg) \<noteq> []" "0 < ag_interval (ar_agg agg)" "aggregator_inv (ar_agg agg)"
    "ParseUpstreams (ho_url h) (fl_upstreams fl) = Inr (ag_upstreams (ar_agg agg))"
    using s by (auto simp: runAggregate_def Let_def aggregator_New_inv split: sum.splits if_splits)
      (auto simp: aggregator_New_def second_def split: if_splits)
qed

definition demo_flags :: flags where
  "demo_flags = \<lparr>fl_changed = (\<lambda>_. False), fl_aggregate = False, fl_grpcAddr = '':50051'', fl_httpAddr = '':8081'', fl_dataDir = ''/tmp/sentinel-data'',
     fl_heartbeatTimeout = 60 * second, fl_rules = [], fl_otelEndpoint = [], fl_region = ''default'', fl_staticDir = ''./static'', fl_grpcTLSCert = [],
     fl_grpcTLSKey = [], fl_upstreams = [], fl_pollInterval = 10 * second\<rparr>"

definition demo_host :: "mem_db \<Rightarrow> mem_db host" where
  "demo_host db = \<lparr>ho_logger = None, ho_open = (\<lambda>_. Inr db), ho_now = 0, ho_stat = (\<lambda>_. None), ho_read = (\<lambda>_. Inl ''''),
     ho_yaml = (\<lambda>_. Inl ''''), ho_compile = (\<lambda>_. Inl ''''), ho_metrics = [], ho_otlp = (\<lambda>_. None), ho_Shutdown = (\<lambda>_. None),
     ho_Getenv = (\<lambda>k. if k = ''SENTINEL_API_TOKEN'' then ''secret'' else []), ho_ParseDuration = (\<lambda>_. None),
     ho_listen = (\<lambda>_. None), ho_tls = (\<lambda>_ _. None), ho_url = (\<lambda>_. Inl '''')\<rparr>"

lemma demo_running:
  "\<exists>run. serveCmd mem_badger (demo_host []) demo_flags = Inr (NormalMode run) \<and>
    sv_st (rn_server run) = \<lparr>st_db = [], st_retention = DefaultRetention,
      st_counters = [(''exec'', 0), (''tcp'', 0), (''file'', 0)], st_pending = [], st_gcStopped = False\<rparr> \<and>
    sv_engine (rn_server run) = Some (engine_New (Some [])) \<and> sv_detector (rn_server run) = Some (detector_New [])"
proof -
  have "store_New mem_badger (Inr []) 0 = Inr \<lparr>st_db = [], st_retention = DefaultRetention,
      st_counters = [(''exec'', 0), (''tcp'', 0), (''file'', 0)], st_pending = [], st_gcStopped = False\<rparr>"
    by (simp add: store_New_def loadCounters_def mem_content_def seek_fwd_def)
  then show ?thesis
    by (simp add: serveCmd_def serve_normal_def demo_flags_def demo_host_def second_def LoadRules_def Validate_def
        NewMetricsProvider_def NewTracesProvider_def serve_setup_def Let_def)
qed

lemma demo_serve: "\<exists>run. serveCmd mem_badger (demo_host []) demo_flags = Inr (NormalMode run)"
  using demo_running by blast

theorem serve_starts_witness:
  "\<exists>run. serveCmd mem_badger (demo_host []) demo_flags = Inr (NormalMode run) \<and> rn_authEnabled run \<and> \<not> so_creds (rn_grpc run)"
proof -
  obtain run where r: "serveCmd mem_badger (demo_host []) demo_flags = Inr (NormalMode run)" using demo_serve by blast
  have "TrimSpace ''secret'' \<noteq> []" by code_simp
  with serve_starts [OF r] r show ?thesis by (auto simp: demo_host_def demo_flags_def server_opts_def)
qed

end
