(* ===== verification/Deployment.thy ===== *)
theory Deployment
  imports Collector
begin

text \<open>
  The collector as one system, and the deployment it is part of. A running collector is a step relation over
  the state its goroutines share; a deployment is a sequence of processes over one database. Both relations
  can be restricted to writes of certain keys, so that what happens to an entry can be said of every run
  that does not write it.

  Shown: the invariant of all components over every interleaving and every deployment; that an entry stays
  what it is, across restarts too, until something is written under its key; that a collector never changes
  the table of tokens.
\<close>

section \<open>The collector as a system\<close>

text \<open>
  Everything that can happen to the shared state of a running collector, one atomic step at a time: a call
  that some stream's handler makes for an event, a registration or a sweep, the detector's garbage
  collection, a write whose caller had given up, a garbage collection of the database's value log, and the
  notification goroutines. The steps of any number of streams and background goroutines interleave freely.
  The relation is restricted to writes of the keys in \<open>K\<close>; without the restriction it is \<^verbatim>\<open>server_step\<close>.
\<close>

inductive server_step_on :: "string set \<Rightarrow> 'db badger \<Rightarrow> 'db server \<Rightarrow> 'db server \<Rightarrow> bool" for K B where
  handler: "event_step_on K B n sv sv' \<Longrightarrow> server_step_on K B sv sv'"
| registry: "registry_step (sv_reg sv) reg' \<Longrightarrow> server_step_on K B sv (sv\<lparr>sv_reg := reg'\<rparr>)"
| forget: "sv_detector sv = Some d \<Longrightarrow> server_step_on K B sv (sv\<lparr>sv_detector := Some (detector_gc d now)\<rparr>)"
| late_write: "(i < length (st_pending (sv_st sv)) \<longrightarrow> fst (st_pending (sv_st sv) ! i) \<in> K) \<Longrightarrow>
    server_step_on K B sv (sv\<lparr>sv_st := bg_complete B (sv_st sv) t i\<rparr>)"
| compact: "bd_gc B (st_db (sv_st sv)) = Inr db' \<Longrightarrow> server_step_on K B sv (sv\<lparr>sv_st := (sv_st sv)\<lparr>st_db := db'\<rparr>\<rparr>)"
| gate: "i < length (ns_running (sv_notifier sv)) \<Longrightarrow> ns_running (sv_notifier sv) ! i = (a, AtGate) \<Longrightarrow>
    server_step_on K B sv (sv\<lparr>sv_notifier := goroutine_gate (sv_notifier sv) i now\<rparr>)"
| sent: "i < length (ns_running (sv_notifier sv)) \<Longrightarrow> ns_running (sv_notifier sv) ! i = (a, Sending) \<Longrightarrow>
    server_step_on K B sv (sv\<lparr>sv_notifier := goroutine_done (sv_notifier sv) i\<rparr>)"

abbreviation server_step :: "'db badger \<Rightarrow> 'db server \<Rightarrow> 'db server \<Rightarrow> bool" where
  "server_step \<equiv> server_step_on UNIV"

lemma server_step_on_mono: "server_step_on K B sv sv' \<Longrightarrow> K \<subseteq> L \<Longrightarrow> server_step_on L B sv sv'"
  by (induction rule: server_step_on.induct) (auto intro: server_step_on.intros event_step_on_mono)

lemma server_steps_on_mono: "(server_step_on K B)\<^sup>*\<^sup>* sv sv' \<Longrightarrow> (server_step B)\<^sup>*\<^sup>* sv sv'"
  by (rule rtranclp_mono [THEN predicate2D, rotated]) (auto intro: server_step_on_mono)

definition detector_ok :: "Detector option \<Rightarrow> bool" where
  "detector_ok d = (case d of None \<Rightarrow> True | Some d \<Rightarrow> gm_wf (dt_timestamps d) \<and> dt_windows d \<noteq> [])"

definition server_inv :: "('db \<Rightarrow> time \<Rightarrow> (string \<times> json) list) \<Rightarrow> 'db server \<Rightarrow> bool" where
  "server_inv content sv =
     (registry_inv (sv_reg sv) \<and> store_all content entry_sound (sv_st sv) \<and> detector_ok (sv_detector sv) \<and>
      length (ns_running (sv_notifier sv)) \<le> maxConcurrentDispatch)"

lemma stream_steps_server: "(stream_step_on K B authed)\<^sup>*\<^sup>* sv sv' \<Longrightarrow> (server_step_on K B)\<^sup>*\<^sup>* sv sv'"
  by (rule rtranclp_mono [THEN predicate2D, rotated]) (auto simp: stream_step_on_def intro: server_step_on.handler)

section \<open>A deployment\<close>

text \<open>
  What a process makes of the database: a token command, or a run of a collector. They follow each other,
  since the database is locked while a process has it open; writes that are pending when a process ends are
  lost. Again the relation is restricted to writes of the keys in \<open>K\<close>; a revocation is written under the node
  id as the record holds it, where bytes that are no UTF-8 have been replaced.
\<close>

inductive db_step_on :: "string set \<Rightarrow> hash_fn \<Rightarrow> 'db badger \<Rightarrow> 'db \<Rightarrow> 'db \<Rightarrow> bool" for K sha256 B where
  issued: "agentTokenKey (TrimSpace arg) \<in> K \<Longrightarrow> tokenIssueCmd sha256 B (Inr db) t rnd now t' arg = (ires, Some db') \<Longrightarrow>
    db_step_on K sha256 B db db'"
| revoked: "agentTokenKey (coerce_utf8 (TrimSpace arg)) \<in> K \<Longrightarrow> tokenRevokeCmd B (Inr db) t now t' yes line arg = (rres, Some db') \<Longrightarrow>
    db_step_on K sha256 B db db'"
| served: "ho_open h (fl_dataDir fl) = Inr db \<Longrightarrow> serveCmd B h fl = Inr (NormalMode run) \<Longrightarrow>
    (server_step_on K B)\<^sup>*\<^sup>* (rn_server run) sv \<Longrightarrow> db_step_on K sha256 B db (st_db (sv_st sv))"

abbreviation db_step :: "hash_fn \<Rightarrow> 'db badger \<Rightarrow> 'db \<Rightarrow> 'db \<Rightarrow> bool" where
  "db_step \<equiv> db_step_on UNIV"

text \<open>The databases of a deployment: what token commands and runs of a collector make of an empty one.\<close>

definition db_fresh :: "('db \<Rightarrow> time \<Rightarrow> (string \<times> json) list) \<Rightarrow> 'db \<Rightarrow> bool" where
  "db_fresh content db = (\<forall>t. content db t = [])"

definition deployed ::
  "hash_fn \<Rightarrow> 'db badger \<Rightarrow> ('db \<Rightarrow> time \<Rightarrow> (string \<times> json) list) \<Rightarrow> 'db \<Rightarrow> bool" where
  "deployed sha256 B content db = (\<exists>db0. db_fresh content db0 \<and> (db_step sha256 B)\<^sup>*\<^sup>* db0 db)"

text \<open>
  The states of a collector after a state \<open>sv\<close> of a run: later ones of the same run, and those of the runs
  after it has ended, with other processes in between.
\<close>

inductive later_on ::
  "string set \<Rightarrow> hash_fn \<Rightarrow> 'db badger \<Rightarrow> 'db running \<Rightarrow> 'db server \<Rightarrow> 'db running \<Rightarrow> 'db server \<Rightarrow> bool"
  for K sha256 B run sv where
  same_run: "(server_step_on K B)\<^sup>*\<^sup>* sv sv' \<Longrightarrow> later_on K sha256 B run sv run sv'"
| restarted: "later_on K sha256 B run sv run1 sv1 \<Longrightarrow> (db_step_on K sha256 B)\<^sup>*\<^sup>* (st_db (sv_st sv1)) db \<Longrightarrow>
    ho_open h (fl_dataDir fl) = Inr db \<Longrightarrow> serveCmd B h fl = Inr (NormalMode run2) \<Longrightarrow>
    (server_step_on K B)\<^sup>*\<^sup>* (rn_server run2) sv2 \<Longrightarrow> later_on K sha256 B run sv run2 sv2"

lemma later_on_steps:
  assumes "later_on K sha256 B run sv run' sv'" and "(server_step_on K B)\<^sup>*\<^sup>* sv' sv''"
  shows "later_on K sha256 B run sv run' sv''"
  using assms by cases (auto intro: later_on.intros rtranclp_trans)

section \<open>Invariants of the system\<close>

lemma DispatchAsync_bound:
  "length (ns_running s) \<le> maxConcurrentDispatch \<Longrightarrow> length (ns_running (DispatchAsync s a)) \<le> maxConcurrentDispatch"
  by (simp add: DispatchAsync_def)

lemma goroutine_bound:
  "length (ns_running (goroutine_done s i)) \<le> length (ns_running s)"
  "length (ns_running (goroutine_gate s i now)) \<le> length (ns_running s)"
  by (auto simp: goroutine_done_def goroutine_gate_def length_drop_nth split: prod.splits bool.splits)

lemma detector_ok_Record: "detector_ok (Some d) \<Longrightarrow> Record d now uuid e = (alerts, d') \<Longrightarrow> detector_ok (Some d')"
  using Record_facts [of d now uuid e alerts d'] by (simp add: detector_ok_def)

lemma detector_ok_gc: "detector_ok (Some d) \<Longrightarrow> detector_ok (Some (detector_gc d now))"
  using detector_gc_facts [of d now] by (simp add: detector_ok_def)

context badger_db
begin

lemma event_step_inv:
  assumes "event_step_on K B n sv sv'" and "server_inv content sv"
  shows "server_inv content sv'"
  using assms
  by cases (auto simp: server_inv_def Heartbeat_inv DispatchAsync_bound detector_ok_Record intro: SaveEvent_sound SaveAlert_sound)

end

text \<open>The states a collector starts in, over a sound database.\<close>

definition server_started ::
  "'db badger \<Rightarrow> ('db \<Rightarrow> time \<Rightarrow> (string \<times> json) list) \<Rightarrow> 'db server \<Rightarrow> bool" where
  "server_started B content sv =
     (db_sound content (st_db (sv_st sv)) \<and> (\<exists>h fl run. serveCmd B h fl = Inr (NormalMode run) \<and> sv = rn_server run))"

lemma serve_normal_server:
  assumes "serveCmd B h fl = Inr (NormalMode run)"
  shows "ho_open h (fl_dataDir fl) = Inr (st_db (sv_st (rn_server run)))"
    and "store_New B (Inr (st_db (sv_st (rn_server run)))) (ho_now h) = Inr (sv_st (rn_server run))"
    and "sv_reg (rn_server run) = registry_New" "sv_detector (rn_server run) = Some (detector_New [])"
    and "ns_running (sv_notifier (rn_server run)) = []"
    and "rn_authEnabled run = (rn_apiToken run \<noteq> [])" "rn_apiToken run = TokenFromEnv (ho_Getenv h)"
proof -
  have s: "serve_normal B h fl = Inr run"
    using assms by (auto simp: serveCmd_def split: if_splits option.splits sum.splits)
  then obtain st where st: "store_New B (ho_open h (fl_dataDir fl)) (ho_now h) = Inr st" "sv_st (rn_server run) = st"
    by (auto simp: serve_normal_def Let_def split: sum.splits if_splits option.splits)
  show o: "ho_open h (fl_dataDir fl) = Inr (st_db (sv_st (rn_server run)))"
  proof (cases "ho_open h (fl_dataDir fl)")
    case (Inl err)
    then show ?thesis using st by (simp add: store_New_def)
  next
    case (Inr db)
    then show ?thesis using st store_New_db [of B db "ho_now h" st] by simp
  qed
  show "store_New B (Inr (st_db (sv_st (rn_server run)))) (ho_now h) = Inr (sv_st (rn_server run))"
    using st o by simp
  show "sv_reg (rn_server run) = registry_New" "sv_detector (rn_server run) = Some (detector_New [])"
    "ns_running (sv_notifier (rn_server run)) = []"
    "rn_authEnabled run = (rn_apiToken run \<noteq> [])" "rn_apiToken run = TokenFromEnv (ho_Getenv h)"
    using s by (auto simp: serve_normal_def Let_def split: sum.splits if_splits option.splits)
qed

lemma server_started_inv: "server_started B content sv \<Longrightarrow> server_inv content sv"
  using serve_normal_server(3-5) store_New_sound [OF serve_normal_server(2)]
  by (fastforce simp: server_started_def server_inv_def registry_New_inv detector_ok_def detector_New_def gm_wf_def
      DefaultWindows_def)

context badger_gc
begin

lemma server_step_inv:
  assumes "server_inv content sv" and "server_step B sv sv'"
  shows "server_inv content sv'"
  using assms(2,1)
proof cases
  case (compact db')
  then show ?thesis using assms(1) gc_content [OF compact(2)] by (simp add: server_inv_def store_all_def)
next
  case (handler n)
  then show ?thesis using assms(1) by (blast intro: event_step_inv)
qed (auto simp: server_inv_def detector_ok_gc goroutine_bound [THEN le_trans] intro: registry_sys.inv_step bg_complete_all)

end

sublocale badger_gc \<subseteq> server_sys: invariant_system "server_started B content" "server_step B" "server_inv content"
  by unfold_locales (auto simp: server_started_inv server_step_inv)

context badger_gc
begin

lemma serve_reachable:
  assumes "db_sound content db" and "ho_open h (fl_dataDir fl) = Inr db" and "serveCmd B h fl = Inr (NormalMode run)"
    and "(server_step B)\<^sup>*\<^sup>* (rn_server run) sv"
  shows "server_inv content sv"
proof (rule server_sys.inv_reachable [OF _ assms(4)])
  show "server_started B content (rn_server run)"
    using assms(1-3) serve_normal_server(1) [OF assms(3)] by (auto simp: server_started_def)
qed

lemma server_steps_inv: "server_inv content sv \<Longrightarrow> (server_step_on K B)\<^sup>*\<^sup>* sv sv' \<Longrightarrow> server_inv content sv'"
  by (rule server_sys.inv_steps [OF server_steps_on_mono])

lemma db_step_sound:
  assumes "db_step_on K sha256 B db db'" and "db_sound content db"
  shows "db_sound content db'"
  using assms
proof cases
  case (served h fl run sv)
  then have "server_inv content sv" using serve_reachable [OF assms(2)] server_steps_on_mono by blast
  then show ?thesis using served by (auto simp: server_inv_def intro: store_all_db)
qed (auto intro: tokenIssueCmd_sound tokenRevokeCmd_sound)

end

sublocale badger_gc \<subseteq> db_sys: invariant_system "db_fresh content" "db_step_on K sha256 B" "db_sound content" for K sha256
  by unfold_locales (simp add: db_fresh_def db_sound_def, blast intro: db_step_sound)

context badger_gc
begin

lemma db_steps_sound: "(db_step_on K sha256 B)\<^sup>*\<^sup>* db db' \<Longrightarrow> db_sound content db \<Longrightarrow> db_sound content db'"
  by (rule db_sys.inv_steps)

lemma deployed_sound: "deployed sha256 B content db \<Longrightarrow> db_sound content db"
  by (auto simp: deployed_def intro: db_sys.inv_reachable)

lemma later_inv:
  assumes "later_on K sha256 B run sv run' sv'" and "server_inv content sv"
  shows "server_inv content sv'"
  using assms
proof (induction rule: later_on.induct)
  case (same_run sv')
  then show ?case by (blast intro: server_steps_inv)
next
  case (restarted run1 sv1 db h fl run2 sv2)
  have "db_sound content (st_db (sv_st sv1))" using restarted.IH [OF restarted.prems] by (auto simp: server_inv_def intro: store_all_db)
  then have "db_sound content db" by (rule db_sys.inv_steps [OF restarted.hyps(2)])
  from serve_reachable [OF this restarted.hyps(3,4) server_steps_on_mono [OF restarted.hyps(5)]] show ?case .
qed

end

text \<open>A sound database is no obstacle to a start: what a host and its flags start over one, they start over another.\<close>

lemma serveCmd_over:
  assumes "serveCmd B h fl = Inr (NormalMode run)" and "store_New B (ho_open h' (fl_dataDir fl)) (ho_now h') = Inr st"
    and "h' = h\<lparr>ho_open := ho_open h', ho_now := ho_now h'\<rparr>"
  shows "\<exists>run'. serveCmd B h' fl = Inr (NormalMode run')"
proof -
  have h: "ho_logger h' = ho_logger h" "ho_stat h' = ho_stat h" "ho_read h' = ho_read h" "ho_yaml h' = ho_yaml h"
    "ho_compile h' = ho_compile h" "ho_metrics h' = ho_metrics h" "ho_otlp h' = ho_otlp h" "ho_Shutdown h' = ho_Shutdown h" "ho_Getenv h' = ho_Getenv h"
    "ho_ParseDuration h' = ho_ParseDuration h" "ho_listen h' = ho_listen h" "ho_tls h' = ho_tls h"
    by (subst assms(3), simp)+
  have "serve_normal B h fl = Inr run"
    using assms(1) by (auto simp: serveCmd_def split: if_splits option.splits sum.splits)
  then have "\<exists>run'. serve_normal B h' fl = Inr run'"
    by (auto simp: serve_normal_def h assms(2) Let_def split: sum.splits if_splits option.splits)
  then show ?thesis using assms(1) by (auto simp: serveCmd_def h split: if_splits option.splits sum.splits)
qed

context badger_db
begin

lemma db_sound_content: "db_sound content db \<Longrightarrow> \<forall>(k, j) \<in> set (content db t). entry_ok k j"
  by (auto simp: db_sound_def entry_sound_def content_in_set)

lemma serve_again:
  assumes "db_sound content db" and "serveCmd B h fl = Inr (NormalMode run)"
    and "h' = h\<lparr>ho_open := ho_open h', ho_now := ho_now h'\<rparr>" and "ho_open h' (fl_dataDir fl) = Inr db"
    and "bd_view B db (ho_now h') = Inr snap" and "\<forall>(k, v) \<in> set snap. \<exists>j. v = Inr j"
  shows "\<exists>run'. serveCmd B h' fl = Inr (NormalMode run')"
proof -
  obtain st where "store_New B (Inr db) (ho_now h') = Inr st" using store_New_returns [OF db_sound_content [OF assms(1)] assms(5,6)] by blast
  then show ?thesis using serveCmd_over [OF assms(2) _ assms(3)] assms(4) by simp
qed

end

section \<open>Entries that stay\<close>

definition keeps :: "('db \<Rightarrow> time \<Rightarrow> (string \<times> json) list) \<Rightarrow> string \<Rightarrow> 'db \<Rightarrow> 'db \<Rightarrow> bool" where
  "keeps content k db db' = (\<forall>t. map_of (content db' t) k = map_of (content db t) k)"

lemma keeps_refl [simp]: "keeps content k db db"
  by (simp add: keeps_def)

lemma keeps_trans: "keeps content k db db' \<Longrightarrow> keeps content k db' db'' \<Longrightarrow> keeps content k db db''"
  by (simp add: keeps_def)

context badger_db
begin

lemma update_keeps: "bd_update B db now k v ttl = Inr db' \<Longrightarrow> k' \<noteq> k \<Longrightarrow> keeps content k' db db'"
  by (auto simp: keeps_def intro: update_other)

lemma SaveEvent_keeps: "SaveEvent B st received t who e = (res, st') \<Longrightarrow> k \<noteq> event_key received e \<Longrightarrow> keeps content k (st_db st) (st_db st')"
  by (auto dest!: SaveEvent_cases intro: update_keeps)

lemma SaveAlert_keeps: "SaveAlert B st t who a = (res, st') \<Longrightarrow> k \<noteq> alert_key a \<Longrightarrow> keeps content k (st_db st) (st_db st')"
  by (auto dest!: SaveAlert_cases intro: update_keeps)

lemma bg_complete_keeps:
  assumes "i < length (st_pending st) \<longrightarrow> fst (st_pending st ! i) \<noteq> k"
  shows "keeps content k (st_db st) (st_db (bg_complete B st t i))"
  using assms by (auto simp: bg_complete_def Let_def intro: update_keeps split: prod.splits sum.splits)

lemma putAgentToken_keeps:
  "putAgentToken B st t who rec = (res, st') \<Longrightarrow> k \<noteq> agentTokenKey (tk_NodeID rec) \<Longrightarrow> keeps content k (st_db st) (st_db st')"
  by (auto dest!: putAgentToken_cases intro: update_keeps)

lemma IssueToken_keeps:
  "IssueToken sha256 B st t who rnd now t' who' n = (res, st') \<Longrightarrow> k \<noteq> agentTokenKey n \<Longrightarrow> keeps content k (st_db st) (st_db st')"
  by (auto simp: IssueToken_def dest!: putAgentToken_keeps [where k = k] split: sum.splits option.splits if_splits prod.splits)

lemma RevokeToken_keeps:
  assumes "store_all content entry_ok st" and "RevokeToken B st t who now t' who' n = (res, st')" and "k \<noteq> agentTokenKey (coerce_utf8 n)"
  shows "keeps content k (st_db st) (st_db st')"
proof (cases "getAgentToken B st t who n")
  case (Inr x)
  have "tk_NodeID rec = coerce_utf8 n" if "x = Some rec" for rec using token_of_key [OF assms(1)] getAgentToken_result [OF Inr] that by auto
  then show ?thesis using assms(2,3) Inr by (auto simp: RevokeToken_def split: option.splits if_splits dest!: putAgentToken_keeps [where k = k])
qed (use assms(2) in \<open>simp add: RevokeToken_def\<close>)

lemma event_step_keeps:
  assumes "event_step_on K B n sv sv'" and "k \<notin> K"
  shows "keeps content k (st_db (sv_st sv)) (st_db (sv_st sv'))"
  using assms(1)
proof cases
  case (save_event received e t who err st')
  then show ?thesis using assms(2) by (auto intro: SaveEvent_keeps)
next
  case (save_alert a t who err st')
  then show ?thesis using assms(2) by (auto intro: SaveAlert_keeps)
qed simp_all

lemma StreamEvents_keeps:
  assumes "StreamEvents rnd is_ip E B start its authed sv = (r, sv')" and "\<forall>it \<in> set its. clocks_ok it"
    and "k \<notin> (\<Union>it \<in> set its. written it)"
  shows "keeps content k (st_db (sv_st sv)) (st_db (sv_st sv'))"
proof -
  have "(stream_step_on (\<Union>it \<in> set its. written it) B authed)\<^sup>*\<^sup>* sv sv'"
    using StreamEvents_steps [OF assms(1)] assms(2) by (auto simp: writes_in_def)
  then show ?thesis
    by (induction rule: rtranclp_induct)
      (simp, metis assms(3) event_step_keeps keeps_trans stream_step_on_def)
qed

end

context badger_gc
begin

lemma server_step_keeps:
  assumes "server_step_on K B sv sv'" and "k \<notin> K"
  shows "keeps content k (st_db (sv_st sv)) (st_db (sv_st sv'))"
  using assms(1)
proof cases
  case (handler n)
  then show ?thesis using assms(2) by (blast intro: event_step_keeps)
next
  case (late_write i t)
  then show ?thesis using assms(2) by (auto intro: bg_complete_keeps)
next
  case (compact db')
  then show ?thesis by (simp add: keeps_def gc_content)
qed simp_all

lemma server_steps_keep:
  "(server_step_on K B)\<^sup>*\<^sup>* sv sv' \<Longrightarrow> k \<notin> K \<Longrightarrow> keeps content k (st_db (sv_st sv)) (st_db (sv_st sv'))"
  by (induction rule: rtranclp_induct) (simp, blast intro: keeps_trans server_step_keeps)

lemma db_step_keeps:
  assumes "db_step_on K sha256 B db db'" and "db_sound content db" and "k \<notin> K"
  shows "keeps content k db db'"
  using assms(1)
proof cases
  case (issued arg t rnd now t' ires)
  then obtain st r st' where st: "st_db st = db" "db' = st_db st'"
    "IssueToken sha256 B st t FnWins rnd now t' FnWins (TrimSpace arg) = (r, st')"
    by (auto simp: tokenIssueCmd_def openTokenStore_def Let_def split: if_splits sum.splits prod.splits dest: store_New_db)
  have "k \<noteq> agentTokenKey (TrimSpace arg)" using issued(1) assms(3) by auto
  from IssueToken_keeps [OF st(3) this] show ?thesis using st(1,2) by simp
next
  case (revoked arg t now t' yes line rres)
  then obtain st r st' where st: "store_New B (Inr db) t = Inr st" "st_db st = db" "db' = st_db st'"
    "RevokeToken B st t FnWins now t' FnWins (TrimSpace arg) = (r, st')"
    by (auto simp: tokenRevokeCmd_def openTokenStore_def Let_def split: if_splits sum.splits prod.splits option.splits dest: store_New_db)
  have "k \<noteq> agentTokenKey (coerce_utf8 (TrimSpace arg))" using revoked(1) assms(3) by auto
  from RevokeToken_keeps [OF store_all_sound_ok [OF store_New_sound [OF st(1) assms(2)]] st(4) this]
  show ?thesis using st(2,3) by simp
next
  case (served h fl run sv)
  then have "st_db (sv_st (rn_server run)) = db" using serve_normal_server(1) by fastforce
  then show ?thesis using server_steps_keep [OF served(4) assms(3)] served(1) by simp
qed

lemma db_steps_keep:
  assumes "(db_step_on K sha256 B)\<^sup>*\<^sup>* db db'" and "db_sound content db" and "k \<notin> K"
  shows "keeps content k db db'"
  using assms(1)
proof (induction rule: rtranclp_induct)
  case (step y z)
  have "db_sound content y" by (rule db_sys.inv_steps [OF step.hyps(1) assms(2)])
  from keeps_trans [OF step.IH db_step_keeps [OF step.hyps(2) this assms(3)]] show ?case .
qed simp

text \<open>An entry outlives the process that wrote it, as long as nothing writes under its key.\<close>

lemma later_keeps:
  assumes "later_on K sha256 B run sv run' sv'" and "server_inv content sv" and "k \<notin> K"
  shows "keeps content k (st_db (sv_st sv)) (st_db (sv_st sv'))"
  using assms(1)
proof (induction rule: later_on.induct)
  case (same_run sv')
  show ?case by (rule server_steps_keep [OF same_run assms(3)])
next
  case (restarted run1 sv1 db h fl run2 sv2)
  have "db_sound content (st_db (sv_st sv1))"
    using later_inv [OF restarted.hyps(1) assms(2)] by (auto simp: server_inv_def intro: store_all_db)
  note 1 = db_steps_keep [OF restarted.hyps(2) this assms(3)]
  have "st_db (sv_st (rn_server run2)) = db" using serve_normal_server(1) restarted.hyps(3,4) by fastforce
  then have "keeps content k db (st_db (sv_st sv2))" using server_steps_keep [OF restarted.hyps(5) assms(3)] by simp
  from keeps_trans [OF keeps_trans [OF restarted.IH 1] this] show ?case .
qed

end

context badger_gc
begin

lemma acked_event_later:
  assumes "server_inv content (sm_server s)" and "clocks_ok it" and "stream_iteration rnd is_ip E B authed it s = (res, Some True, s')"
    and "it_recv it = Msg event"
    and "later_on (- {event_key (it_received it) (stored_event event)}) sha256 B run (sm_server s') run' sv"
  shows "validateKernelEvent is_ip event = None" and "store_all content entry_ok (sv_st sv)"
    and "t + second \<le> fst (it_save it) + st_retention (sv_st (sm_server s)) \<Longrightarrow>
      \<exists>j. marshal_event (stored_event event) = Some j \<and>
        map_of (content (st_db (sv_st sv)) t) (event_key (it_received it) (stored_event event)) = Some j"
proof -
  let ?k = "event_key (it_received it) (stored_event event)"
  obtain event' where a: "accepted_event rnd is_ip authed it (sm_limiter s) = Some event'"
    and p: "process_event E B it event' (sm_server s) = (True, sm_server s')"
    using stream_iteration_cases [OF assms(3)] by auto
  have e: "event' = event" using accepted_event_SomeD(2) [OF a] assms(4) by simp
  show "validateKernelEvent is_ip event = None" using accepted_event_SomeD(3) [OF a] e by simp
  have inv: "server_inv content (sm_server s')"
    by (rule server_steps_inv [OF assms(1) stream_steps_server [OF stream_iteration_steps [OF assms(3,2) writes_in_UNIV]]])
  show all: "store_all content entry_ok (sv_st sv)"
    using later_inv [OF assms(5) inv] by (simp add: server_inv_def store_all_sound_ok)
  have k: "keeps content ?k (st_db (sv_st (sm_server s'))) (st_db (sv_st sv))"
    by (rule later_keeps [OF assms(5) inv]) simp
  assume "t + second \<le> fst (it_save it) + st_retention (sv_st (sm_server s))"
  then have "live_until (Some (st_retention (sv_st (sm_server s)))) (fst (it_save it)) t" by (simp add: live_until_def)
  then obtain j where "marshal_event (stored_event event) = Some j" "map_of (content (st_db (sv_st (sm_server s'))) t) ?k = Some j"
    using process_event_ok(1) [OF p [unfolded e]] by blast
  with k show "\<exists>j. marshal_event (stored_event event) = Some j \<and> map_of (content (st_db (sv_st sv)) t) ?k = Some j"
    by (auto simp: keeps_def)
qed

text \<open>So does an alert the event has raised.\<close>

lemma acked_alert_later:
  assumes "server_inv content (sm_server s)" and "clocks_ok it" and "stream_iteration rnd is_ip E B authed it s = (res, Some True, s')"
    and "it_recv it = Msg event" and "alerts = raised_alerts E it (stored_event event) (sm_server s)"
    and "distinct (map al_AlertID alerts)" and "a \<in> set alerts"
    and "later_on (- {alert_key a}) sha256 B run (sm_server s') run' sv"
    and "\<forall>n < length alerts. t + second \<le> fst (it_alert it n) + st_retention (sv_st (sm_server s))"
  shows "store_all content entry_ok (sv_st sv)"
    and "\<exists>j. marshal_alert a = Some j \<and> map_of (content (st_db (sv_st sv)) t) (alert_key a) = Some j"
proof -
  have inv: "server_inv content (sm_server s')"
    by (rule server_steps_inv [OF assms(1) stream_steps_server [OF stream_iteration_steps [OF assms(3,2) writes_in_UNIV]]])
  show "store_all content entry_ok (sv_st sv)"
    using later_inv [OF assms(8) inv] by (simp add: server_inv_def store_all_sound_ok)
  have "process_event E B it event (sm_server s) = (True, sm_server s')"
    using stream_iteration_cases [OF assms(3)] assms(4) by (auto dest: accepted_event_SomeD)
  from process_event_ok(3) [OF this] assms(5-7,9)
  have "a \<in> set (alerts_desc (content (st_db (sv_st (sm_server s'))) t))" by (auto simp: live_until_def)
  moreover have "store_all content entry_ok (sv_st (sm_server s'))" using inv by (simp add: server_inv_def store_all_sound_ok)
  moreover have "keeps content (alert_key a) (st_db (sv_st (sm_server s'))) (st_db (sv_st sv))"
    by (rule later_keeps [OF assms(8) inv]) simp
  ultimately show "\<exists>j. marshal_alert a = Some j \<and> map_of (content (st_db (sv_st sv)) t) (alert_key a) = Some j"
    by (auto simp: alerts_desc_content keeps_def)
qed

end

section \<open>The table of tokens\<close>

text \<open>A collector writes under the keys of telemetry only, also when a write was abandoned and completes later.\<close>

definition telemetry :: "string set" where
  "telemetry = {k. \<not> HasPrefix k tokenPrefix}"

definition pending_in :: "string set \<Rightarrow> 'db Store \<Rightarrow> bool" where
  "pending_in K st = (\<forall>w \<in> set (st_pending st). fst w \<in> K)"

lemma telemetry_keys [simp]: "event_key r e \<in> telemetry" "alert_key a \<in> telemetry" "agentTokenKey n \<notin> telemetry"
  by (simp_all add: telemetry_def)

lemma SaveEvent_pending: "SaveEvent B st received t who e = (res, st') \<Longrightarrow> pending_in telemetry st \<Longrightarrow> pending_in telemetry st'"
  by (auto simp: pending_in_def dest!: SaveEvent_cases)

lemma SaveAlert_pending: "SaveAlert B st t who a = (res, st') \<Longrightarrow> pending_in telemetry st \<Longrightarrow> pending_in telemetry st'"
  by (auto simp: pending_in_def dest!: SaveAlert_cases)

lemma bg_complete_pending: "pending_in K st \<Longrightarrow> pending_in K (bg_complete B st t i)"
  by (auto simp: bg_complete_def pending_in_def Let_def split: prod.splits sum.splits dest!: in_set_takeD in_set_dropD)

lemma event_step_telemetry:
  assumes "event_step B n sv sv'"
  shows "event_step_on telemetry B n sv sv'" and "pending_in telemetry (sv_st sv) \<Longrightarrow> pending_in telemetry (sv_st sv')"
  using assms by (cases; auto intro: event_step_on.intros SaveEvent_pending SaveAlert_pending)+

lemma server_step_telemetry:
  assumes "server_step B sv sv'" and "pending_in telemetry (sv_st sv)"
  shows "server_step_on telemetry B sv sv'" and "pending_in telemetry (sv_st sv')"
proof -
  show "server_step_on telemetry B sv sv'"
    using assms(1)
  proof cases
    case (handler n)
    from event_step_telemetry(1) [OF this] show ?thesis by (rule server_step_on.handler)
  next
    case (late_write i t)
    then show ?thesis using assms(2) by (auto simp: pending_in_def intro: server_step_on.late_write)
  qed (simp_all add: server_step_on.intros(2,3,5,6,7))
  show "pending_in telemetry (sv_st sv')"
    using assms(1)
  proof cases
    case (handler n)
    from event_step_telemetry(2) [OF this assms(2)] show ?thesis .
  next
    case (late_write i t)
    then show ?thesis using bg_complete_pending [OF assms(2)] by simp
  next
    case (compact db')
    then show ?thesis using assms(2) by (simp add: pending_in_def)
  qed (use assms(2) in simp_all)
qed

lemma run_telemetry:
  assumes "serveCmd B h fl = Inr (NormalMode run)" and "(server_step B)\<^sup>*\<^sup>* (rn_server run) sv"
  shows "(server_step_on telemetry B)\<^sup>*\<^sup>* (rn_server run) sv"
proof -
  have start: "pending_in telemetry (sv_st (rn_server run))"
    using store_New_db [OF serve_normal_server(2) [OF assms(1)]] by (simp add: pending_in_def)
  from assms(2) have "(server_step_on telemetry B)\<^sup>*\<^sup>* (rn_server run) sv \<and> pending_in telemetry (sv_st sv)"
    by (induction rule: rtranclp_induct) (auto simp: start intro: server_step_telemetry rtranclp.rtrancl_into_rtrancl)
  then show ?thesis ..
qed

lemma keeps_token: "keeps content (agentTokenKey n) db db' \<Longrightarrow> token_of (content db' u) n = token_of (content db u) n"
  by (simp add: keeps_def token_of_def)

context badger_gc
begin

text \<open>While a collector runs, the table of tokens is what it was when it started.\<close>

lemma run_tokens:
  assumes "serveCmd B h fl = Inr (NormalMode run)" and "(server_step B)\<^sup>*\<^sup>* (rn_server run) sv"
  shows "token_of (content (st_db (sv_st sv)) u) n = token_of (content (st_db (sv_st (rn_server run))) u) n"
  by (rule keeps_token [OF server_steps_keep [OF run_telemetry [OF assms]]]) simp

text \<open>The record of a node is what its last command made it, through all runs and the commands for other nodes.\<close>

lemma deployment_token:
  assumes "db_sound content db" and "(db_step_on (- {agentTokenKey n}) sha256 B)\<^sup>*\<^sup>* db db'"
    and "ho_open h (fl_dataDir fl) = Inr db'" and "serveCmd B h fl = Inr (NormalMode run)"
    and "(server_step B)\<^sup>*\<^sup>* (rn_server run) sv"
  shows "token_of (content (st_db (sv_st sv)) u) n = token_of (content db u) n"
proof -
  have "st_db (sv_st (rn_server run)) = db'" using serve_normal_server(1) [OF assms(4)] assms(3) by simp
  then show ?thesis using run_tokens [OF assms(4,5)] keeps_token [OF db_steps_keep [OF assms(2,1)]] by simp
qed

lemma tokenIssueCmd_table:
  assumes "tokenIssueCmd sha256 B (Inr db) t rnd now t' arg = (Inr out, Some db')"
  obtains tok where "out = tok @ [CHR 0x0A]"
    and "\<And>u. token_of (content db' u) = (token_of (content db u))(TrimSpace arg \<mapsto>
      \<lparr>tk_NodeID = coerce_utf8 (TrimSpace arg), tk_TokenHash = hashToken sha256 tok, tk_IssuedAt = now, tk_RevokedAt = None\<rparr>)"
proof -
  obtain st tok st' where st: "store_New B (Inr db) t = Inr st" "out = tok @ [CHR 0x0A]" "db' = st_db st'"
    "IssueToken sha256 B st t FnWins rnd now t' FnWins (TrimSpace arg) = (Inr tok, st')"
    using assms by (auto simp: tokenIssueCmd_def openTokenStore_def Let_def split: if_splits sum.splits prod.splits)
  show thesis using that [OF st(2)] IssueToken_table(3) [OF st(4)] store_New_db [OF st(1)] st(3) by simp
qed

lemma tokenIssueCmd_again:
  assumes "tokenIssueCmd sha256 B (Inr db) t rnd now t' arg = (res, dbo)"
    and "token_of (content db t) (TrimSpace arg) = Some rec" and "tk_RevokedAt rec = None"
  shows "\<exists>err. res = Inl err" and "dbo \<in> {None, Some db}"
proof -
  have "(\<exists>err. res = Inl err) \<and> dbo \<in> {None, Some db}"
  proof (cases "TrimSpace arg = [] \<or> (\<exists>err. store_New B (Inr db) t = Inl err)")
    case True
    then show ?thesis using assms(1) by (auto simp: tokenIssueCmd_def openTokenStore_def Let_def split: if_splits)
  next
    case False
    then obtain st where st: "store_New B (Inr db) t = Inr st" by (cases "store_New B (Inr db) t") auto
    have db: "st_db st = db" using store_New_db [OF st] by simp
    obtain r st' where i: "IssueToken sha256 B st t FnWins rnd now t' FnWins (TrimSpace arg) = (r, st')" by fastforce
    from active_token_not_reissued [OF _ assms(3) i] assms(2) obtain err where "r = Inl err" "st_db st' = db" by (auto simp: db)
    then show ?thesis using assms(1) False st i by (simp add: tokenIssueCmd_def openTokenStore_def Let_def) auto
  qed
  then show "\<exists>err. res = Inl err" and "dbo \<in> {None, Some db}" by blast+
qed

lemma tokenRevokeCmd_table:
  assumes "db_sound content db" and "tokenRevokeCmd B (Inr db) t now t' yes line arg = (Inr out, Some db')"
    and "\<And>u. token_of (content db u) (TrimSpace arg) = Some rec" and "tk_RevokedAt rec = None"
    and "coerce_utf8 (TrimSpace arg) = TrimSpace arg"
  shows "token_of (content db' u) = (token_of (content db u))(TrimSpace arg \<mapsto> rec\<lparr>tk_RevokedAt := Some now\<rparr>)"
proof -
  obtain st st' where st: "store_New B (Inr db) t = Inr st" "db' = st_db st'"
    "RevokeToken B st t FnWins now t' FnWins (TrimSpace arg) = (None, st')"
    using assms(2) by (auto simp: tokenRevokeCmd_def openTokenStore_def Let_def split: if_splits sum.splits prod.splits option.splits)
  have d: "st_db st = db" using store_New_db [OF st(1)] by simp
  show ?thesis
    using revoked_record [OF store_all_sound_ok [OF store_New_sound [OF st(1) assms(1)]] _ assms(4) st(3) assms(5), of u]
      assms(3) st(2) d by simp
qed

end

text \<open>A collector started over a database, in a state it can reach.\<close>

definition collector_at :: "'db badger \<Rightarrow> 'db \<Rightarrow> 'db running \<Rightarrow> 'db server \<Rightarrow> bool" where
  "collector_at B db run sv = (\<exists>h fl. ho_open h (fl_dataDir fl) = Inr db \<and>
     serveCmd B h fl = Inr (NormalMode run) \<and> (server_step B)\<^sup>*\<^sup>* (rn_server run) sv)"

context badger_gc
begin

lemma collector_at_facts:
  assumes "db_sound content db" and "(db_step_on (- {agentTokenKey n}) sha256 B)\<^sup>*\<^sup>* db db'" and "collector_at B db' run sv"
  shows "store_all content entry_ok (sv_st sv)" and "token_of (content (st_db (sv_st sv)) u) n = token_of (content db u) n"
proof -
  obtain h fl where h: "ho_open h (fl_dataDir fl) = Inr db'" "serveCmd B h fl = Inr (NormalMode run)"
    "(server_step B)\<^sup>*\<^sup>* (rn_server run) sv" using assms(3) by (auto simp: collector_at_def)
  show "store_all content entry_ok (sv_st sv)"
    using serve_reachable [OF db_sys.inv_steps [OF assms(2,1)] h] by (simp add: server_inv_def store_all_sound_ok)
  show "token_of (content (st_db (sv_st sv)) u) n = token_of (content db u) n"
    by (rule deployment_token [OF assms(1,2) h])
qed

lemma held_token_admits:
  assumes "store_all content entry_ok (sv_st sv)" and "token_of (content (st_db (sv_st sv)) u) n = Some rec"
    and "active_with (hashToken sha256 tok) rec"
    and "\<And>m rec. token_of (content (st_db (sv_st sv)) u) m = Some rec \<Longrightarrow> m \<noteq> n \<Longrightarrow> \<not> active_with (hashToken sha256 tok) rec"
    and "bd_view B (st_db (sv_st sv)) u = Inr snap" and "\<forall>(k, v) \<in> set snap. \<exists>j. v = Inr j"
  shows "authInterceptor sha256 B u FnWins True (Some ((''Bearer '' @ tok) # vs)) handler sv =
    (case handler (coerce_utf8 n) sv of (r, sv') \<Rightarrow> (Inr r, sv'))"
proof -
  obtain r where l: "LookupNodeID sha256 B (sv_st sv) u FnWins tok = Inr r" using LookupNodeID_returns [OF assms(1,5,6)] by blast
  have "r = (coerce_utf8 n, True)"
  proof (rule sole_record_resolves [OF assms(1) l assms(2)])
    show "tk_RevokedAt rec = None" "tk_TokenHash rec = hashToken sha256 tok" using assms(3) by (simp_all add: active_with_def)
    show "tk_TokenHash rec' \<noteq> hashToken sha256 tok"
      if "token_of (content (st_db (sv_st sv)) u) m = Some rec'" "m \<noteq> n" "tk_RevokedAt rec' = None" for m rec'
      using assms(4) [OF that(1,2)] that(3) by (simp add: active_with_def)
  qed
  moreover have "CutPrefix (''Bearer '' @ tok) ''Bearer '' = Some tok" by (simp add: CutPrefix_Some)
  ultimately have "checkAuth sha256 B (sv_st sv) u FnWins True (Some ((''Bearer '' @ tok) # vs)) = Inr (coerce_utf8 n)"
    using l by (simp add: checkAuth_def)
  then show ?thesis by (simp add: authInterceptor_def)
qed

lemma unheld_token_refused:
  assumes "store_all content entry_ok (sv_st sv)"
    and "\<And>m rec. token_of (content (st_db (sv_st sv)) u) m = Some rec \<Longrightarrow> \<not> active_with (hashToken sha256 tok) rec"
  shows "\<exists>err. authInterceptor sha256 B u who True (Some ((''Bearer '' @ tok) # vs)) handler sv = (Inl err, sv)"
proof (cases "checkAuth sha256 B (sv_st sv) u who True (Some ((''Bearer '' @ tok) # vs))")
  case (Inr n)
  then show ?thesis using checkAuth_Inr [OF assms(1) Inr] assms(2) by (fastforce simp: active_with_def)
qed (simp add: authInterceptor_def)

end

end
