(* ===== verification/Observed.thy ===== *)
theory Observed
  imports Receiver
begin

text \<open>
  What the metrics and the traces say about the messages of a stream. Shown: what is counted for a message
  that is handled, and that nothing is for one that is not; that the counter of failed writes goes up exactly
  when the agent is told no; which span a handled event leaves.
\<close>

text \<open>The counters after alerts were raised, and whether all writes have succeeded.\<close>

definition alerts_counted :: "MetricsProvider \<Rightarrow> Alert list \<Rightarrow> bool \<Rightarrow> MetricsProvider \<Rightarrow> bool" where
  "alerts_counted mp alerts ok mp' =
     (mp_events mp' = mp_events mp \<and>
      (\<forall>k. gm_count (mp_alerts mp') k = gm_count (mp_alerts mp) k +
         int (length (filter (\<lambda>a. (al_RuleID a, al_Severity a, al_NodeID a) = k) alerts))) \<and>
      (\<forall>k. gm_count (mp_store_write_failures mp) k \<le> gm_count (mp_store_write_failures mp') k) \<and>
      (ok \<longleftrightarrow> (\<forall>k. gm_count (mp_store_write_failures mp') k = gm_count (mp_store_write_failures mp) k)))"

lemma alerts_counted_Nil: "alerts_counted mp [] True mp"
  by (simp add: alerts_counted_def)

lemma alerts_counted_trans:
  assumes "alerts_counted mp as ok mp1" and "alerts_counted mp1 bs ok' mp2"
  shows "alerts_counted mp (as @ bs) (ok \<and> ok') mp2"
proof -
  have "(\<forall>k. gm_count (mp_store_write_failures mp2) k = gm_count (mp_store_write_failures mp) k) \<longleftrightarrow>
      (\<forall>k. gm_count (mp_store_write_failures mp1) k = gm_count (mp_store_write_failures mp) k) \<and>
      (\<forall>k. gm_count (mp_store_write_failures mp2) k = gm_count (mp_store_write_failures mp1) k)"
    using assms unfolding alerts_counted_def by (metis order_antisym)
  moreover have "gm_count (mp_store_write_failures mp) k \<le> gm_count (mp_store_write_failures mp2) k" for k
    using assms unfolding alerts_counted_def by (meson order_trans)
  ultimately show ?thesis using assms by (simp add: alerts_counted_def)
qed

lemma alert_body_observed:
  assumes "alert_body B w a sv = (err, sv')" and "sv_metrics sv = Some mp"
  shows "\<exists>mp'. sv_metrics sv' = Some mp' \<and> alerts_counted mp [a] (err = None) mp'" and "sv_tracer sv' = sv_tracer sv"
  using assms
  by (cases "SaveAlert B (sv_st sv) (fst w) (snd w) a";
      auto simp: alert_body_def with_metrics_def RecordAlert_def RecordStoreWriteFailure_def alerts_counted_def Let_def split: if_splits)+

lemma alert_loop_observed:
  assumes "alert_loop B it i ok sv alerts = (ok', sv')" and "sv_metrics sv = Some mp"
  shows "\<exists>mp' ok1. sv_metrics sv' = Some mp' \<and> alerts_counted mp alerts ok1 mp' \<and> (ok' \<longleftrightarrow> ok \<and> ok1) \<and> sv_tracer sv' = sv_tracer sv"
  using assms
proof (induction alerts arbitrary: i ok sv mp)
  case (Cons a alerts)
  obtain err sv1 where b: "alert_body B (it_alert it i) a sv = (err, sv1)" by fastforce
  obtain mp1 where 1: "sv_metrics sv1 = Some mp1" "alerts_counted mp [a] (err = None) mp1" "sv_tracer sv1 = sv_tracer sv"
    using alert_body_observed [OF b Cons.prems(2)] by blast
  have l: "alert_loop B it (Suc i) (ok \<and> err = None) sv1 alerts = (ok', sv')" using Cons.prems(1) b by simp
  from Cons.IH [OF l 1(1)] obtain mp' ok1 where 2: "sv_metrics sv' = Some mp'" "alerts_counted mp1 alerts ok1 mp'"
    "ok' \<longleftrightarrow> (ok \<and> err = None) \<and> ok1" "sv_tracer sv' = sv_tracer sv1" by blast
  then show ?case using alerts_counted_trans [OF 1(2) 2(2)] 1(3) by auto
qed (auto intro: alerts_counted_Nil)

lemma alert_spans:
  "foldl alert_triggered sp alerts = sp\<lparr>sp_events := sp_events sp @
     map (\<lambda>a. (''alert_triggered'', [(''rule.id'', al_RuleID a), (''severity'', al_Severity a), (''message'', al_Message a)])) alerts\<rparr>"
  by (induction alerts arbitrary: sp) (simp_all add: alert_triggered_def)

lemma process_event_observed:
  assumes "process_event E B it event sv = (ok, sv')" and "sv_metrics sv = Some mp"
  defines "alerts \<equiv> raised_alerts E it (stored_event event) sv"
  shows "\<exists>mp'. sv_metrics sv' = Some mp' \<and>
      alerts_counted (RecordEvent mp (eventTypeName event) (ke_NodeId event)) alerts ok mp'"
    and "sv_tracer sv' = (if sv_engine sv = None \<and> sv_detector sv = None then sv_tracer sv
      else span_End (foldl alert_triggered (evaluation_span (stored_event event)) alerts) (sv_tracer sv))"
proof -
  let ?e = "stored_event event" and ?sv1 = "sv\<lparr>sv_reg := Heartbeat (sv_reg sv) (it_heartbeat it) (ke_NodeId event)\<rparr>"
  let ?mp = "RecordEvent mp (eventTypeName event) (ke_NodeId event)"
  obtain err st' where s: "SaveEvent B (sv_st sv) (it_received it) (fst (it_save it)) (snd (it_save it)) ?e = (err, st')" by fastforce
  let ?sv2 = "?sv1\<lparr>sv_st := st'\<rparr>"
  let ?sv3 = "if err \<noteq> None then with_metrics (\<lambda>mp. RecordStoreWriteFailure mp ''event'') ?sv2 else ?sv2"
  let ?sv4 = "with_metrics (\<lambda>mp. RecordEvent mp (ev_Type ?e) (ev_NodeID ?e)) ?sv3"
  let ?mp4 = "RecordEvent (if err \<noteq> None then RecordStoreWriteFailure mp ''event'' else mp) (ev_Type ?e) (ev_NodeID ?e)"
  obtain as sv5 where v: "evaluate_alerts E it ?e ?sv4 = (as, sv5)" by fastforce
  have as: "as = alerts" using evaluate_alerts_raised [OF v] by (simp add: alerts_def raised_alerts_def)
  have m5: "sv_metrics sv5 = Some ?mp4" "sv_tracer sv5 = sv_tracer sv"
    using evaluate_alerts_cases [OF v] assms(2) by (auto simp: with_metrics_def)
  obtain sv6 where l: "alert_loop B it 0 (err = None) sv5 alerts = (ok, sv6)"
    and t: "sv' = (if sv_engine sv \<noteq> None \<or> sv_detector sv \<noteq> None
      then sv6\<lparr>sv_tracer := span_End (foldl alert_triggered (evaluation_span ?e) alerts) (sv_tracer sv6)\<rparr> else sv6)"
    using assms(1) s v as by (auto simp: process_event_def Let_def split: prod.splits if_splits)
  have c: "alerts_counted ?mp [] (err = None) ?mp4"
    by (simp add: alerts_counted_def RecordEvent_def RecordStoreWriteFailure_def stored_event_def)
  obtain mp' ok1 where 6: "sv_metrics sv6 = Some mp'" "alerts_counted ?mp4 alerts ok1 mp'" "ok \<longleftrightarrow> err = None \<and> ok1"
    "sv_tracer sv6 = sv_tracer sv5"
    using alert_loop_observed [OF l m5(1)] by blast
  then show "\<exists>mp'. sv_metrics sv' = Some mp' \<and> alerts_counted ?mp alerts ok mp'"
    using alerts_counted_trans [OF c 6(2)] t by auto
  show "sv_tracer sv' = (if sv_engine sv = None \<and> sv_detector sv = None then sv_tracer sv
      else span_End (foldl alert_triggered (evaluation_span ?e) alerts) (sv_tracer sv))"
    using t 6(4) m5(2) by simp
qed

section \<open>Properties\<close>

text \<open>
  C31: what is observed. A message that is not handled (over the rate, invalid, of another node) leaves metrics and
  traces as they are. For one that is handled the counter of events goes up by one for its type and node, the
  counter of alerts by one for each alert it raises, under the alert's rule, severity and node; the counters of
  failed writes never go down, and stay as they are exactly when the agent is told yes. When events are
  evaluated at all and an exporter is configured, one span ends, with the event's ids and an entry for each
  alert, in order.
\<close>

theorem handled_event_observed:
  assumes "stream_iteration rnd is_ip E B authed it s = (res, ack, s')" and "sv_metrics (sm_server s) = Some mp"
  shows "(accepted_event rnd is_ip authed it (sm_limiter s) = None \<longrightarrow>
      sv_metrics (sm_server s') = Some mp \<and> sv_tracer (sm_server s') = sv_tracer (sm_server s)) \<and>
    (\<forall>event. accepted_event rnd is_ip authed it (sm_limiter s) = Some event \<longrightarrow>
      (\<exists>mp' alerts. alerts = raised_alerts E it (stored_event event) (sm_server s) \<and> sv_metrics (sm_server s') = Some mp' \<and>
        (\<forall>k. gm_count (mp_events mp') k = gm_count (mp_events mp) k + (if k = (eventTypeName event, ke_NodeId event) then 1 else 0)) \<and>
        (\<forall>k. gm_count (mp_alerts mp') k = gm_count (mp_alerts mp) k +
          int (length (filter (\<lambda>a. (al_RuleID a, al_Severity a, al_NodeID a) = k) alerts))) \<and>
        (\<forall>k. gm_count (mp_store_write_failures mp) k \<le> gm_count (mp_store_write_failures mp') k) \<and>
        (ack = Some True \<longleftrightarrow> (\<forall>k. gm_count (mp_store_write_failures mp') k = gm_count (mp_store_write_failures mp) k)) \<and>
        tr_ended (sv_tracer (sm_server s')) = tr_ended (sv_tracer (sm_server s)) @
          (if (sv_engine (sm_server s) \<noteq> None \<or> sv_detector (sm_server s) \<noteq> None) \<and> tr_exports (sv_tracer (sm_server s))
           then [\<lparr>sp_name = ''evaluate_alerts'',
             sp_attributes = [(''event.id'', ke_EventId event), (''event.type'', eventTypeName event), (''node.id'', ke_NodeId event)],
             sp_events = map (\<lambda>a. (''alert_triggered'', [(''rule.id'', al_RuleID a), (''severity'', al_Severity a), (''message'', al_Message a)])) alerts\<rparr>]
           else [])))"
    (is "_ \<and> (\<forall>event. _ \<longrightarrow> ?observed event)")
proof (intro conjI impI allI)
  assume "accepted_event rnd is_ip authed it (sm_limiter s) = None"
  then have "sm_server s' = sm_server s" using stream_iteration_cases [OF assms(1)] by auto
  with assms(2) show "sv_metrics (sm_server s') = Some mp" "sv_tracer (sm_server s') = sv_tracer (sm_server s)" by simp_all
next
  fix event assume "accepted_event rnd is_ip authed it (sm_limiter s) = Some event"
  then obtain ok where p: "process_event E B it event (sm_server s) = (ok, sm_server s')" and a: "ack = Some ok"
    using stream_iteration_cases [OF assms(1)] by auto
  let ?alerts = "raised_alerts E it (stored_event event) (sm_server s)"
  obtain mp' where "sv_metrics (sm_server s') = Some mp'"
    "alerts_counted (RecordEvent mp (eventTypeName event) (ke_NodeId event)) ?alerts ok mp'"
    using process_event_observed(1) [OF p assms(2)] by blast
  then show "?observed event"
    using process_event_observed(2) [OF p assms(2)]
    by (intro exI [of _ mp'] exI [of _ ?alerts])
      (simp add: a alerts_counted_def RecordEvent_def alert_spans span_End_def evaluation_span_def stored_event_def)
qed

definition demo_observed :: "mem_db stream" where
  "demo_observed = demo_stream\<lparr>sm_server := demo_server\<lparr>sv_engine := Some (engine_New (Some [])),
     sv_metrics := Some \<lparr>mp_events = [], mp_alerts = [], mp_store_write_failures = []\<rparr>,
     sv_tracer := \<lparr>tr_exports = True, tr_ended = []\<rparr>\<rparr>\<rparr>"

lemma demo_accepted:
  "accepted_event (\<lambda>x. x) (\<lambda>_. False) ''n'' (demo_iteration (demo_kernel_event ''n'' ''i'')) (sm_limiter demo_observed) =
    Some (demo_kernel_event ''n'' ''i'')"
proof -
  have "fst (allow (\<lambda>x. x) (sm_limiter demo_stream) 0)"
    by (simp add: demo_stream_def allow_def newTokenBucket_def streamEventsRateBurst_def streamEventsRateLimit_def
        dur_seconds_def time_sub_def trunc_div_def Let_def int64_min_def int64_max_def)
  then show ?thesis using demo_kernel_event_valid
    by (simp add: accepted_event_def demo_iteration_def demo_observed_def demo_kernel_event_def [of "''n''" "''i''"])
qed

theorem handled_event_observed_witness:
  "\<exists>res ack s' mp'. stream_iteration (\<lambda>x. x) (\<lambda>_. False) demo_alerting mem_badger ''n''
      (demo_iteration (demo_kernel_event ''n'' ''i'')) demo_observed = (res, ack, s') \<and>
    sv_metrics (sm_server s') = Some mp' \<and> gm_count (mp_events mp') (''exec'', ''n'') = 1 \<and>
    length (tr_ended (sv_tracer (sm_server s'))) = 1"
proof -
  obtain res ack s' where i: "stream_iteration (\<lambda>x. x) (\<lambda>_. False) demo_alerting mem_badger ''n''
      (demo_iteration (demo_kernel_event ''n'' ''i'')) demo_observed = (res, ack, s')" by (cases rule: prod_cases3) blast
  have m: "sv_metrics (sm_server demo_observed) = Some \<lparr>mp_events = [], mp_alerts = [], mp_store_write_failures = []\<rparr>"
    by (simp add: demo_observed_def)
  have k: "(eventTypeName (demo_kernel_event ''n'' ''i''), ke_NodeId (demo_kernel_event ''n'' ''i'')) = (''exec'', ''n'')"
    by (simp add: demo_kernel_event_def eventTypeName_def)
  from handled_event_observed [OF i m, THEN conjunct2, rule_format, OF demo_accepted] i show ?thesis
    unfolding k by (auto simp: demo_observed_def gm_count_def)
qed

end
