(* ===== verification/Spec2Isabelle.thy ===== *)
theory Spec2Isabelle
  imports Deployment Observed
begin

text \<open>
  Verification of the control plane of SentinelMesh: the Go program under \<^verbatim>\<open>src/go-collector\<close>.

  \<^bold>\<open>The program.\<close> Agents on the monitored hosts send kernel events (process executions, TCP connections, file
  accesses) to a collector over gRPC. The collector keeps a registry of the agents with their heartbeats,
  stores events in a Badger database, evaluates alert rules and sliding-window frequencies, stores the
  alerts and notifies Slack and e-mail, and serves a REST API. Agents authenticate with tokens of their own
  that an operator issues and revokes by commands on the same database. In aggregate mode the same binary
  polls the REST APIs of several collectors and serves the merged view.

  \<^bold>\<open>Theories and sources.\<close> Paths are below \<^verbatim>\<open>src/go-collector\<close>. Definitions have the names of the Go functions
  and types, with the package in front where two packages use a name (\<^verbatim>\<open>registry_New\<close>, \<^verbatim>\<open>store_New\<close>); record fields
  carry a short prefix.

    \<^item> \<^verbatim>\<open>Go_Prelude\<close>, \<^verbatim>\<open>Go_Time\<close>, \<^verbatim>\<open>Go_Json\<close>: what the source uses of Go's standard library (byte strings, maps, number
      formats; instants, durations and their layouts; JSON trees), and the locale \<^verbatim>\<open>invariant_system\<close> of a step
      relation with an invariant.
    \<^item> \<^verbatim>\<open>Registry\<close>: \<^verbatim>\<open>internal/registry/registry.go\<close>. Invariant of all reachable states; a sweep refines a
      specification per agent; what heartbeats and silence lead to.
    \<^item> \<^verbatim>\<open>Badger\<close>: the interface of the database, as the locales \<^verbatim>\<open>badger_db\<close> and \<^verbatim>\<open>badger_gc\<close>.
    \<^item> \<^verbatim>\<open>StoreTypes\<close>, \<^verbatim>\<open>Store\<close>: \<^verbatim>\<open>internal/store/badger.go\<close>. What is saved is read back; what listings
      return and in which order; counters; abandoned writes; the goroutine of the value-log garbage collection.
      The two listings share the locales \<^verbatim>\<open>node_scan\<close> and \<^verbatim>\<open>db_scan\<close>.
    \<^item> \<^verbatim>\<open>AgentTokens\<close>: \<^verbatim>\<open>internal/store/agenttoken.go\<close>. The table of tokens as a map; life of a token; the
      tokens that cannot be revoked; soundness of the database over all runs of the store.
    \<^item> \<^verbatim>\<open>Anomaly\<close>: \<^verbatim>\<open>internal/anomaly/detector.go\<close>. Equivalence with a detector that forgets nothing.
    \<^item> \<^verbatim>\<open>Alerting\<close>: \<^verbatim>\<open>internal/alerting\<close>. Validation and evaluation against their specifications.
    \<^item> \<^verbatim>\<open>Notify\<close>: \<^verbatim>\<open>internal/notify\<close>. Bounds and bookkeeping of the dispatcher over all interleavings; the cooldown;
      the deadline all channels of a dispatch share; the header fields of an e-mail and the SMTP conversation that delivers it.
    \<^item> \<^verbatim>\<open>Metrics\<close>, \<^verbatim>\<open>Traces\<close>: \<^verbatim>\<open>internal/otel\<close>. \<^verbatim>\<open>HttpAuth\<close>: \<^verbatim>\<open>internal/httpauth/auth.go\<close>.
    \<^item> \<^verbatim>\<open>RateLimit\<close>, \<^verbatim>\<open>Validation\<close>, \<^verbatim>\<open>Receiver\<close>: \<^verbatim>\<open>internal/receiver/grpc.go\<close>. The token bucket with its bound; the
      checks of messages and the form they are stored in; authentication, \<^verbatim>\<open>Register\<close> and \<^verbatim>\<open>StreamEvents\<close>, with the keys a stream can write.
    \<^item> \<^verbatim>\<open>Observed\<close>: what metrics and traces say about the messages of a stream.
    \<^item> \<^verbatim>\<open>Exporter\<close>: \<^verbatim>\<open>internal/exporter/api.go\<close>. What the routes return, and to whom.
    \<^item> \<^verbatim>\<open>Aggregator\<close>: \<^verbatim>\<open>internal/aggregator\<close>. Isolation of the regions; agreement with the collectors; how
      much of a reply is read.
    \<^item> \<^verbatim>\<open>Collector\<close>: \<^verbatim>\<open>cmd/collector\<close>. Both modes of \<^verbatim>\<open>serve\<close>, its end after a signal or a failure, and the token commands.
    \<^item> \<^verbatim>\<open>Deployment\<close>: the collector as one system, and the processes that follow each other over one database; their
      invariants, and what stays in the database as long as nothing is written under its key.
    \<^item> This theory: the properties that span components: isolation of the agents, the way of an event and of the alerts it raises from
      an agent to the REST API across restarts, and of an event on to an aggregator, what the token commands mean to later collectors, restarts, and what the alert
      rules can see of an event.

  \<^bold>\<open>State and concurrency.\<close> The state the goroutines of a collector share is the record \<^verbatim>\<open>server\<close> of \<^verbatim>\<open>Receiver\<close>:
  store, registry, engine, detector, notifier, metrics. Each call on a component is atomic by the
  component's lock. The handlers are functions that make these calls in the order of the source; they are
  shown (\<^verbatim>\<open>handlers_are_steps\<close>) to be sequences of steps of the relation \<^verbatim>\<open>server_step\<close>, in which the steps of all streams and
  background goroutines interleave freely, and the system invariant is proved over that relation. A property of one
  message of a stream takes the iteration of the loop as one function and lets the others act before and after it.
  A database
  outlives the processes: \<^verbatim>\<open>db_step\<close> is a token command or a run of a collector over it, \<^verbatim>\<open>deployed\<close> says that such
  steps have made it from an empty one, and \<^verbatim>\<open>later_on\<close> relates a state of a collector to those after it, in the same
  process or in later ones. The relations come restricted to writes under the keys of a set (\<^verbatim>\<open>server_step_on\<close>,
  \<^verbatim>\<open>db_step_on\<close>), so that a property of an entry can be stated for all runs that leave its key alone.

  \<^bold>\<open>What is a parameter.\<close> Code outside the repository and the outside world are arguments of the definitions:
  the database operations (laws: \<^verbatim>\<open>badger_db\<close>, \<^verbatim>\<open>badger_gc\<close>, met by a reference database), SHA-256, random bytes,
  fresh ids, the clocks, regular expressions, YAML, \<^verbatim>\<open>ParseFloat\<close>, \<^verbatim>\<open>ParseIP\<close> (law: \<^verbatim>\<open>ip_charset\<close>), \<^verbatim>\<open>url.Parse\<close>, the HTTP
  client and the JSON decoder behind it (law: \<^verbatim>\<open>reaches\<close>), the SMTP server (law on their deadlines: \<^verbatim>\<open>network_ok\<close>), the environment and the file system. Floating-point rounding in the rate limiter
  is a function with the law \<^verbatim>\<open>rounding_ok\<close>. \<^verbatim>\<open>clock_ok\<close> says that the wall clock is in the years 1 to 9999, for which
  \<^verbatim>\<open>time.RFC3339Nano\<close> prints four-digit years.

  \<^bold>\<open>Loops.\<close> Loops over data are structural recursion. A stream is the list of its iterations, a sweep sequence
  the list of its ticks; the loops of background goroutines are such lists too. The goroutine of the value-log
  garbage collection, whose rounds end only when the library returns an error, is a step function, and its runs a
  relation in which other goroutines change the database between the steps. No definition uses fuel.

  \<^bold>\<open>Strings.\<close> A string is the list of its bytes. Encoding a string as JSON replaces the bytes that are no UTF-8
  (\<^verbatim>\<open>coerce_utf8\<close>); this matters to the node ids of tokens, which come from the command line. Region names from the
  command line are taken to be UTF-8; all other strings that are encoded come from protobuf or YAML, which admit no
  other.

  \<^bold>\<open>Not modelled.\<close> The text of log messages, the batches of the trace exporter and its limit of 128 events a span,
  the text of JSON, HTTP and gRPC on the wire, the redirects of \<^verbatim>\<open>gin\<close> and its CORS middleware, the command-line parser \<^verbatim>\<open>cobra\<close>, the alignment
  of the token table by \<^verbatim>\<open>tabwriter\<close>, the timing of constant-time comparisons, and the generated protobuf code
  but for its structs. The Rust agent, the web UI and the scripts are separate programs.
\<close>

section \<open>Properties\<close>

text \<open>
  C11: the invariants of a running collector. Over any database of a deployment (made from an empty one by
  the token commands and earlier runs), whatever the streams, the sweeps, the garbage collections, the
  late writes and the notifications do and however they interleave: the registry stays well formed, every
  database entry, live or pending, is a sound record of its key space, no node without a name has a
  token, the detector's windows stay well formed, and no more notification goroutines run than the bound.
\<close>

theorem collector_invariant:
  assumes "badger_gc B content" and "deployed sha256 B content db"
    and "ho_open h (fl_dataDir fl) = Inr db" and "serveCmd B h fl = Inr (NormalMode run)"
    and "(server_step B)\<^sup>*\<^sup>* (rn_server run) sv"
  shows "registry_inv (sv_reg sv) \<and> store_all content entry_ok (sv_st sv) \<and>
    (\<forall>t. token_of (content (st_db (sv_st sv)) t) [] = None) \<and> detector_ok (sv_detector sv) \<and>
    length (ns_running (sv_notifier sv)) \<le> maxConcurrentDispatch"
  using badger_gc.serve_reachable [OF assms(1) badger_gc.deployed_sound [OF assms(1,2)] assms(3-5)]
  by (simp add: server_inv_def store_all_sound_ok store_all_no_empty_token)

lemma mem_gc_axioms: "badger_gc mem_badger mem_content"
  by unfold_locales

lemma demo_fresh: "db_fresh mem_content []"
  by (simp add: db_fresh_def mem_content_def)

lemma demo_deployed: "deployed sha256 mem_badger mem_content []"
  using demo_fresh by (auto simp: deployed_def)

lemma mem_readable: "\<forall>(k, v) \<in> set (map (\<lambda>(k, j). (k, Inr j)) c). \<exists>j. v = Inr j"
  by auto

lemma demo_open: "ho_open (demo_host db) (fl_dataDir demo_flags) = Inr db"
  by (simp add: demo_host_def)

theorem collector_invariant_witness:
  "\<exists>run sv. serveCmd mem_badger (demo_host []) demo_flags = Inr (NormalMode run) \<and>
    (server_step mem_badger)\<^sup>*\<^sup>* (rn_server run) sv \<and> sv \<noteq> rn_server run \<and> registry_inv (sv_reg sv)"
proof -
  obtain run where r: "serveCmd mem_badger (demo_host []) demo_flags = Inr (NormalMode run)" using demo_serve by blast
  obtain reg where reg: "registry_Register (sv_reg (rn_server run)) 5 ''web'' ''h'' ''i'' ''v'' [] = Inr reg" "reg \<noteq> registry_New"
    using serve_normal_server(3) [OF r] by (simp add: registry_Register_def registry_New_def Let_def)
  let ?sv = "(rn_server run)\<lparr>sv_reg := reg\<rparr>"
  have s: "(server_step mem_badger)\<^sup>*\<^sup>* (rn_server run) ?sv"
    using reg(1) by (blast intro: server_step_on.registry registry_step.register)
  have "sv_reg ?sv \<noteq> sv_reg (rn_server run)" using serve_normal_server(3) [OF r] reg(2) by simp
  then have n: "?sv \<noteq> rn_server run" by metis
  from collector_invariant [OF mem_gc_axioms demo_deployed demo_open r s] r s n show ?thesis by blast
qed

text \<open>
  The handlers refine the system: a whole stream, with all its messages, whether authenticated or not,
  and a registration are sequences of steps of the system, so what is shown of all interleavings of steps
  holds while any number of handlers run. A stream that has keys in \<open>K\<close> only to write, those of its messages and of
  alerts with the ids drawn for them, writes no other keys.
\<close>

lemma handlers_are_steps:
  "((\<forall>it \<in> set its. clocks_ok it \<and> writes_in K it) \<and> StreamEvents rnd is_ip E B start its authed sv = (r, sv') \<longrightarrow> (server_step_on K B)\<^sup>*\<^sup>* sv sv') \<and>
   (receiver_Register is_ip split_host now peer req authed sv = (resp, sv'') \<longrightarrow> (server_step_on K B)\<^sup>*\<^sup>* sv sv'')"
proof (intro conjI impI; (elim conjE)?)
  assume "\<forall>it \<in> set its. clocks_ok it \<and> writes_in K it" and "StreamEvents rnd is_ip E B start its authed sv = (r, sv')"
  then show "(server_step_on K B)\<^sup>*\<^sup>* sv sv'" by (intro stream_steps_server) (rule StreamEvents_steps [rotated])
next
  assume R: "receiver_Register is_ip split_host now peer req authed sv = (resp, sv'')"
  show "(server_step_on K B)\<^sup>*\<^sup>* sv sv''"
  proof (cases "sv'' = sv")
    case False
    then obtain reg where "registry_step (sv_reg sv) reg" "sv'' = sv\<lparr>sv_reg := reg\<rparr>"
      using R by (auto simp: receiver_Register_def Let_def split: option.splits if_splits sum.splits intro: registry_step.register)
    then show ?thesis by (blast intro: server_step_on.registry)
  qed simp
qed

text \<open>
  C1: isolation of the agents of a deployment. When the API token is set, then in every state a collector
  can reach, a stream call and a registration either are refused without effect, or present a token that is on
  record for some node, not revoked, and change nothing that concerns another node: not its registry entry, not
  its anomaly windows, and every entry they add to the database, now or later, is an event or an alert of the node. A
  stream leaves every entry as it is whose key is not that of one of its messages (which holds the instant of
  reception) or of an alert with a fresh id; a registration leaves the database as it is.
\<close>

theorem deployment_isolation:
  assumes "badger_gc B content" and "deployed sha256 B content db"
    and "ho_open h (fl_dataDir fl) = Inr db" and "serveCmd B h fl = Inr (NormalMode run)"
    and "(server_step B)\<^sup>*\<^sup>* (rn_server run) sv" and "TrimSpace (ho_Getenv h ''SENTINEL_API_TOKEN'') \<noteq> []"
    and "\<forall>it \<in> set its. clocks_ok it"
  shows "(authInterceptor sha256 B t who (rn_authEnabled run) md (StreamEvents rnd is_ip E B start its) sv = (res, sv') \<longrightarrow>
      confined sha256 content t md (isl res) sv sv' \<and>
      (\<forall>k. k \<notin> (\<Union>it \<in> set its. written it) \<longrightarrow> keeps content k (st_db (sv_st sv)) (st_db (sv_st sv')))) \<and>
    (authInterceptor sha256 B t who (rn_authEnabled run) md (receiver_Register is_ip split_host now peer req) sv = (resp, sv'') \<longrightarrow>
      confined sha256 content t md (isl resp) sv sv'' \<and> sv_st sv'' = sv_st sv)"
proof -
  have inv: "server_inv content sv"
    using badger_gc.serve_reachable [OF assms(1) badger_gc.deployed_sound [OF assms(1,2)] assms(3-5)] .
  have db: "badger_db B content" using assms(1) by (simp add: badger_gc_def)
  have "store_all content entry_ok (sv_st sv)" and "token_of (content (st_db (sv_st sv)) t) [] = None"
    using inv by (simp_all add: server_inv_def store_all_sound_ok store_all_no_empty_token)
  note conf = authInterceptor_confines [OF db this]
  have en: "rn_authEnabled run = True"
    using serve_normal_server(6,7) [OF assms(4)] assms(6) by (simp add: TokenFromEnv_def EnvAPIToken_def)
  show ?thesis
    unfolding en
  proof (intro conjI impI allI)
    assume a: "authInterceptor sha256 B t who True md (StreamEvents rnd is_ip E B start its) sv = (res, sv')"
    show "confined sha256 content t md (isl res) sv sv'" by (rule conf [OF a StreamEvents_acts [OF db assms(7)]])
    fix k assume k: "k \<notin> (\<Union>it \<in> set its. written it)"
    show "keeps content k (st_db (sv_st sv)) (st_db (sv_st sv'))"
      using a badger_db.StreamEvents_keeps [OF db _ assms(7) k, of rnd is_ip E start _ sv _ sv']
      by (auto simp: authInterceptor_def split: sum.splits prod.splits)
  next
    assume a: "authInterceptor sha256 B t who True md (receiver_Register is_ip split_host now peer req) sv = (resp, sv'')"
    show c: "confined sha256 content t md (isl resp) sv sv''" by (rule conf [OF a receiver_Register_acts(1)])
    show "sv_st sv'' = sv_st sv"
      using a by (auto simp: authInterceptor_def receiver_Register_def Let_def split: sum.splits prod.splits option.splits if_splits)
  qed
qed

text \<open>A deployment in which a token was issued for one agent, which then streams to a collector.\<close>

definition demo_issue_db :: mem_db where
  "demo_issue_db = the (snd (tokenIssueCmd (\<lambda>s. s) mem_badger (Inr []) 0 (Inr ''k'') demo_now 0 ''web''))"

lemma demo_issue_cmd:
  "tokenIssueCmd (\<lambda>s. s) mem_badger (Inr []) 0 (Inr ''k'') demo_now 0 ''web'' = (Inr (hex_encode ''k'' @ [CHR 0x0A]), Some demo_issue_db)"
  and demo_issue_db_entry: "\<exists>j. demo_issue_db = [(agentTokenKey ''web'', j, None)]"
proof -
  have "TrimSpace ''web'' = ''web''" by code_simp
  moreover obtain j where "marshal_token \<lparr>tk_NodeID = ''web'', tk_TokenHash = hashToken (\<lambda>s. s) (hex_encode ''k''),
      tk_IssuedAt = demo_now, tk_RevokedAt = None\<rparr> = Some j"
    using demo_now_ok by (simp add: marshal_token_def)
  ultimately have "tokenIssueCmd (\<lambda>s. s) mem_badger (Inr []) 0 (Inr ''k'') demo_now 0 ''web'' =
      (Inr (hex_encode ''k'' @ [CHR 0x0A]), Some [(agentTokenKey ''web'', j, None)])"
    by (simp add: tokenIssueCmd_def openTokenStore_def store_New_def loadCounters_def mem_content_def
        seek_fwd_def IssueToken_def getAgentToken_def putAgentToken_def read_with_context_def write_with_context_def
        generateToken_def)
  then show "tokenIssueCmd (\<lambda>s. s) mem_badger (Inr []) 0 (Inr ''k'') demo_now 0 ''web'' = (Inr (hex_encode ''k'' @ [CHR 0x0A]), Some demo_issue_db)"
    and "\<exists>j. demo_issue_db = [(agentTokenKey ''web'', j, None)]" by (simp_all add: demo_issue_db_def)
qed

lemma demo_issue_deployed: "deployed (\<lambda>s. s) mem_badger mem_content demo_issue_db"
  using db_step_on.issued [OF _ demo_issue_cmd, of UNIV] demo_fresh by (auto simp: deployed_def)

lemma demo_serve_sound:
  assumes "db_sound mem_content db"
  shows "\<exists>run. serveCmd mem_badger (demo_host db) demo_flags = Inr (NormalMode run)"
proof -
  obtain run where r: "serveCmd mem_badger (demo_host []) demo_flags = Inr (NormalMode run)" using demo_serve by blast
  have h: "demo_host db = (demo_host [])\<lparr>ho_open := ho_open (demo_host db), ho_now := ho_now (demo_host db)\<rparr>"
    by (simp add: demo_host_def)
  show ?thesis by (rule badger_db.serve_again [OF mem.badger_db_axioms assms r h demo_open mem_view_simp mem_readable])
qed

lemma demo_auth: "serveCmd mem_badger (demo_host db) demo_flags = Inr (NormalMode run) \<Longrightarrow> rn_authEnabled run"
  using serve_normal_server(6,7) [of mem_badger "demo_host db" demo_flags run]
  by (simp add: TokenFromEnv_def EnvAPIToken_def demo_host_def) code_simp

lemmas demo_deployed_sound = badger_gc.deployed_sound [OF mem_gc_axioms]

theorem deployment_isolation_witness:
  "\<exists>run res sv' resp sv''. serveCmd mem_badger (demo_host demo_issue_db) demo_flags = Inr (NormalMode run) \<and>
    authInterceptor (\<lambda>s. s) mem_badger 9 FnWins (rn_authEnabled run) (demo_md (hex_encode ''k''))
      (StreamEvents (\<lambda>x. x) (\<lambda>_. False) demo_alerting mem_badger 0 [demo_iteration (demo_kernel_event ''db'' ''i'')]) (rn_server run) = (res, sv') \<and>
    confined (\<lambda>s. s) mem_content 9 (demo_md (hex_encode ''k'')) (isl res) (rn_server run) sv' \<and>
    authInterceptor (\<lambda>s. s) mem_badger 9 FnWins (rn_authEnabled run) (demo_md (hex_encode ''k''))
      (receiver_Register (\<lambda>_. False) (\<lambda>_. None) 9 None (demo_request ''db'')) (rn_server run) = (resp, sv'') \<and>
    confined (\<lambda>s. s) mem_content 9 (demo_md (hex_encode ''k'')) (isl resp) (rn_server run) sv''"
proof -
  let ?its = "[demo_iteration (demo_kernel_event ''db'' ''i'')]"
  obtain run where r: "serveCmd mem_badger (demo_host demo_issue_db) demo_flags = Inr (NormalMode run)"
    using demo_serve_sound [OF demo_deployed_sound [OF demo_issue_deployed]] by blast
  obtain res sv' where c: "authInterceptor (\<lambda>s. s) mem_badger 9 FnWins (rn_authEnabled run) (demo_md (hex_encode ''k''))
      (StreamEvents (\<lambda>x. x) (\<lambda>_. False) demo_alerting mem_badger 0 ?its) (rn_server run) = (res, sv')" by fastforce
  obtain resp sv'' where g: "authInterceptor (\<lambda>s. s) mem_badger 9 FnWins (rn_authEnabled run) (demo_md (hex_encode ''k''))
      (receiver_Register (\<lambda>_. False) (\<lambda>_. None) 9 None (demo_request ''db'')) (rn_server run) = (resp, sv'')" by fastforce
  have tok: "TrimSpace (ho_Getenv (demo_host demo_issue_db) ''SENTINEL_API_TOKEN'') \<noteq> []"
    by (simp add: demo_host_def) code_simp
  have "\<forall>it \<in> set ?its. clocks_ok it" by (simp add: demo_iteration_clocks)
  from deployment_isolation [OF mem_gc_axioms demo_issue_deployed demo_open r rtranclp.rtrancl_refl tok this] r c g
  show ?thesis by blast
qed

section \<open>Credentials\<close>

text \<open>
  C4: credentials take effect. After a token command has printed a token for a node, in every state of every
  collector with authentication that starts before the next command that writes the node's record, whatever else the
  deployment does meanwhile: a call with the token is handled in the name of the node (its id with the bytes that
  are no UTF-8 replaced), provided the database can be read and no other active record has the same hash; and a
  second token for the node is refused, without a change. When the node id is UTF-8, then once a later command has
  revoked the token, every call with it is refused and changes nothing.
\<close>

theorem credentials_take_effect:
  assumes "badger_gc B content" and "deployed sha256 B content db" and "rn_authEnabled run"
    and "tokenIssueCmd sha256 B (Inr db) t rnd now t' arg = (Inr (tok @ [CHR 0x0A]), Some db1)"
    and "(db_step_on (- {agentTokenKey (TrimSpace arg)}) sha256 B)\<^sup>*\<^sup>* db1 db2"
    and unique: "\<And>m rec. token_of (content (st_db (sv_st sv)) u) m = Some rec \<Longrightarrow> m \<noteq> TrimSpace arg \<Longrightarrow>
      tk_RevokedAt rec \<noteq> None \<or> tk_TokenHash rec \<noteq> hashToken sha256 tok"
  shows "(collector_at B db2 run sv \<and> bd_view B (st_db (sv_st sv)) u = Inr snap \<and> (\<forall>(k, v) \<in> set snap. \<exists>j. v = Inr j) \<longrightarrow>
      authInterceptor sha256 B u FnWins (rn_authEnabled run) (Some ((''Bearer '' @ tok) # vs)) handler sv =
        (case handler (coerce_utf8 (TrimSpace arg)) sv of (r, sv') \<Rightarrow> (Inr r, sv'))) \<and>
    (tokenIssueCmd sha256 B (Inr db2) i irnd inow i' arg = (ires, dbo) \<longrightarrow> (\<exists>err. ires = Inl err) \<and> dbo \<in> {None, Some db2}) \<and>
    (coerce_utf8 (TrimSpace arg) = TrimSpace arg \<and> tokenRevokeCmd B (Inr db2) v rnow v' yes line arg = (Inr out, Some db3) \<and>
      (db_step_on (- {agentTokenKey (TrimSpace arg)}) sha256 B)\<^sup>*\<^sup>* db3 db4 \<and> collector_at B db4 run sv \<longrightarrow>
      (\<exists>err. authInterceptor sha256 B u who (rn_authEnabled run) (Some ((''Bearer '' @ tok) # vs)) handler sv = (Inl err, sv)))"
proof (intro conjI impI; (elim conjE)?)
  let ?n = "TrimSpace arg"
  let ?rec = "\<lparr>tk_NodeID = coerce_utf8 ?n, tk_TokenHash = hashToken sha256 tok, tk_IssuedAt = now, tk_RevokedAt = None\<rparr>"
  note gc = assms(1)
  have db: "badger_db B content" using gc by (simp add: badger_gc_def)
  have sound1: "db_sound content db1" by (rule badger_db.tokenIssueCmd_sound [OF db badger_gc.deployed_sound [OF gc assms(2)] assms(4)])
  have rec1: "token_of (content db1 u) ?n = Some ?rec" for u
    by (rule badger_gc.tokenIssueCmd_table [OF gc assms(4)]) simp
  have sound2: "db_sound content db2" by (rule badger_gc.db_steps_sound [OF gc assms(5) sound1])
  have rec2: "token_of (content db2 u) ?n = Some ?rec" for u
    using keeps_token [OF badger_gc.db_steps_keep [OF gc assms(5) sound1]] rec1 by simp
  {
    assume c: "collector_at B db2 run sv" and v: "bd_view B (st_db (sv_st sv)) u = Inr snap" "\<forall>(k, v) \<in> set snap. \<exists>j. v = Inr j"
    note f = badger_gc.collector_at_facts [OF gc sound1 assms(5) c]
    show "authInterceptor sha256 B u FnWins (rn_authEnabled run) (Some ((''Bearer '' @ tok) # vs)) handler sv =
        (case handler (coerce_utf8 ?n) sv of (r, sv') \<Rightarrow> (Inr r, sv'))"
      using badger_gc.held_token_admits [OF gc f(1) _ _ _ v, of ?n ?rec sha256 tok vs handler] f(2) rec1 unique assms(3)
      by (auto simp: active_with_def)
  next
    assume "tokenIssueCmd sha256 B (Inr db2) i irnd inow i' arg = (ires, dbo)"
    from badger_gc.tokenIssueCmd_again [OF gc this rec2] show "\<exists>err. ires = Inl err" "dbo \<in> {None, Some db2}" by simp_all
  next
    assume utf8: "coerce_utf8 ?n = ?n" and R: "tokenRevokeCmd B (Inr db2) v rnow v' yes line arg = (Inr out, Some db3)"
      and s: "(db_step_on (- {agentTokenKey ?n}) sha256 B)\<^sup>*\<^sup>* db3 db4" and c: "collector_at B db4 run sv"
    from badger_gc.tokenRevokeCmd_table [OF gc sound2 R rec2 _ utf8, of u]
    have rec3: "token_of (content db3 u) ?n = Some (?rec\<lparr>tk_RevokedAt := Some rnow\<rparr>)" by simp
    note f = badger_gc.collector_at_facts [OF gc badger_db.tokenRevokeCmd_sound [OF db sound2 R] s c]
    show "\<exists>err. authInterceptor sha256 B u who (rn_authEnabled run) (Some ((''Bearer '' @ tok) # vs)) handler sv = (Inl err, sv)"
      unfolding assms(3) [THEN eqTrueI]
    proof (rule badger_gc.unheld_token_refused [OF gc f(1)])
      fix m rec assume "token_of (content (st_db (sv_st sv)) u) m = Some rec"
      then show "\<not> active_with (hashToken sha256 tok) rec"
        using f(2) [of u] rec3 unique by (cases "m = ?n") (auto simp: active_with_def)
    qed
  }
qed

text \<open>The token of \<open>demo_issue_db\<close> is used with one collector; then it is revoked, and used with the next.\<close>

lemma demo_web: "coerce_utf8 ''web'' = ''web''"
  by (rule coerce_utf8_ascii) simp

lemma demo_issue_token:
  "token_of (mem_content demo_issue_db u) =
    [''web'' \<mapsto> \<lparr>tk_NodeID = ''web'', tk_TokenHash = hashToken (\<lambda>s. s) (hex_encode ''k''), tk_IssuedAt = demo_now, tk_RevokedAt = None\<rparr>]"
proof -
  have w: "TrimSpace ''web'' = ''web''" by code_simp
  have "token_of (mem_content [] u) = Map.empty" by (simp add: token_of_def fun_eq_iff mem_content_def)
  then show ?thesis using badger_gc.tokenIssueCmd_table [OF mem_gc_axioms demo_issue_cmd, unfolded w append_same_eq demo_web] by metis
qed

lemma demo_revoke_cmd:
  "\<exists>db3. tokenRevokeCmd mem_badger (Inr demo_issue_db) 5 demo_now 5 True [] ''web'' = (Inr [], Some db3) \<and>
    db_sound mem_content db3 \<and> (\<forall>u m. m \<noteq> ''web'' \<longrightarrow> token_of (mem_content db3 u) m = None)"
proof -
  have w: "TrimSpace ''web'' = ''web''" by code_simp
  have sound: "db_sound mem_content demo_issue_db" by (rule demo_deployed_sound [OF demo_issue_deployed])
  obtain st where st: "store_New mem_badger (Inr demo_issue_db) 5 = Inr st"
    using badger_db.store_New_returns [OF mem.badger_db_axioms badger_db.db_sound_content [OF mem.badger_db_axioms sound] mem_view_simp mem_readable] by blast
  have "getAgentToken mem_badger st 5 FnWins ''web'' = Inr (token_of (mem_content (st_db st) 5) ''web'')"
    by (rule mem_getAgentToken [OF store_all_sound_ok [OF store_New_sound [OF st sound]]])
  then have "\<exists>st'. RevokeToken mem_badger st 5 FnWins demo_now 5 FnWins ''web'' = (None, st')"
    using demo_now_ok store_New_db [OF st]
    by (simp add: RevokeToken_def demo_issue_token putAgentToken_def write_with_context_def marshal_token_def)
  then obtain db3 where R: "tokenRevokeCmd mem_badger (Inr demo_issue_db) 5 demo_now 5 True [] ''web'' = (Inr [], Some db3)"
    using w st by (auto simp: tokenRevokeCmd_def openTokenStore_def Let_def)
  have "token_of (mem_content db3 u) m = None" if "m \<noteq> ''web''" for u m
    using badger_gc.tokenRevokeCmd_table [OF mem_gc_axioms sound R, unfolded w demo_web, of _ u] that by (simp add: demo_issue_token)
  with R badger_db.tokenRevokeCmd_sound [OF mem.badger_db_axioms sound R] show ?thesis by blast
qed

theorem credentials_take_effect_witness:
  "\<exists>run db3 run' err. serveCmd mem_badger (demo_host demo_issue_db) demo_flags = Inr (NormalMode run) \<and>
    authInterceptor (\<lambda>s. s) mem_badger 9 FnWins (rn_authEnabled run) (demo_md (hex_encode ''k'')) Pair (rn_server run) =
      (Inr ''web'', rn_server run) \<and>
    tokenRevokeCmd mem_badger (Inr demo_issue_db) 5 demo_now 5 True [] ''web'' = (Inr [], Some db3) \<and>
    serveCmd mem_badger (demo_host db3) demo_flags = Inr (NormalMode run') \<and>
    authInterceptor (\<lambda>s. s) mem_badger 9 FnWins (rn_authEnabled run') (demo_md (hex_encode ''k'')) Pair (rn_server run') =
      (Inl err, rn_server run')"
proof -
  have w: "TrimSpace ''web'' = ''web''" by code_simp
  have md: "demo_md tok = Some ((''Bearer '' @ tok) # [])" for tok by (simp add: demo_md_def)
  obtain run where r: "serveCmd mem_badger (demo_host demo_issue_db) demo_flags = Inr (NormalMode run)"
    using demo_serve_sound [OF demo_deployed_sound [OF demo_issue_deployed]] by blast
  obtain db3 where R: "tokenRevokeCmd mem_badger (Inr demo_issue_db) 5 demo_now 5 True [] ''web'' = (Inr [], Some db3)"
    and s3: "db_sound mem_content db3" and t3: "\<And>u m. m \<noteq> ''web'' \<Longrightarrow> token_of (mem_content db3 u) m = None"
    using demo_revoke_cmd by blast
  obtain run' where r': "serveCmd mem_badger (demo_host db3) demo_flags = Inr (NormalMode run')" using demo_serve_sound [OF s3] by blast
  have d: "st_db (sv_st (rn_server run)) = demo_issue_db" "st_db (sv_st (rn_server run')) = db3"
    using serve_normal_server(1) [OF r] serve_normal_server(1) [OF r'] by (simp_all add: demo_open)
  have c: "collector_at mem_badger demo_issue_db run (rn_server run)" "collector_at mem_badger db3 run' (rn_server run')"
    using r r' demo_open by (auto simp: collector_at_def)
  note 1 = credentials_take_effect [OF mem_gc_axioms demo_deployed demo_auth [OF r] demo_issue_cmd rtranclp.rtrancl_refl,
      where sv = "rn_server run" and u = 9 and vs = "[]" and handler = Pair and snap = "map (\<lambda>(k, j). (k, Inr j)) (mem_content demo_issue_db 9)"]
  note 2 = credentials_take_effect [OF mem_gc_axioms demo_deployed demo_auth [OF r'] demo_issue_cmd rtranclp.rtrancl_refl,
      where sv = "rn_server run'" and u = 9 and vs = "[]" and handler = Pair and who = FnWins]
  have "authInterceptor (\<lambda>s. s) mem_badger 9 FnWins (rn_authEnabled run) (demo_md (hex_encode ''k'')) Pair (rn_server run) =
      (Inr ''web'', rn_server run)"
    using 1 [THEN conjunct1] c(1) unfolding md w d demo_web by (auto simp: demo_issue_token split: if_splits)
  moreover have "\<exists>err. authInterceptor (\<lambda>s. s) mem_badger 9 FnWins (rn_authEnabled run') (demo_md (hex_encode ''k'')) Pair (rn_server run') =
      (Inl err, rn_server run')"
    using 2 [THEN conjunct2, THEN conjunct2] c(2) R t3 unfolding md w d demo_web by fastforce
  ultimately show ?thesis using r R r' by blast
qed

section \<open>Restarts\<close>

text \<open>
  C29: no restart fails because of the data. What a host and its flags start over some database, they start
  over every database of a deployment that can be read, at any instant: the collector has the data of the
  database, an empty registry, and for each type the number of live events as its counter.
\<close>

theorem restart_succeeds:
  assumes "badger_gc B content" and "deployed sha256 B content db" and "serveCmd B h fl = Inr (NormalMode run)"
    and "dir (fl_dataDir fl) = Inr db" and "bd_view B db now = Inr snap" and "\<forall>(k, v) \<in> set snap. \<exists>j. v = Inr j"
  shows "\<exists>run'. serveCmd B (h\<lparr>ho_open := dir, ho_now := now\<rparr>) fl = Inr (NormalMode run') \<and>
    st_db (sv_st (rn_server run')) = db \<and> sv_reg (rn_server run') = registry_New \<and>
    (\<forall>y. gm_count (Stats (sv_st (rn_server run'))) y = occurs (\<lambda>e. ev_Type e = y) (events_desc (content db now)))"
proof -
  let ?h = "h\<lparr>ho_open := dir, ho_now := now\<rparr>"
  have d: "badger_db B content" using assms(1) by (simp add: badger_gc_def)
  have sound: "db_sound content db" by (rule badger_gc.deployed_sound [OF assms(1,2)])
  obtain run' where r: "serveCmd B ?h fl = Inr (NormalMode run')"
    using badger_db.serve_again [OF d sound assms(3), of ?h snap] assms(4-6) by auto
  note s = serve_normal_server [OF r]
  have db: "st_db (sv_st (rn_server run')) = db" using s(1) assms(4) by simp
  show ?thesis
    using r db s(3) badger_db.store_New_counts [OF d badger_db.db_sound_content [OF d sound] s(2) [unfolded db]] by auto
qed

theorem restart_succeeds_witness:
  "\<exists>run. serveCmd mem_badger ((demo_host [])\<lparr>ho_open := \<lambda>_. Inr demo_issue_db, ho_now := 5\<rparr>) demo_flags = Inr (NormalMode run) \<and>
    sv_reg (rn_server run) = registry_New"
proof -
  obtain run where r: "serveCmd mem_badger (demo_host []) demo_flags = Inr (NormalMode run)" using demo_serve by blast
  show ?thesis
    using restart_succeeds [OF mem_gc_axioms demo_issue_deployed r _ mem_view_simp mem_readable, of "\<lambda>_. Inr demo_issue_db" 5] by auto
qed

section \<open>From an agent to the REST API\<close>

text \<open>
  C2: what an agent has had acknowledged can be read, also after restarts. When a stream of a collector
  of a deployment, in any state it can reach, acknowledges an event with yes, the event is valid; and in every later
  state, of this collector or of one started after it, whatever streams, commands and background work do
  that do not write under the event's key, until a second before the retention ends \<^verbatim>\<open>GET /api/events\<close> with
  the API token, unfiltered or for the event's node, answers \<^verbatim>\<open>200\<close> with a document that decodes to the
  stored form of the event, provided the database can be read and fewer live events than the limit asked for (100
  unless given, at most 1000) come before it in the listing: their keys are greater, which to the second means that
  they were received later.
\<close>

theorem streamed_event_served:
  assumes "badger_gc B content" and "deployed sha256 B content db"
    and "ho_open h (fl_dataDir fl) = Inr db" and "serveCmd B h fl = Inr (NormalMode run)"
    and "(server_step B)\<^sup>*\<^sup>* (rn_server run) (sm_server s)" and "clocks_ok it"
    and "stream_iteration rnd is_ip E B authed it s = (res, Some True, s')" and "it_recv it = Msg event"
    and "later_on (- {event_key (it_received it) (stored_event event)}) sha256 B run (sm_server s') run' sv"
    and "t + second \<le> fst (it_save it) + st_retention (sv_st (sm_server s))"
    and "bd_view B (st_db (sv_st sv)) t = Inr snap" and "\<forall>(k, v) \<in> set snap. \<exists>j. v = Inr j"
    and "rq_method rq = ''GET''" "rq_path rq = ''/api/events''" "rq_authorization rq = ''Bearer '' @ rn_apiToken run'"
    and "rq_query rq ''region'' = []" "asked_limit (rq_query rq) = Some limit"
    and "listed_before (content (st_db (sv_st sv)) t) ''event:'' (event_key (it_received it) (stored_event event)) < nat limit"
  shows "validateKernelEvent is_ip event = None \<and>
    (\<exists>js. rest_api err_text B run' sv t FnWins rq = Reply 200 (JArr js) \<and>
      (rq_query rq ''node'' \<in> {[], ke_NodeId event} \<longrightarrow> Some (stored_event event) \<in> set (map unmarshal_event js)))"
proof -
  have db: "badger_db B content" using assms(1) by (simp add: badger_gc_def)
  have "server_inv content (sm_server s)"
    by (rule badger_gc.serve_reachable [OF assms(1) badger_gc.deployed_sound [OF assms(1,2)] assms(3-5)])
  note later = badger_gc.acked_event_later [OF assms(1) this assms(6-9)]
  note all = later(2) and e = later(3) [OF assms(10)]
  let ?st = "sv_st sv" and ?q = "rq_query rq"
  obtain es where l: "ListEvents B ?st t FnWins (?q ''node'') limit = Inr es"
    using badger_db.ListEvents_returns [OF db all assms(11,12)] by blast
  obtain j where j: "marshal_event (stored_event event) = Some j"
    "map_of (content (st_db ?st) t) (event_key (it_received it) (stored_event event)) = Some j" using e by blast
  note r = get_events_listing [OF db all assms(17) l, where reg = "sv_reg sv"]
  have "rest_api err_text B run' sv t FnWins rq = get_events err_text B ?st (sv_reg sv) t FnWins ?q"
    using assms(13-15) by (simp add: rest_api_def rest_state_def exporter_Router_def static_route_def HasPrefix_def BearerAuth_iff)
  moreover have "stored_event event \<in> set es" if "?q ''node'' \<in> {[], ke_NodeId event}"
    by (rule badger_db.event_listed [OF db all j(2,1) l])
      (use that assms(18) asked_limit_bounds [OF assms(17)] in \<open>auto simp: stored_event_def eventPrefix_def maxNodeFilterScan_def\<close>)
  moreover have "map unmarshal_event (map (the \<circ> marshal_event) es) = map Some es"
    using r(2) unfolding assms(16) by (simp del: map_map)
  ultimately show ?thesis
    using later(1) r(1) unfolding assms(16)
    by (intro conjI exI [of _ "map (the \<circ> marshal_event) es"]) (simp_all del: map_map)
qed

text \<open>The stream of an agent that sends one event to a collector that has just started.\<close>

lemma demo_first_record: "\<exists>d. Record (detector_New []) (time_unix0 0) u e = ([], d)"
  by (simp add: Record_def detector_New_def DefaultWindows_def timestamps_of_def prune_def countWithin_def Let_def)

lemma demo_streamed:
  assumes "sv_st sv = \<lparr>st_db = [], st_retention = DefaultRetention,
      st_counters = [(''exec'', 0), (''tcp'', 0), (''file'', 0)], st_pending = [], st_gcStopped = False\<rparr>"
    and "sv_engine sv = Some (engine_New (Some []))" and "sv_detector sv = Some (detector_New [])"
  shows "\<exists>res s' k j x. stream_iteration (\<lambda>x. x) (\<lambda>_. False) demo_alerting mem_badger ''n''
      (demo_iteration (demo_kernel_event ''n'' ''i'')) (demo_stream\<lparr>sm_server := sv\<rparr>) = (res, Some True, s') \<and>
    st_db (sv_st (sm_server s')) = [(k, j, x)]"
proof -
  let ?e = "demo_kernel_event ''n'' ''i''"
  have "\<exists>b. allow (\<lambda>x. x) (sm_limiter demo_stream) 0 = (True, b)"
    by (simp add: demo_stream_def allow_def newTokenBucket_def streamEventsRateBurst_def streamEventsRateLimit_def
        dur_seconds_def time_sub_def trunc_div_def Let_def int64_min_def int64_max_def)
  then obtain b where "allow (\<lambda>x. x) (sm_limiter demo_stream) 0 = (True, b)" ..
  moreover obtain j where "marshal_event (stored_event ?e) = Some j" using stored_event_marshals by blast
  moreover obtain d where "Record (detector_New []) (time_unix0 0) ''u'' (stored_event ?e) = ([], d)"
    using demo_first_record by blast
  ultimately show ?thesis using demo_kernel_event_valid assms
    by (simp add: stream_iteration_def demo_iteration_def send_ack_def process_event_def SaveEvent_def Let_def
        write_with_context_def evaluate_alerts_def with_metrics_def Evaluate_def engine_New_def mem_badger_def mem_update_def
        demo_stream_def demo_kernel_event_def [of "''n''" "''i''"])
qed

text \<open>The collector that received the event ends, and another starts over its database.\<close>

lemma demo_restart:
  assumes "serveCmd mem_badger (demo_host []) demo_flags = Inr (NormalMode run)" and "(server_step mem_badger)\<^sup>*\<^sup>* (rn_server run) sv"
  shows "\<exists>run'. serveCmd mem_badger (demo_host (st_db (sv_st sv))) demo_flags = Inr (NormalMode run')"
  using badger_gc.db_step_sound [OF mem_gc_axioms db_step_on.served [OF demo_open assms]]
  by (intro demo_serve_sound) (blast intro: demo_deployed_sound demo_deployed)

lemma demo_story:
  obtains run res s' run' where "serveCmd mem_badger (demo_host []) demo_flags = Inr (NormalMode run)"
    and "stream_iteration (\<lambda>x. x) (\<lambda>_. False) demo_alerting mem_badger ''n'' (demo_iteration (demo_kernel_event ''n'' ''i''))
      (demo_stream\<lparr>sm_server := rn_server run\<rparr>) = (res, Some True, s')"
    and "serveCmd mem_badger (demo_host (st_db (sv_st (sm_server s')))) demo_flags = Inr (NormalMode run')"
    and "\<And>K. later_on K (\<lambda>s. s) mem_badger run (sm_server s') run' (rn_server run')"
    and "time_unix0 hour + second \<le> time_unix0 0 + st_retention (sv_st (rn_server run))"
    and "\<And>p k. listed_before (mem_content (st_db (sv_st (rn_server run'))) (time_unix0 hour)) p k \<le> 1"
proof -
  let ?it = "demo_iteration (demo_kernel_event ''n'' ''i'')"
  obtain run where r: "serveCmd mem_badger (demo_host []) demo_flags = Inr (NormalMode run)"
    and st: "sv_st (rn_server run) = \<lparr>st_db = [], st_retention = DefaultRetention,
      st_counters = [(''exec'', 0), (''tcp'', 0), (''file'', 0)], st_pending = [], st_gcStopped = False\<rparr>"
    and eng: "sv_engine (rn_server run) = Some (engine_New (Some []))" "sv_detector (rn_server run) = Some (detector_New [])"
    using demo_running by blast
  obtain res s' k j x where i: "stream_iteration (\<lambda>x. x) (\<lambda>_. False) demo_alerting mem_badger ''n'' ?it
      (demo_stream\<lparr>sm_server := rn_server run\<rparr>) = (res, Some True, s')"
    and db: "st_db (sv_st (sm_server s')) = [(k, j, x)]"
    using demo_streamed [OF st eng] by blast
  have steps: "(server_step mem_badger)\<^sup>*\<^sup>* (rn_server run) (sm_server s')"
    using stream_steps_server [OF stream_iteration_steps [OF i demo_iteration_clocks writes_in_UNIV]] by simp
  obtain run' where r': "serveCmd mem_badger (demo_host (st_db (sv_st (sm_server s')))) demo_flags = Inr (NormalMode run')"
    using demo_restart [OF r steps] by blast
  have later: "later_on K (\<lambda>s. s) mem_badger run (sm_server s') run' (rn_server run')" for K
    by (rule later_on.restarted [OF later_on.same_run [OF rtranclp.rtrancl_refl] rtranclp.rtrancl_refl demo_open r' rtranclp.rtrancl_refl])
  have db': "st_db (sv_st (rn_server run')) = [(k, j, x)]" using serve_normal_server(1) [OF r'] db by (simp add: demo_open)
  show thesis
  proof (rule that [OF r i r' later])
    show "time_unix0 hour + second \<le> time_unix0 0 + st_retention (sv_st (rn_server run))"
      using st by (simp add: DefaultRetention_def time_unix0_def duration_units)
    show "listed_before (mem_content (st_db (sv_st (rn_server run'))) (time_unix0 hour)) p k \<le> 1" for p k
      unfolding db' by (simp add: listed_before_def mem_content_def le_trans [OF length_filter_le])
  qed
qed

lemma demo_iteration_facts: "it_recv (demo_iteration e) = Msg e" "fst (it_save (demo_iteration e)) = time_unix0 0"
  by (simp_all add: demo_iteration_def)

theorem streamed_event_served_witness:
  "\<exists>run res s' run' js. serveCmd mem_badger (demo_host []) demo_flags = Inr (NormalMode run) \<and>
    stream_iteration (\<lambda>x. x) (\<lambda>_. False) demo_alerting mem_badger ''n'' (demo_iteration (demo_kernel_event ''n'' ''i''))
      (demo_stream\<lparr>sm_server := rn_server run\<rparr>) = (res, Some True, s') \<and>
    serveCmd mem_badger (demo_host (st_db (sv_st (sm_server s')))) demo_flags = Inr (NormalMode run') \<and>
    rest_api (\<lambda>_. []) mem_badger run' (rn_server run') (time_unix0 hour) FnWins
      (demo_request_to ''/api/events'' (''Bearer '' @ rn_apiToken run')) = Reply 200 (JArr js) \<and>
    Some (stored_event (demo_kernel_event ''n'' ''i'')) \<in> set (map unmarshal_event js)"
proof (rule demo_story)
  let ?t = "time_unix0 hour"
  fix run run' :: "mem_db running" and res s'
  let ?s = "demo_stream\<lparr>sm_server := rn_server run\<rparr>"
  assume r: "serveCmd mem_badger (demo_host []) demo_flags = Inr (NormalMode run)"
    and i: "stream_iteration (\<lambda>x. x) (\<lambda>_. False) demo_alerting mem_badger ''n'' (demo_iteration (demo_kernel_event ''n'' ''i'')) ?s = (res, Some True, s')"
    and r': "serveCmd mem_badger (demo_host (st_db (sv_st (sm_server s')))) demo_flags = Inr (NormalMode run')"
    and later: "\<And>K. later_on K (\<lambda>s. s) mem_badger run (sm_server s') run' (rn_server run')"
    and life: "?t + second \<le> time_unix0 0 + st_retention (sv_st (rn_server run))"
    and len: "\<And>p k. listed_before (mem_content (st_db (sv_st (rn_server run'))) ?t) p k \<le> 1"
  have reach: "(server_step mem_badger)\<^sup>*\<^sup>* (rn_server run) (sm_server ?s)" by simp
  have "listed_before (mem_content (st_db (sv_st (rn_server run'))) ?t) p k < nat 100" for p k
    using len [of p k] by simp
  from streamed_event_served [OF mem_gc_axioms demo_deployed demo_open r reach demo_iteration_clocks i demo_iteration_facts(1) later
      _ mem_view_simp mem_readable _ _ _ _ _ this, of "demo_request_to ''/api/events'' (''Bearer '' @ rn_apiToken run')" "\<lambda>_. []"] life
  show ?thesis using r i r' by (force simp: demo_request_to_def asked_limit_def demo_iteration_facts)
qed

text \<open>
  C3: the alerts an event raises can be read, also after restarts. When a stream of a collector of a deployment,
  in any state it can reach, acknowledges an event with yes, every alert that a rule or the anomaly detector
  raises for it, given that the ids drawn for them differ, names the event and its node; and in every
  later state, of this collector or of one started after it, whatever is done that does not write under the
  alert's key, until a second before the retention ends \<^verbatim>\<open>GET /api/alerts\<close> with the API token, unfiltered or
  for the event's node, answers \<^verbatim>\<open>200\<close> with a document that decodes to the alert, provided the database can be
  read and fewer live alerts than the limit asked for (100 unless given, at most 1000) come before it in the
  listing, with greater keys.
\<close>

theorem raised_alert_served:
  assumes "badger_gc B content" and "deployed sha256 B content db"
    and "ho_open h (fl_dataDir fl) = Inr db" and "serveCmd B h fl = Inr (NormalMode run)"
    and "(server_step B)\<^sup>*\<^sup>* (rn_server run) (sm_server s)" and "clocks_ok it"
    and "stream_iteration rnd is_ip E B authed it s = (res, Some True, s')" and "it_recv it = Msg event"
    and "alerts = raised_alerts E it (stored_event event) (sm_server s)"
    and "distinct (map al_AlertID alerts)" and "a \<in> set alerts"
    and "later_on (- {alert_key a}) sha256 B run (sm_server s') run' sv"
    and "\<forall>n < length alerts. t + second \<le> fst (it_alert it n) + st_retention (sv_st (sm_server s))"
    and "bd_view B (st_db (sv_st sv)) t = Inr snap" and "\<forall>(k, v) \<in> set snap. \<exists>j. v = Inr j"
    and "rq_method rq = ''GET''" "rq_path rq = ''/api/alerts''" "rq_authorization rq = ''Bearer '' @ rn_apiToken run'"
    and "rq_query rq ''region'' = []" "asked_limit (rq_query rq) = Some limit"
    and "listed_before (content (st_db (sv_st sv)) t) ''alert:'' (alert_key a) < nat limit"
  shows "al_EventID a = ke_EventId event \<and> al_NodeID a = ke_NodeId event \<and>
    (\<exists>js. rest_api err_text B run' sv t FnWins rq = Reply 200 (JArr js) \<and>
      (rq_query rq ''node'' \<in> {[], ke_NodeId event} \<longrightarrow> Some a \<in> set (map unmarshal_alert js)))"
proof -
  have db: "badger_db B content" using assms(1) by (simp add: badger_gc_def)
  have "server_inv content (sm_server s)"
    by (rule badger_gc.serve_reachable [OF assms(1) badger_gc.deployed_sound [OF assms(1,2)] assms(3-5)])
  note later = badger_gc.acked_alert_later [OF assms(1) this assms(6-13)]
  note all = later(1) and a = later(2)
  let ?st = "sv_st sv" and ?q = "rq_query rq"
  obtain als where l: "ListAlerts B ?st t FnWins (?q ''node'') limit = Inr als"
    using badger_db.ListAlerts_returns [OF db all assms(14,15)] by blast
  obtain j where j: "marshal_alert a = Some j" "map_of (content (st_db ?st) t) (alert_key a) = Some j" using a by blast
  note r = get_alerts_listing [OF db all assms(19,20) l]
  have of_event: "al_EventID a = ke_EventId event" "al_NodeID a = ke_NodeId event"
    using raised_alert_of_event [OF assms(11) [unfolded assms(9)]] by (simp_all add: stored_event_def)
  have "rest_api err_text B run' sv t FnWins rq = get_alerts err_text B ?st (sv_reg sv) t FnWins ?q"
    using assms(16-18) by (simp add: rest_api_def rest_state_def exporter_Router_def static_route_def HasPrefix_def BearerAuth_iff)
  moreover have "a \<in> set als" if "?q ''node'' \<in> {[], ke_NodeId event}"
    by (rule badger_db.alert_listed [OF db all j(2,1) l])
      (use that assms(21) of_event asked_limit_bounds [OF assms(20)] in \<open>auto simp: alertPrefix_def maxNodeFilterScan_def\<close>)
  ultimately show ?thesis
    using r of_event by (intro conjI exI [of _ "map (the \<circ> marshal_alert) als"]) (simp_all del: map_map)
qed

text \<open>A collector with one rule, which applies to the event of the agent.\<close>

definition demo_rules_host :: "mem_db \<Rightarrow> mem_db host" where
  "demo_rules_host db = (demo_host db)\<lparr>ho_read := (\<lambda>_. Inr []), ho_yaml := (\<lambda>_. Inr [demo_rule ''r'' ''comm'' ''eq'' ''bash''])\<rparr>"

definition demo_rules_flags :: flags where
  "demo_rules_flags = demo_flags\<lparr>fl_rules := ''rules.yaml''\<rparr>"

lemma demo_rules_running:
  "\<exists>run. serveCmd mem_badger (demo_rules_host []) demo_rules_flags = Inr (NormalMode run) \<and>
    sv_st (rn_server run) = \<lparr>st_db = [], st_retention = DefaultRetention,
      st_counters = [(''exec'', 0), (''tcp'', 0), (''file'', 0)], st_pending = [], st_gcStopped = False\<rparr> \<and>
    sv_engine (rn_server run) = Some (engine_New (Some [demo_rule ''r'' ''comm'' ''eq'' ''bash''])) \<and>
    sv_detector (rn_server run) = Some (detector_New [])"
proof -
  have "store_New mem_badger (Inr []) 0 = Inr \<lparr>st_db = [], st_retention = DefaultRetention,
      st_counters = [(''exec'', 0), (''tcp'', 0), (''file'', 0)], st_pending = [], st_gcStopped = False\<rparr>"
    by (simp add: store_New_def loadCounters_def mem_content_def seek_fwd_def)
  moreover have "Validate (\<lambda>_. Inl []) [demo_rule ''r'' ''comm'' ''eq'' ''bash''] = None"
    by code_simp
  ultimately show ?thesis
    by (simp add: serveCmd_def serve_normal_def demo_rules_flags_def demo_rules_host_def demo_flags_def demo_host_def second_def
        LoadRules_def NewMetricsProvider_def NewTracesProvider_def serve_setup_def Let_def)
qed

definition demo_raised :: Alert where
  "demo_raised = \<lparr>al_AlertID = ''u'', al_RuleID = ''r'', al_NodeID = ''n'', al_EventID = ''i'', al_Timestamp = time_unix0 0,
     al_Message = ''m'', al_Severity = ''warning''\<rparr>"

lemma demo_rule_alert:
  "Evaluate demo_alerting (engine_New (Some [demo_rule ''r'' ''comm'' ''eq'' ''bash''])) (\<lambda>_. ''u'') (\<lambda>_. time_unix0 0)
     (stored_event (demo_kernel_event ''n'' ''i'')) = [demo_raised]"
  by code_simp

text \<open>Its stream of one event: the event and the alert are stored, and acknowledged.\<close>

lemma demo_alerted:
  assumes "sv_st sv = \<lparr>st_db = [], st_retention = DefaultRetention,
      st_counters = [(''exec'', 0), (''tcp'', 0), (''file'', 0)], st_pending = [], st_gcStopped = False\<rparr>"
    and "sv_engine sv = Some (engine_New (Some [demo_rule ''r'' ''comm'' ''eq'' ''bash'']))" and "sv_detector sv = Some (detector_New [])"
  shows "raised_alerts demo_alerting (demo_iteration (demo_kernel_event ''n'' ''i'')) (stored_event (demo_kernel_event ''n'' ''i'')) sv = [demo_raised]"
    and "\<exists>res s' x y. stream_iteration (\<lambda>x. x) (\<lambda>_. False) demo_alerting mem_badger ''n''
      (demo_iteration (demo_kernel_event ''n'' ''i'')) (demo_stream\<lparr>sm_server := sv\<rparr>) = (res, Some True, s') \<and>
    st_db (sv_st (sm_server s')) = [x, y]"
proof -
  let ?e = "demo_kernel_event ''n'' ''i''"
  have "\<exists>b. allow (\<lambda>x. x) (sm_limiter demo_stream) 0 = (True, b)"
    by (simp add: demo_stream_def allow_def newTokenBucket_def streamEventsRateBurst_def streamEventsRateLimit_def
        dur_seconds_def time_sub_def trunc_div_def Let_def int64_min_def int64_max_def)
  then obtain b where "allow (\<lambda>x. x) (sm_limiter demo_stream) 0 = (True, b)" ..
  moreover obtain j where "marshal_event (stored_event ?e) = Some j" using stored_event_marshals by blast
  moreover obtain d where d: "Record (detector_New []) (time_unix0 0) ''u'' (stored_event ?e) = ([], d)"
    using demo_first_record by blast
  moreover obtain j' where "marshal_alert demo_raised = Some j'"
    by (simp add: marshal_alert_def demo_raised_def json_time_ok_def time_unix0_def second_def year_9999_end_def)
  ultimately show "\<exists>res s' x y. stream_iteration (\<lambda>x. x) (\<lambda>_. False) demo_alerting mem_badger ''n''
      (demo_iteration (demo_kernel_event ''n'' ''i'')) (demo_stream\<lparr>sm_server := sv\<rparr>) = (res, Some True, s') \<and>
    st_db (sv_st (sm_server s')) = [x, y]"
    using demo_kernel_event_valid demo_rule_alert assms
    by (simp add: stream_iteration_def demo_iteration_def send_ack_def process_event_def SaveEvent_def SaveAlert_def alert_body_def Let_def
        write_with_context_def evaluate_alerts_def with_metrics_def mem_badger_def mem_update_def
        demo_stream_def demo_kernel_event_def [of "''n''" "''i''"])
  show "raised_alerts demo_alerting (demo_iteration ?e) (stored_event ?e) sv = [demo_raised]"
    using assms d demo_rule_alert by (simp add: raised_alerts_def demo_iteration_def)
qed

theorem raised_alert_served_witness:
  "\<exists>run res s' js. serveCmd mem_badger (demo_rules_host []) demo_rules_flags = Inr (NormalMode run) \<and>
    stream_iteration (\<lambda>x. x) (\<lambda>_. False) demo_alerting mem_badger ''n'' (demo_iteration (demo_kernel_event ''n'' ''i''))
      (demo_stream\<lparr>sm_server := rn_server run\<rparr>) = (res, Some True, s') \<and>
    rest_api (\<lambda>_. []) mem_badger run (sm_server s') (time_unix0 hour) FnWins
      (demo_request_to ''/api/alerts'' (''Bearer '' @ rn_apiToken run)) = Reply 200 (JArr js) \<and>
    Some demo_raised \<in> set (map unmarshal_alert js)"
proof -
  let ?e = "demo_kernel_event ''n'' ''i''" and ?t = "time_unix0 hour"
  obtain run where r: "serveCmd mem_badger (demo_rules_host []) demo_rules_flags = Inr (NormalMode run)"
    and st: "sv_st (rn_server run) = \<lparr>st_db = [], st_retention = DefaultRetention,
      st_counters = [(''exec'', 0), (''tcp'', 0), (''file'', 0)], st_pending = [], st_gcStopped = False\<rparr>"
    and eng: "sv_engine (rn_server run) = Some (engine_New (Some [demo_rule ''r'' ''comm'' ''eq'' ''bash'']))"
      "sv_detector (rn_server run) = Some (detector_New [])"
    using demo_rules_running by blast
  let ?s = "demo_stream\<lparr>sm_server := rn_server run\<rparr>"
  obtain res s' x y where i: "stream_iteration (\<lambda>x. x) (\<lambda>_. False) demo_alerting mem_badger ''n'' (demo_iteration ?e) ?s = (res, Some True, s')"
    and db: "st_db (sv_st (sm_server s')) = [x, y]"
    using demo_alerted(2) [OF st eng] by blast
  have reach: "(server_step mem_badger)\<^sup>*\<^sup>* (rn_server run) (sm_server ?s)" by simp
  have opn: "ho_open (demo_rules_host []) (fl_dataDir demo_rules_flags) = Inr []" by (simp add: demo_rules_host_def demo_host_def)
  have raised: "[demo_raised] = raised_alerts demo_alerting (demo_iteration ?e) (stored_event ?e) (sm_server ?s)"
    using demo_alerted(1) [OF st eng] by simp
  have life: "\<forall>n < length [demo_raised]. ?t + second \<le> fst (it_alert (demo_iteration ?e) n) + st_retention (sv_st (sm_server ?s))"
    using st by (simp add: demo_iteration_def DefaultRetention_def time_unix0_def duration_units)
  have len: "listed_before (mem_content (st_db (sv_st (sm_server s'))) ?t) p k < nat 100" for p k
    unfolding db by (simp add: listed_before_def mem_content_def le_less_trans [OF length_filter_le])
  from raised_alert_served [OF mem_gc_axioms demo_deployed opn r reach demo_iteration_clocks i demo_iteration_facts(1) raised _ _
      later_on.same_run [OF rtranclp.rtrancl_refl] life mem_view_simp mem_readable _ _ _ _ _ len,
      where a = demo_raised and err_text = "\<lambda>_. []" and rq = "demo_request_to ''/api/alerts'' (''Bearer '' @ rn_apiToken run)"]
  show ?thesis using r i by (force simp: demo_request_to_def asked_limit_def)
qed

section \<open>From an agent to the aggregator\<close>

text \<open>What a launched aggregator starts with.\<close>

lemma launched_aggregator:
  assumes "serveCmd B h fl = Inr (AggregateMode agg warnings)"
  shows "aggregator_inv (ar_agg agg)" "ag_apiToken (ar_agg agg) = ar_apiToken agg" "ag_eventLimit (ar_agg agg) = 100"
  using assms
  by (auto simp: serveCmd_def runAggregate_def Let_def aggregator_New_inv split: if_splits option.splits sum.splits)
    (auto simp: aggregator_New_def)

text \<open>
  C17: what an agent has had acknowledged by a collector can be read at an aggregator. When the aggregator of
  several regions with different names has the collector's token, and the polls of its last round have
  reached the collector in later states, of the same or a restarted process, in which the event is
  live, then whatever the other regions answered and the earlier rounds got, \<^verbatim>\<open>GET /api/events\<close> at the
  aggregator returns a document that decodes to the stored form of the event. Fewer live events than the hundred
  that the aggregator asks for come before the event in the collector's listing, the replies are at most 10 MB long,
  and all timestamps can be encoded.
\<close>

theorem streamed_event_aggregated:
  assumes "badger_gc B content" and "deployed sha256 B content db"
    and "ho_open h (fl_dataDir fl) = Inr db" and "serveCmd B h fl = Inr (NormalMode run)"
    and "(server_step B)\<^sup>*\<^sup>* (rn_server run) (sm_server s)" and "clocks_ok it"
    and "stream_iteration rnd is_ip E B authed it s = (res, Some True, s')" and "it_recv it = Msg event"
    and "later_on (- {event_key (it_received it) (stored_event event)}) sha256 B run (sm_server s') run' sv1"
    and "(server_step_on (- {event_key (it_received it) (stored_event event)}) B)\<^sup>*\<^sup>* sv1 sv2"
    and "(server_step_on (- {event_key (it_received it) (stored_event event)}) B)\<^sup>*\<^sup>* sv2 sv3"
    and "t + second \<le> fst (it_save it) + st_retention (sv_st (sm_server s))"
    and "bd_view B (st_db (sv_st sv2)) t = Inr snap" and "\<forall>(k, v) \<in> set snap. \<exists>j. v = Inr j"
    and "bd_view B (st_db (sv_st sv3)) t = Inr snap'" and "\<forall>(k, v) \<in> set snap'. \<exists>j. v = Inr j"
    and "listed_before (content (st_db (sv_st sv2)) t) ''event:'' (event_key (it_received it) (stored_event event)) < 100"
    and "\<forall>n \<in> set (registry_List (sv_reg sv1)). json_time_ok (an_Registered n) \<and> json_time_ok (an_LastSeen n)"
    and "serveCmd B h' fl' = Inr (AggregateMode agg warnings)" and "ar_apiToken agg = rn_apiToken run'"
    and "distinct (map up_Region (ag_upstreams (ar_agg agg)))" and "u \<in> set (ag_upstreams (ar_agg agg))"
    and "reaches (http u) (up_URL u) (rn_staticDir run') (rn_apiToken run') 100
      (rest_state err_text B sv1) (rest_state err_text B sv2) (rest_state err_text B sv3) t"
    and "\<forall>(http, order) \<in> set rounds. mset order = mset (ag_upstreams (ar_agg agg))" and "mset order = mset (ag_upstreams (ar_agg agg))"
    and "first # ticks = rounds @ [(http, order)]" and "a = aggregator_Start first ticks (ar_agg agg)"
    and "\<forall>e \<in> set (aggregator_Events a). json_time_ok (ev_Timestamp e)"
    and "rq_method rq = ''GET''" "rq_path rq = ''/api/events''" "rq_authorization rq = ''Bearer '' @ ar_apiToken agg"
  shows "\<exists>js. aggregator_Router (ar_staticDir agg) (ar_apiToken agg) a rq = Reply 200 (JArr js) \<and>
    Some (stored_event event) \<in> set (map unmarshal_event js)"
proof -
  note gc = assms(1)
  have db: "badger_db B content" using gc by (simp add: badger_gc_def)
  have inv: "server_inv content (sm_server s)"
    by (rule badger_gc.serve_reachable [OF gc badger_gc.deployed_sound [OF gc assms(2)] assms(3-5)])
  note later = later_on_steps [OF assms(9,10)]
  note L2 = badger_gc.acked_event_later [OF gc inv assms(6-8) later]
  note L3 = badger_gc.acked_event_later(2) [OF gc inv assms(6-8) later_on_steps [OF later assms(11)]]
  obtain es where l: "ListEvents B (sv_st sv2) t FnWins [] 100 = Inr es"
    using badger_db.ListEvents_returns [OF db L2(2) assms(13,14)] by blast
  obtain als where m: "ListAlerts B (sv_st sv3) t FnWins [] 100 = Inr als"
    using badger_db.ListAlerts_returns [OF db L3 assms(15,16)] by blast
  obtain j where j: "marshal_event (stored_event event) = Some j"
    "map_of (content (st_db (sv_st sv2)) t) (event_key (it_received it) (stored_event event)) = Some j"
    using L2(3) [OF assms(12)] by blast
  have e: "stored_event event \<in> set es"
    by (rule badger_db.event_listed [OF db L2(2) j(2,1) l]) (use assms(17) in \<open>simp_all add: eventPrefix_def maxNodeFilterScan_def\<close>)
  note A = launched_aggregator [OF assms(19)]
  note P = poll_reaching [OF db _ _ _ _ _ _ _ assms(23), of es als]
  have p: "rg_reachable (poll_result (http u) (rn_apiToken run') 100 u)" "stored_event event \<in> set (rg_events (poll_result (http u) (rn_apiToken run') 100 u))"
    using P L2(2) L3 l m assms(18) e by (simp_all add: rest_state_def)
  let ?a = "fold (\<lambda>(http, order). PollOnce http order) rounds (ar_agg agg)"
  note R = rounds_state [OF A(1) assms(21,24)]
  have a: "a = PollOnce http order ?a" using assms(26,27) by (simp add: aggregator_Start_def)
  have "stored_event event \<in> set (aggregator_Events a)"
    unfolding a by (rule merged_event [of _ _ u]) (use R A assms(20-22,25) p in simp_all)
  with aggregator_events_route [OF assms(28-31)] show ?thesis by (metis (no_types, lifting) image_eqI list.set_map)
qed

text \<open>The same story with an aggregator that polls the restarted collector, beside a region that never answers.\<close>

definition demo_agg_flags :: flags where
  "demo_agg_flags = demo_flags\<lparr>fl_aggregate := True, fl_upstreams := [''eu=http://eu'', ''us=http://us'']\<rparr>"

definition demo_agg_host :: "mem_db host" where
  "demo_agg_host = (demo_host [])\<lparr>ho_url := (\<lambda>_. Inr (''http'', ''host''))\<rparr>"

lemma demo_agg_launch:
  "\<exists>agg ws. serveCmd mem_badger demo_agg_host demo_agg_flags = Inr (AggregateMode agg ws) \<and> ar_apiToken agg = ''secret'' \<and>
    ar_agg agg = aggregator_New [demo_upstream ''eu'', demo_upstream ''us''] (10 * second) ''secret''"
proof -
  have "TrimSpace ''secret'' = ''secret''" by code_simp
  moreover have "ParseUpstreams (\<lambda>_. Inr (''http'', ''host'')) [''eu=http://eu'', ''us=http://us''] = Inr [demo_upstream ''eu'', demo_upstream ''us'']"
    by code_simp
  ultimately show ?thesis
    by (simp add: serveCmd_def runAggregate_def demo_agg_flags_def demo_agg_host_def demo_flags_def demo_host_def TokenFromEnv_def EnvAPIToken_def Let_def)
qed

definition demo_regions :: "mem_db running \<Rightarrow> Upstream \<Rightarrow> http_client" where
  "demo_regions run u = (if up_Region u = ''eu'' then
     demo_client (rn_staticDir run) (rn_apiToken run) (rest_state (\<lambda>_. []) mem_badger (rn_server run)) (time_unix0 hour) else demo_http False)"

lemma demo_agg_events:
  assumes "serveCmd mem_badger (demo_host db) demo_flags = Inr (NormalMode run)" and "db_sound mem_content db"
    and "e \<in> set (aggregator_Events (PollOnce (demo_regions run) [demo_upstream ''us'', demo_upstream ''eu'']
      (aggregator_New [demo_upstream ''eu'', demo_upstream ''us''] (10 * second) (rn_apiToken run))))"
  shows "json_time_ok (ev_Timestamp e)"
proof -
  let ?st = "sv_st (rn_server run)" and ?t = "time_unix0 hour"
  let ?a = "aggregator_New [demo_upstream ''eu'', demo_upstream ''us''] (10 * second) (rn_apiToken run)"
  have d: "st_db ?st = db" using serve_normal_server(1) [OF assms(1)] by (simp add: demo_open)
  have all: "store_all mem_content entry_ok ?st"
    using store_all_sound_ok [OF store_New_sound [OF serve_normal_server(2) [OF assms(1)]]] assms(2) d by simp
  obtain es where l: "ListEvents mem_badger ?st ?t FnWins [] 100 = Inr es" using mem.ListEvents_returns [OF all mem_view_simp mem_readable] by blast
  obtain als where m: "ListAlerts mem_badger ?st ?t FnWins [] 100 = Inr als" using mem.ListAlerts_returns [OF all mem_view_simp mem_readable] by blast
  have eu: "rg_events (poll_result (demo_regions run (demo_upstream ''eu'')) (rn_apiToken run) 100 (demo_upstream ''eu'')) = es"
    using poll_reaching [OF mem.badger_db_axioms _ _ _ _ _ _ _ demo_client_reaches, of "rest_state (\<lambda>_. []) mem_badger (rn_server run)"] all l m
      serve_normal_server(3) [OF assms(1)]
    by (simp add: demo_regions_def rest_state_def demo_upstream_def registry_New_def registry_List_def)
  have us: "rg_events (poll_result (demo_regions run (demo_upstream ''us'')) (rn_apiToken run) 100 (demo_upstream ''us'')) = []"
    by (simp add: demo_regions_def demo_upstream_def poll_result_def fetchJSON_def demo_http_def empty_region_def)
  have u: "ag_upstreams ?a = [demo_upstream ''eu'', demo_upstream ''us'']" "ag_apiToken ?a = rn_apiToken run" "ag_eventLimit ?a = 100"
    by (simp_all add: aggregator_New_def)
  have "mset (ag_state (PollOnce (demo_regions run) [demo_upstream ''us'', demo_upstream ''eu''] ?a)) =
      image_mset (\<lambda>u. (up_Region u, poll_result (demo_regions run u) (ag_apiToken ?a) (ag_eventLimit ?a) u)) (mset (ag_upstreams ?a))"
    by (rule PollOnce_state(3)) (auto simp: u aggregator_New_inv, simp add: demo_upstream_def)
  from arg_cong [OF this, of set_mset] have "e \<in> set es"
    using assms(3) eu us unfolding aggregator_views by (auto simp: u split: if_splits)
  from badger_db.listed_events_marshal [OF mem.badger_db_axioms all l this] show ?thesis by (simp add: marshal_event_def split: if_splits)
qed

theorem streamed_event_aggregated_witness:
  "\<exists>run res s' run' agg ws js. serveCmd mem_badger (demo_host []) demo_flags = Inr (NormalMode run) \<and>
    stream_iteration (\<lambda>x. x) (\<lambda>_. False) demo_alerting mem_badger ''n'' (demo_iteration (demo_kernel_event ''n'' ''i''))
      (demo_stream\<lparr>sm_server := rn_server run\<rparr>) = (res, Some True, s') \<and>
    serveCmd mem_badger (demo_host (st_db (sv_st (sm_server s')))) demo_flags = Inr (NormalMode run') \<and>
    serveCmd mem_badger demo_agg_host demo_agg_flags = Inr (AggregateMode agg ws) \<and>
    aggregator_Router (ar_staticDir agg) (ar_apiToken agg)
      (aggregator_Start (demo_regions run', [demo_upstream ''us'', demo_upstream ''eu'']) [] (ar_agg agg))
      (demo_request_to ''/api/events'' (''Bearer '' @ ar_apiToken agg)) = Reply 200 (JArr js) \<and>
    Some (stored_event (demo_kernel_event ''n'' ''i'')) \<in> set (map unmarshal_event js)"
proof (rule demo_story)
  let ?t = "time_unix0 hour" and ?order = "[demo_upstream ''us'', demo_upstream ''eu'']"
  fix run run' :: "mem_db running" and res s'
  let ?s = "demo_stream\<lparr>sm_server := rn_server run\<rparr>" and ?c = "rest_state (\<lambda>_. []) mem_badger (rn_server run')"
  assume r: "serveCmd mem_badger (demo_host []) demo_flags = Inr (NormalMode run)"
    and i: "stream_iteration (\<lambda>x. x) (\<lambda>_. False) demo_alerting mem_badger ''n'' (demo_iteration (demo_kernel_event ''n'' ''i'')) ?s = (res, Some True, s')"
    and r': "serveCmd mem_badger (demo_host (st_db (sv_st (sm_server s')))) demo_flags = Inr (NormalMode run')"
    and later: "\<And>K. later_on K (\<lambda>s. s) mem_badger run (sm_server s') run' (rn_server run')"
    and life: "?t + second \<le> time_unix0 0 + st_retention (sv_st (rn_server run))"
    and len: "\<And>p k. listed_before (mem_content (st_db (sv_st (rn_server run'))) ?t) p k \<le> 1"
  have reach: "(server_step mem_badger)\<^sup>*\<^sup>* (rn_server run) (sm_server ?s)" by simp
  have life': "?t + second \<le> fst (it_save (demo_iteration (demo_kernel_event ''n'' ''i''))) + st_retention (sv_st (sm_server ?s))"
    using life by (simp add: demo_iteration_facts)
  have len': "listed_before (mem_content (st_db (sv_st (rn_server run'))) ?t) p k < 100" for p k using len [of p k] by simp
  have nodes: "\<forall>n \<in> set (registry_List (sv_reg (rn_server run'))). json_time_ok (an_Registered n) \<and> json_time_ok (an_LastSeen n)"
    using serve_normal_server(3) [OF r'] by (simp add: registry_New_def registry_List_def)
  have "TrimSpace ''secret'' = ''secret''" by code_simp
  then have tok: "rn_apiToken run' = ''secret''"
    using serve_normal_server(7) [OF r'] by (simp add: TokenFromEnv_def EnvAPIToken_def demo_host_def)
  obtain agg ws where l: "serveCmd mem_badger demo_agg_host demo_agg_flags = Inr (AggregateMode agg ws)" "ar_apiToken agg = rn_apiToken run'"
    and a: "ar_agg agg = aggregator_New [demo_upstream ''eu'', demo_upstream ''us''] (10 * second) (rn_apiToken run')"
    using demo_agg_launch tok by auto
  have u: "ag_upstreams (ar_agg agg) = [demo_upstream ''eu'', demo_upstream ''us'']" by (simp add: a aggregator_New_def)
  have d: "distinct (map up_Region (ag_upstreams (ar_agg agg)))" "demo_upstream ''eu'' \<in> set (ag_upstreams (ar_agg agg))"
    "mset ?order = mset (ag_upstreams (ar_agg agg))" by (simp_all add: u) (simp add: demo_upstream_def)
  have c: "reaches (demo_regions run' (demo_upstream ''eu'')) (up_URL (demo_upstream ''eu'')) (rn_staticDir run') (rn_apiToken run') 100 ?c ?c ?c ?t"
    using demo_client_reaches by (simp add: demo_regions_def demo_upstream_def)
  have "db_sound mem_content (st_db (sv_st (sm_server s')))"
    using badger_gc.server_steps_inv [OF mem_gc_axioms badger_gc.serve_reachable [OF mem_gc_axioms demo_deployed_sound [OF demo_deployed] demo_open r reach]
      stream_steps_server [OF stream_iteration_steps [OF i demo_iteration_clocks writes_in_UNIV]]]
    by (auto simp: server_inv_def intro: store_all_db)
  then have enc: "\<forall>e \<in> set (aggregator_Events (aggregator_Start (demo_regions run', ?order) [] (ar_agg agg))). json_time_ok (ev_Timestamp e)"
    using demo_agg_events [OF r'] by (simp add: aggregator_Start_def a)
  from streamed_event_aggregated [where http = "demo_regions run'" and u = "demo_upstream ''eu''" and order = ?order and rounds = "[]"
      and rq = "demo_request_to ''/api/events'' (''Bearer '' @ ar_apiToken agg)", OF mem_gc_axioms demo_deployed demo_open r reach demo_iteration_clocks i demo_iteration_facts(1) later
      rtranclp.rtrancl_refl rtranclp.rtrancl_refl life' mem_view_simp mem_readable mem_view_simp mem_readable len' nodes l d(1,2) c _ d(3) _ refl enc] r i r' l(1)
  show ?thesis by (force simp: demo_request_to_def)
qed

section \<open>Alert rules and the events they see\<close>

text \<open>A rule with a condition on a field that the payload of an event does not have might as well not be there for the event.\<close>

lemma missing_field_no_alert:
  assumes "cond \<in> set (ru_Conditions rule)" and "payload_map (ev_Payload event) = Some ms"
    and "getFieldValue ms (co_Field cond) = None"
  shows "Evaluate E (engine_New (Some (before @ rule # after))) uuid clock event =
    Evaluate E (engine_New (Some (before @ after))) uuid clock event"
proof -
  have "\<not> matchCondition E ms cond" using assms(3) by (simp add: matchCondition_def)
  then have "\<not> rule_matches E event rule" using assms(1,2) by (auto simp: rule_matches_def)
  then show ?thesis by (simp add: Evaluate_def engine_New_def evaluate_rules_spec)
qed

lemma Split_plain: "c \<notin> set s \<Longrightarrow> Split s c = [s]"
  by (induction s) auto

lemma getFieldValue_top: "CHR ''.'' \<notin> set f \<Longrightarrow> getFieldValue ms f = map_of (rev ms) f"
  by (simp add: getFieldValue_def Split_plain obj_get_def split: option.split)

lemma payload_members: "\<exists>ms. payload_map (eventPayload event) = Some ms \<and> fst ` set ms \<subseteq>
  {''pid'', ''ppid'', ''comm'', ''cmdline'', ''cwd'', ''uid'', ''src_ip'', ''src_port'', ''dst_ip'', ''dst_port'', ''direction'', ''path'', ''op'', ''ret''}"
  using eventPayload_cases [of event]
  by (elim disjE exE conjE) (auto simp: exec_json_def tcp_json_def file_json_def omit_num_def omit_str_def)

text \<open>
  C40: rules that never fire. The name of a destination port in a stored event is \<^verbatim>\<open>dst_port\<close>, so a rule with a
  condition on \<^verbatim>\<open>dport\<close>, like the rule for suspicious ports of the rule file that comes with the program,
  contributes nothing to the alerts of any event. And a field that is zero cannot be tested, since the payload
  leaves it out: a rule with a condition on the user id contributes nothing for a process of the user with id 0,
  whatever the condition, even \<^verbatim>\<open>uid eq 0\<close>.
\<close>

theorem absent_field_rules_never_fire:
  assumes "cond \<in> set (ru_Conditions rule)"
    and "co_Field cond = ''dport'' \<or>
      co_Field cond = ''uid'' \<and> ke_Type event = EventType_EXEC \<and> ke_Payload event = ExecPayload x \<and> ex_Uid x = 0"
  shows "Evaluate E (engine_New (Some (before @ rule # after))) uuid clock (stored_event event) =
    Evaluate E (engine_New (Some (before @ after))) uuid clock (stored_event event)"
proof -
  have "\<exists>ms. payload_map (eventPayload event) = Some ms \<and> co_Field cond \<notin> fst ` set ms"
    using assms(2)
  proof (elim disjE conjE)
    assume "co_Field cond = ''dport''"
    then show ?thesis using payload_members [of event] by force
  next
    assume "co_Field cond = ''uid''" "ke_Type event = EventType_EXEC" "ke_Payload event = ExecPayload x" "ex_Uid x = 0"
    then show ?thesis by (auto simp: eventPayload_def exec_json_def omit_num_def omit_str_def)
  qed
  then obtain ms where ms: "payload_map (eventPayload event) = Some ms" "co_Field cond \<notin> fst ` set ms" by blast
  have dot: "CHR ''.'' \<notin> set (co_Field cond)" using assms(2) by auto
  have "getFieldValue ms (co_Field cond) = None"
    unfolding getFieldValue_top [OF dot] using ms(2) by (simp add: map_of_eq_None_iff)
  with ms(1) assms(1) show ?thesis by (intro missing_field_no_alert) (simp_all add: stored_event_def)
qed

definition suspicious_port_rule :: Rule where
  "suspicious_port_rule = \<lparr>ru_ID = ''tcp_to_suspicious_port'', ru_Description = ''Alert on connections to high ports'',
     ru_EventType = ''tcp'', ru_Conditions = [\<lparr>co_Field = ''dport'', co_Operator = ''gt'', co_Value = ''10000''\<rparr>],
     ru_Severity = ''warning'', ru_Message = ''TCP connection to non-standard port detected''\<rparr>"

definition demo_tcp_event :: KernelEvent where
  "demo_tcp_event = \<lparr>ke_EventId = ''i'', ke_NodeId = ''n'', ke_Timestamp = 5, ke_Type = EventType_TCP,
     ke_Payload = TcpPayload \<lparr>tc_Pid = 7, tc_Comm = ''nc'', tc_SrcIp = [], tc_SrcPort = 1, tc_DstIp = [], tc_DstPort = 31337,
       tc_Direction = []\<rparr>\<rparr>"

theorem absent_field_rules_never_fire_witness:
  "Evaluate demo_env (engine_New (Some [suspicious_port_rule])) (\<lambda>_. ''u'') (\<lambda>_. 0) (stored_event demo_tcp_event) = [] \<and>
   Evaluate demo_env (engine_New (Some [demo_rule ''root'' ''uid'' ''eq'' ''0''])) (\<lambda>_. ''u'') (\<lambda>_. 0)
     (stored_event (demo_kernel_event ''n'' ''i'')) = []"
proof -
  have none: "Evaluate demo_env (engine_New (Some [])) (\<lambda>_. ''u'') (\<lambda>_. 0) e = []" for e
    by (simp add: Evaluate_def engine_New_def)
  have "Evaluate demo_env (engine_New (Some ([] @ suspicious_port_rule # []))) (\<lambda>_. ''u'') (\<lambda>_. 0) (stored_event demo_tcp_event) =
      Evaluate demo_env (engine_New (Some ([] @ []))) (\<lambda>_. ''u'') (\<lambda>_. 0) (stored_event demo_tcp_event)"
    by (rule absent_field_rules_never_fire [where cond = "\<lparr>co_Field = ''dport'', co_Operator = ''gt'', co_Value = ''10000''\<rparr>"])
      (simp_all add: suspicious_port_rule_def)
  moreover have "Evaluate demo_env (engine_New (Some ([] @ demo_rule ''root'' ''uid'' ''eq'' ''0'' # []))) (\<lambda>_. ''u'') (\<lambda>_. 0)
      (stored_event (demo_kernel_event ''n'' ''i'')) =
      Evaluate demo_env (engine_New (Some ([] @ []))) (\<lambda>_. ''u'') (\<lambda>_. 0) (stored_event (demo_kernel_event ''n'' ''i''))"
    by (rule absent_field_rules_never_fire [where cond = "\<lparr>co_Field = ''uid'', co_Operator = ''eq'', co_Value = ''0''\<rparr>"
          and x = "\<lparr>ex_Pid = 7, ex_Ppid = 1, ex_Comm = ''bash'', ex_Cmdline = [], ex_Cwd = ''/'', ex_Uid = 0\<rparr>"])
      (simp_all add: demo_rule_def demo_kernel_event_def)
  ultimately show ?thesis using none by simp
qed

end
